(* ===== verification/Prelude.thy ===== *)
theory Prelude
  imports Main "HOL-Library.AList" "HOL-Library.Multiset"
begin

text \<open>
  Shared vocabulary of the development.

  \<^item> A Go map with string keys is an association list with distinct keys
    (\<open>gomap\<close>); reading is \<open>map_of\<close>, writing is \<open>AList.update\<close>, deletion is
    \<open>AList.delete\<close>.
  \<^item> Go leaves the order in which \<^verbatim>\<open>range\<close> visits a map open, and two loops over
    the same map may use two orders. A loop whose result can depend on the order takes a
    range oracle \<open>rng\<close>: \<open>rng n ks\<close> is the order in which the \<open>n\<close>-th such loop
    of the operation visits the keys \<open>ks\<close>. The only law is that each key is visited
    exactly once (locale \<open>go_range\<close>).
  \<^item> A call that may fail or panic returns an \<open>outcome\<close>.
\<close>

named_theorems gomap_simps \<open>lookup and update laws of Go maps\<close>
named_theorems queue_simps \<open>unfolding rules of the queue components\<close>
named_theorems status_simps \<open>evaluation of the status automata\<close>

section \<open>Results\<close>

datatype ('e, 'a) outcome = Ok 'a | Err 'e | Panic | OutOfFuel

fun bindO :: "('e, 'a) outcome \<Rightarrow> ('a \<Rightarrow> ('e, 'b) outcome) \<Rightarrow> ('e, 'b) outcome" where
  "bindO (Ok x) f = f x"
| "bindO (Err e) f = Err e"
| "bindO Panic f = Panic"
| "bindO OutOfFuel f = OutOfFuel"

lemma bindO_Ok_iff: "bindO r f = Ok y \<longleftrightarrow> (\<exists>x. r = Ok x \<and> f x = Ok y)"
  by (cases r) auto

section \<open>Go maps\<close>

type_synonym 'v gomap = "(string \<times> 'v) list"

abbreviation keys :: "'v gomap \<Rightarrow> string list" where
  "keys m \<equiv> map fst m"

definition gomap_wf :: "'v gomap \<Rightarrow> bool" where
  "gomap_wf m \<longleftrightarrow> distinct (keys m)"

lemma gomap_wf_Nil [simp]: "gomap_wf []"
  by (simp add: gomap_wf_def)

lemma gomap_wf_update [simp]: "gomap_wf m \<Longrightarrow> gomap_wf (AList.update k v m)"
  by (simp add: gomap_wf_def distinct_update)

lemma gomap_wf_delete [simp]: "gomap_wf m \<Longrightarrow> gomap_wf (AList.delete k m)"
  by (simp add: gomap_wf_def distinct_delete)

lemma gomap_get_update [simp, gomap_simps]:
  "map_of (AList.update k v m) k' = (if k' = k then Some v else map_of m k')"
  by (simp add: update_conv')

lemma gomap_get_delete [simp, gomap_simps]:
  "map_of (AList.delete k m) k' = (if k' = k then None else map_of m k')"
  by (simp add: delete_conv')

lemma gomap_keys_update:
  "set (keys (AList.update k v m)) = insert k (set (keys m))"
  by (simp add: dom_update)

lemma gomap_keys_update_same:
  "map_of m k = Some v0 \<Longrightarrow> keys (AList.update k v m) = keys m"
  by (induction m) auto

lemma gomap_in_iff:
  "gomap_wf m \<Longrightarrow> (k, v) \<in> set m \<longleftrightarrow> map_of m k = Some v"
  by (simp add: gomap_wf_def)

lemma gomap_ex_iff:
  "gomap_wf m \<Longrightarrow> (\<exists>kv \<in> set m. P (snd kv)) \<longleftrightarrow> (\<exists>k v. map_of m k = Some v \<and> P v)"
  by (force simp: gomap_in_iff [symmetric])

lemma gomap_all_iff:
  "gomap_wf m \<Longrightarrow> (\<forall>kv \<in> set m. P (snd kv)) \<longleftrightarrow> (\<forall>k v. map_of m k = Some v \<longrightarrow> P v)"
  by (force simp: gomap_in_iff [symmetric])

lemma map_of_None_keys: "map_of m k = None \<longleftrightarrow> k \<notin> set (keys m)"
  by (simp add: map_of_eq_None_iff)

lemma map_of_Some_keys: "map_of m k = Some v \<Longrightarrow> k \<in> set (keys m)"
  by (force dest: map_of_SomeD)

lemma keys_map_of_Some: "k \<in> set (keys m) \<Longrightarrow> \<exists>v. map_of m k = Some v"
  by (metis map_of_None_keys not_None_eq)

text \<open>Replacing one value of an association list changes a count by one value's share.\<close>

lemma length_filter_update:
  "map_of m k = Some v \<Longrightarrow> P v \<Longrightarrow> \<not> P v' \<Longrightarrow>
   Suc (length (filter (\<lambda>kv. P (snd kv)) (AList.update k v' m)))
     = length (filter (\<lambda>kv. P (snd kv)) m)"
  by (induction m) (auto split: if_splits)

section \<open>The order of a range loop\<close>

type_synonym rng = "nat \<Rightarrow> string list \<Rightarrow> string list"

locale go_range =
  fixes rng :: rng
  assumes visits: "mset (rng n ks) = mset ks"
begin

lemma set_rng [simp]: "set (rng n ks) = set ks"
  by (metis visits set_mset_mset)

lemma distinct_rng [simp]: "distinct (rng n ks) = distinct ks"
  by (metis visits mset_eq_imp_distinct_iff)

lemma length_rng [simp]: "length (rng n ks) = length ks"
  by (metis visits mset_eq_length)

lemma shifted: "go_range (\<lambda>n. rng (f n))"
  by unfold_locales (simp add: visits)

end

text \<open>
  The runtime starts a range loop at an arbitrary offset and wraps around: one such
  order is the rotation by the number of the loop.
\<close>

lemma mset_rotate: "mset (rotate n xs) = mset xs"
  by (metis append_take_drop_id mset_append rotate_drop_take union_commute)

definition offset_order :: rng where
  "offset_order n ks = rotate n ks"

interpretation offset: go_range offset_order
  by unfold_locales (simp add: offset_order_def mset_rotate)

section \<open>Time\<close>

text \<open>
  \<^verbatim>\<open>time.Time\<close> is the number of nanoseconds since the epoch,
  \<^verbatim>\<open>time.Duration\<close> a number of nanoseconds, \<open>Unix\<close> the seconds since the epoch.
\<close>

definition Microsecond :: int where "Microsecond = 1000"
definition Millisecond :: int where "Millisecond = 1000000"
definition Second :: int where "Second = 1000000000"

definition Unix :: "int \<Rightarrow> int" where
  "Unix t = t div Second"

lemma Unix_mono: "s \<le> t \<Longrightarrow> Unix s \<le> Unix t"
  by (simp add: Unix_def Second_def zdiv_mono1)

lemma Unix_add_seconds: "Unix (t + k * Second) = Unix t + k"
  by (simp add: Unix_def Second_def)

end
