(* ===== verification/Domain_Status.thy ===== *)
theory Domain_Status
  imports Prelude "HOL-Library.Word"
begin

text \<open>
  The status automata of \<^verbatim>\<open>common/domain\<close>: \<^verbatim>\<open>task_status.go\<close>,
  \<^verbatim>\<open>workflow_status.go\<close> and the worker status of \<^verbatim>\<open>wokrer.go\<close>. The Go enums
  are byte constants; every value the program computes is one of the named constants, so
  each enum is a datatype, and the byte it is stored as is \<open>TaskStatus_byte\<close> (resp.
  \<open>WorkflowStatus_byte\<close>). The transition tables are the Boolean functions
  \<open>taskStatusesGraph\<close> and \<open>workflowStatusesGraph\<close>.
\<close>

section \<open>Task status\<close>

datatype TaskStatus =
    TaskPending
  | TaskReady
  | TaskDispatched
  | TaskRunning
  | TaskSucceeded
  | TaskFailed
  | TaskRetrying
  | TaskCancelled
  | TaskStatusUnknown

datatype transit_error = ErrTransitToSameStatus | ErrTransitNotAllowed

fun TaskStatus_byte :: "TaskStatus \<Rightarrow> 8 word" where
  "TaskStatus_byte TaskPending = 0"
| "TaskStatus_byte TaskReady = 1"
| "TaskStatus_byte TaskDispatched = 2"
| "TaskStatus_byte TaskRunning = 3"
| "TaskStatus_byte TaskSucceeded = 4"
| "TaskStatus_byte TaskFailed = 5"
| "TaskStatus_byte TaskRetrying = 6"
| "TaskStatus_byte TaskCancelled = 7"
| "TaskStatus_byte TaskStatusUnknown = 8"

fun taskStatusesGraph :: "TaskStatus \<Rightarrow> TaskStatus \<Rightarrow> bool" where
  "taskStatusesGraph TaskPending s = (s \<in> {TaskReady, TaskCancelled})"
| "taskStatusesGraph TaskReady s = (s \<in> {TaskDispatched, TaskCancelled})"
| "taskStatusesGraph TaskDispatched s =
     (s \<in> {TaskRunning, TaskSucceeded, TaskFailed, TaskCancelled, TaskReady})"
| "taskStatusesGraph TaskRunning s =
     (s \<in> {TaskSucceeded, TaskCancelled, TaskFailed, TaskReady})"
| "taskStatusesGraph TaskFailed s = (s = TaskRetrying)"
| "taskStatusesGraph TaskRetrying s = (s \<in> {TaskDispatched, TaskRunning})"
| "taskStatusesGraph TaskSucceeded s = False"
| "taskStatusesGraph TaskCancelled s = False"
| "taskStatusesGraph TaskStatusUnknown s = False"

definition TaskStatus_CanTransitTo :: "TaskStatus \<Rightarrow> TaskStatus \<Rightarrow> transit_error option" where
  "TaskStatus_CanTransitTo s newStatus =
     (if s = newStatus then Some ErrTransitToSameStatus
      else if \<not> taskStatusesGraph s newStatus then Some ErrTransitNotAllowed
      else None)"

definition TaskStatus_IsTerminated :: "TaskStatus \<Rightarrow> bool" where
  "TaskStatus_IsTerminated s \<longleftrightarrow> s = TaskSucceeded \<or> s = TaskFailed \<or> s = TaskCancelled"

fun TaskStatus_String :: "TaskStatus \<Rightarrow> string" where
  "TaskStatus_String TaskPending = ''PENDING''"
| "TaskStatus_String TaskReady = ''READY''"
| "TaskStatus_String TaskDispatched = ''DISPATCHED''"
| "TaskStatus_String TaskRunning = ''RUNNING''"
| "TaskStatus_String TaskSucceeded = ''SUCCEEDED''"
| "TaskStatus_String TaskFailed = ''FAILED''"
| "TaskStatus_String TaskRetrying = ''RETRYING''"
| "TaskStatus_String TaskCancelled = ''CANCELLED''"
| "TaskStatus_String TaskStatusUnknown = ''UNKNOWN''"

instantiation TaskStatus :: enum
begin

definition enum_TaskStatus :: "TaskStatus list" where
  "enum_TaskStatus = [TaskPending, TaskReady, TaskDispatched, TaskRunning, TaskSucceeded,
     TaskFailed, TaskRetrying, TaskCancelled, TaskStatusUnknown]"

definition enum_all_TaskStatus :: "(TaskStatus \<Rightarrow> bool) \<Rightarrow> bool" where
  "enum_all_TaskStatus P = list_all P enum_class.enum"

definition enum_ex_TaskStatus :: "(TaskStatus \<Rightarrow> bool) \<Rightarrow> bool" where
  "enum_ex_TaskStatus P = list_ex P enum_class.enum"

instance
proof
  have all: "s \<in> set enum_class.enum" for s :: TaskStatus
    by (cases s) (simp_all add: enum_TaskStatus_def)
  then show "(UNIV :: TaskStatus set) = set enum_class.enum" by blast
  show "distinct (enum_class.enum :: TaskStatus list)" by (simp add: enum_TaskStatus_def)
  show "enum_class.enum_all P = Ball UNIV P" for P :: "TaskStatus \<Rightarrow> bool"
    using all by (auto simp: enum_all_TaskStatus_def list_all_iff)
  show "enum_class.enum_ex P = Bex UNIV P" for P :: "TaskStatus \<Rightarrow> bool"
    using all by (auto simp: enum_ex_TaskStatus_def list_ex_iff)
qed

end

lemma TaskStatus_forall:
  "(\<forall>s. P s) \<longleftrightarrow> list_all P [TaskPending, TaskReady, TaskDispatched, TaskRunning,
     TaskSucceeded, TaskFailed, TaskRetrying, TaskCancelled, TaskStatusUnknown]"
  using enum_UNIV [where ?'a = TaskStatus] by (auto simp: enum_TaskStatus_def list_all_iff)

lemma TaskStatus_byte_inj: "TaskStatus_byte s = TaskStatus_byte t \<Longrightarrow> s = t"
  by (cases s; cases t) simp_all

lemma CanTransitTo_None_iff [status_simps]:
  "TaskStatus_CanTransitTo s t = None \<longleftrightarrow> taskStatusesGraph s t"
  by (cases s) (auto simp: TaskStatus_CanTransitTo_def)

lemma CanTransitTo_cases:
  "TaskStatus_CanTransitTo s t = None \<or>
   TaskStatus_CanTransitTo s t = Some ErrTransitToSameStatus \<and> s = t \<or>
   TaskStatus_CanTransitTo s t = Some ErrTransitNotAllowed \<and> s \<noteq> t \<and> \<not> taskStatusesGraph s t"
  by (simp add: TaskStatus_CanTransitTo_def)

text \<open>A run of accepted status changes.\<close>

inductive task_run :: "TaskStatus \<Rightarrow> TaskStatus list \<Rightarrow> TaskStatus \<Rightarrow> bool" where
  task_run_nil: "task_run s [] s"
| task_run_step: "TaskStatus_CanTransitTo s t = None \<Longrightarrow> task_run t ts u \<Longrightarrow> task_run s (t # ts) u"

inductive_cases task_run_ConsE: "task_run s (t # ts) u"

lemma task_run_append:
  "task_run s (xs @ ys) u \<Longrightarrow> \<exists>t. task_run s xs t \<and> task_run t ys u"
  by (induction xs arbitrary: s) (auto intro: task_run.intros elim!: task_run_ConsE)

lemma task_run_last: "task_run s ts u \<Longrightarrow> u = last (s # ts)"
  by (induction rule: task_run.induct) auto

text \<open>
  The only statuses a run cannot leave are SUCCEEDED, CANCELLED and the placeholder;
  FAILED can be left, but only for RETRYING.
\<close>

lemma no_exit_iff:
  "(\<forall>t. TaskStatus_CanTransitTo s t \<noteq> None) \<longleftrightarrow>
     s \<in> {TaskSucceeded, TaskCancelled, TaskStatusUnknown}"
  by (cases s) (auto simp: CanTransitTo_None_iff)

lemma absorbing_run:
  "task_run s ts u \<Longrightarrow> s \<in> {TaskSucceeded, TaskCancelled, TaskStatusUnknown} \<Longrightarrow>
   ts = [] \<and> u = s"
  by (cases rule: task_run.cases) (auto simp: CanTransitTo_None_iff)

text \<open>A task reaches SUCCEEDED only through DISPATCHED or RUNNING.\<close>

lemma task_run_to_succeeded:
  "task_run s ts u \<Longrightarrow> u = TaskSucceeded \<Longrightarrow>
     s \<in> {TaskSucceeded, TaskDispatched, TaskRunning} \<or> TaskDispatched \<in> set ts \<or> TaskRunning \<in> set ts"
proof (induction rule: task_run.induct)
  case (task_run_step s t ts u)
  then show ?case by (cases s; cases t) (auto simp: CanTransitTo_None_iff)
qed simp

section \<open>Workflow status\<close>

datatype WorkflowStatus =
  WorkflowPending | WorkflowRunning | WorkflowSucceeded | WorkflowFailed | WorkflowCancelled

fun WorkflowStatus_byte :: "WorkflowStatus \<Rightarrow> 8 word" where
  "WorkflowStatus_byte WorkflowPending = 0"
| "WorkflowStatus_byte WorkflowRunning = 1"
| "WorkflowStatus_byte WorkflowSucceeded = 2"
| "WorkflowStatus_byte WorkflowFailed = 3"
| "WorkflowStatus_byte WorkflowCancelled = 4"

fun workflowStatusesGraph :: "WorkflowStatus \<Rightarrow> WorkflowStatus \<Rightarrow> bool" where
  "workflowStatusesGraph WorkflowPending s = (s \<in> {WorkflowRunning, WorkflowCancelled})"
| "workflowStatusesGraph WorkflowRunning s =
     (s \<in> {WorkflowSucceeded, WorkflowFailed, WorkflowCancelled})"
| "workflowStatusesGraph WorkflowSucceeded s = False"
| "workflowStatusesGraph WorkflowFailed s = False"
| "workflowStatusesGraph WorkflowCancelled s = False"

definition WorkflowStatus_CanTransitTo ::
  "WorkflowStatus \<Rightarrow> WorkflowStatus \<Rightarrow> transit_error option" where
  "WorkflowStatus_CanTransitTo s newStatus =
     (if s = newStatus then Some ErrTransitToSameStatus
      else if \<not> workflowStatusesGraph s newStatus then Some ErrTransitNotAllowed
      else None)"

definition WorkflowStatus_IsTerminated :: "WorkflowStatus \<Rightarrow> bool" where
  "WorkflowStatus_IsTerminated s \<longleftrightarrow>
     s = WorkflowSucceeded \<or> s = WorkflowFailed \<or> s = WorkflowCancelled"

fun WorkflowStatus_String :: "WorkflowStatus \<Rightarrow> string" where
  "WorkflowStatus_String WorkflowPending = ''PENDING''"
| "WorkflowStatus_String WorkflowRunning = ''RUNNING''"
| "WorkflowStatus_String WorkflowSucceeded = ''SUCCEEDED''"
| "WorkflowStatus_String WorkflowFailed = ''FAILED''"
| "WorkflowStatus_String WorkflowCancelled = ''CANCELLED''"

lemma WorkflowStatus_CanTransitTo_None_iff [status_simps]:
  "WorkflowStatus_CanTransitTo s t = None \<longleftrightarrow> workflowStatusesGraph s t"
  by (cases s) (auto simp: WorkflowStatus_CanTransitTo_def)

section \<open>Worker status\<close>

datatype WorkerStatus = WorkerAlive | WorkerSuspect | WorkerDead

fun WorkerStatus_String :: "WorkerStatus \<Rightarrow> string" where
  "WorkerStatus_String WorkerAlive = ''ALIVE''"
| "WorkerStatus_String WorkerSuspect = ''SUSPECT''"
| "WorkerStatus_String WorkerDead = ''DEAD''"

section \<open>Status reports of a worker\<close>

text \<open>\<^verbatim>\<open>protogen.TaskReportStatus\<close>: the three named values and any other wire value.\<close>

datatype TaskReportStatus =
    TASK_REPORT_RUNNING
  | TASK_REPORT_SUCCEEDED
  | TASK_REPORT_FAILED
  | TaskReportStatus_other int

fun FromProtoTaskStatus :: "TaskReportStatus \<Rightarrow> TaskStatus" where
  "FromProtoTaskStatus TASK_REPORT_RUNNING = TaskRunning"
| "FromProtoTaskStatus TASK_REPORT_FAILED = TaskFailed"
| "FromProtoTaskStatus TASK_REPORT_SUCCEEDED = TaskSucceeded"
| "FromProtoTaskStatus (TaskReportStatus_other n) = TaskPending"

end
