(* ===== verification/Go_Num.thy ===== *)
theory Go_Num
  imports Prelude Complex_Main "HOL-Library.Signed_Division"
begin

text \<open>
  The number types of Go the program computes with: the signed integers \<^verbatim>\<open>int64\<close> and
  \<^verbatim>\<open>int32\<close> (an \<open>int\<close> reduced by \<open>int64\<close>, \<open>int32\<close> wherever the source can
  overflow), \<^verbatim>\<open>time.Duration\<close> arithmetic, and \<^verbatim>\<open>float64\<close> as the source uses it:
  conversions from integers, one division and comparisons, including the quotient by zero.
  Every magnitude that occurs lies between $2^{-63}$ and $2^{64}$, inside the range of normal
  doubles, so rounding to 53 significant bits (half to even) is the whole story.
\<close>

section \<open>Signed integers\<close>

definition int64 :: "int \<Rightarrow> int" where
  "int64 x = signed_take_bit 63 x"

definition int32 :: "int \<Rightarrow> int" where
  "int32 x = signed_take_bit 31 x"

lemma int64_id: "- (2 ^ 63) \<le> x \<Longrightarrow> x < 2 ^ 63 \<Longrightarrow> int64 x = x"
  by (simp add: int64_def signed_take_bit_int_eq_self)

lemma int64_bounds: "- (2 ^ 63) \<le> int64 x \<and> int64 x < 2 ^ 63"
  unfolding int64_def
  using signed_take_bit_int_greater_eq_minus_exp [of 63 x] signed_take_bit_int_less_exp [of 63 x]
  by simp

lemma int32_id: "- (2 ^ 31) \<le> x \<Longrightarrow> x < 2 ^ 31 \<Longrightarrow> int32 x = x"
  by (simp add: int32_def signed_take_bit_int_eq_self)

section \<open>Rounding to 53 bits\<close>

fun nat_bits :: "nat \<Rightarrow> nat" where
  "nat_bits n = (if n = 0 then 0 else Suc (nat_bits (n div 2)))"

declare nat_bits.simps [simp del]

lemma nat_bits_bounds: "0 < n \<Longrightarrow> 2 ^ (nat_bits n - 1) \<le> n \<and> n < 2 ^ nat_bits n"
proof (induction n rule: nat_bits.induct)
  case (1 n)
  show ?case
  proof (cases "n = 1")
    case True
    then show ?thesis by (simp add: nat_bits.simps)
  next
    case False
    with "1.prems" have pos: "0 < n div 2" by simp
    with "1.IH" "1.prems" have IH: "2 ^ (nat_bits (n div 2) - 1) \<le> n div 2"
      "n div 2 < 2 ^ nat_bits (n div 2)" by auto
    have bits: "nat_bits n = Suc (nat_bits (n div 2))"
      using "1.prems" by (simp add: nat_bits.simps [of n])
    have "nat_bits (n div 2) > 0" using pos by (simp add: nat_bits.simps [of "n div 2"])
    then have "2 ^ nat_bits (n div 2) = 2 * (2 :: nat) ^ (nat_bits (n div 2) - 1)"
      by (simp add: power_eq_if)
    with IH have "2 ^ nat_bits (n div 2) \<le> n" by linarith
    moreover from IH have "n < 2 * 2 ^ nat_bits (n div 2)" by linarith
    ultimately show ?thesis by (simp add: bits)
  qed
qed

text \<open>The exponent of the leading bit of a positive rational.\<close>

definition lead_exp :: "rat \<Rightarrow> int" where
  "lead_exp q = (case quotient_of q of (n, d) \<Rightarrow>
     let b = int (nat_bits (nat n)) - int (nat_bits (nat d))
     in if 2 powi b \<le> q then b else b - 1)"

definition round_even :: "rat \<Rightarrow> int" where
  "round_even x = (let f = \<lfloor>x\<rfloor>; r = x - of_int f in
     if r < 1 / 2 then f else if 1 / 2 < r then f + 1 else if even f then f else f + 1)"

definition f64 :: "rat \<Rightarrow> rat" where
  "f64 q = (if q = 0 then 0 else
     let e = lead_exp \<bar>q\<bar> - 52
     in sgn q * of_int (round_even (\<bar>q\<bar> / 2 powi e)) * 2 powi e)"

lemma round_even_of_int [simp]: "round_even (of_int n) = n"
  by (simp add: round_even_def Let_def)

lemma lead_exp_of_nat: "0 < n \<Longrightarrow> lead_exp (of_nat n) \<le> int (nat_bits n) - 1"
proof -
  assume "0 < n"
  have q: "quotient_of (of_nat n) = (int n, 1)"
    using quotient_of_int [of "int n"] by simp
  have one: "nat_bits 1 = 1" by (simp add: nat_bits.simps)
  show ?thesis unfolding lead_exp_def q by (simp add: Let_def one [simplified])
qed

lemma f64_of_int: "\<bar>n\<bar> < 2 ^ 53 \<Longrightarrow> f64 (of_int n) = of_int n"
proof (cases "n = 0")
  case True
  then show ?thesis by (simp add: f64_def)
next
  case False
  assume lt: "\<bar>n\<bar> < 2 ^ 53"
  define m where "m = nat \<bar>n\<bar>"
  define e where "e = lead_exp (of_nat m) - 52"
  have m: "0 < m" "m < 2 ^ 53" using False lt by (auto simp: m_def nat_less_iff)
  have "2 ^ (nat_bits m - 1) < (2::nat) ^ 53" using nat_bits_bounds [OF m(1)] m(2) by linarith
  then have "nat_bits m - 1 < 53" by (rule power_less_imp_less_exp [rotated]) simp
  then have "e \<le> 0" using lead_exp_of_nat [OF m(1)] unfolding e_def by linarith
  then obtain k where e: "e = - int k" by (metis nonpos_int_cases)
  have absn: "\<bar>of_int n :: rat\<bar> = of_nat m" by (simp add: m_def flip: of_int_abs)
  have scaled: "(of_nat m :: rat) / 2 powi e = of_int (int m * 2 ^ k)"
    by (simp add: e power_int_minus field_simps)
  have "f64 (of_int n) = sgn (of_int n) * of_int (int m * 2 ^ k) * 2 powi e"
    using False by (simp add: f64_def absn e_def [symmetric] Let_def scaled del: of_int_mult of_int_power)
  also have "\<dots> = sgn (of_int n) * of_nat m"
    by (simp add: e power_int_minus field_simps)
  also have "\<dots> = of_int n"
    by (simp add: absn [symmetric] sgn_mult_abs)
  finally show ?thesis .
qed

section \<open>Quotients, comparison\<close>

datatype f64val = Fin rat | PosInf | NegInf | NaN

definition f64_div :: "rat \<Rightarrow> rat \<Rightarrow> f64val" where
  "f64_div a b =
     (if b \<noteq> 0 then Fin (f64 (a / b))
      else if a = 0 then NaN else if 0 < a then PosInf else NegInf)"

fun f64_less :: "f64val \<Rightarrow> f64val \<Rightarrow> bool" where
  "f64_less (Fin a) (Fin b) = (a < b)"
| "f64_less (Fin a) PosInf = True"
| "f64_less NegInf (Fin b) = True"
| "f64_less NegInf PosInf = True"
| "f64_less _ _ = False"

fun f64_eq :: "f64val \<Rightarrow> f64val \<Rightarrow> bool" where
  "f64_eq NaN _ = False"
| "f64_eq _ NaN = False"
| "f64_eq x y = (x = y)"

section \<open>Durations in seconds\<close>

text \<open>\<^verbatim>\<open>Duration.Seconds\<close> and the conversion of its result to \<^verbatim>\<open>int64\<close>.\<close>

definition Duration_Seconds :: "int \<Rightarrow> rat" where
  "Duration_Seconds d =
     f64 (f64 (of_int (d sdiv Second)) + f64 (f64 (of_int (d smod Second)) / 1000000000))"

definition f64_to_int64 :: "rat \<Rightarrow> int" where
  "f64_to_int64 q = int64 (if 0 \<le> q then \<lfloor>q\<rfloor> else \<lceil>q\<rceil>)"

lemma whole_seconds:
  assumes "\<bar>s\<bar> < 2 ^ 53"
  shows "f64_to_int64 (Duration_Seconds (s * Second)) = s"
proof -
  have "(s * Second) sdiv Second = s"
    by (cases "s = 0") (simp_all add: signed_divide_int_def Second_def sgn_mult abs_mult sgn_mult_abs)
  moreover have "(s * Second) smod Second = 0"
    using calculation by (simp add: signed_modulo_int_def)
  ultimately have "Duration_Seconds (s * Second) = of_int s"
    by (simp add: Duration_Seconds_def f64_of_int [OF assms] f64_def [of 0])
  moreover have "int64 s = s" using assms by (intro int64_id) auto
  ultimately show ?thesis by (simp add: f64_to_int64_def)
qed

end
