(* ===== verification/Domain_Workflow.thy ===== *)
theory Domain_Workflow
  imports Domain_Status Go_Num
begin

text \<open>
  \<^verbatim>\<open>common/domain/task.go\<close> and \<^verbatim>\<open>common/domain/workflow.go\<close>: the task and workflow
  records, their status updates, and \<open>NewWorkflow\<close>, which indexes the submitted tasks by
  ID and by name, resolves dependency names to IDs and rejects cyclic graphs by a
  depth-first search with three colours.

  A task object is addressed by its ID: both \<^verbatim>\<open>tasksMapByID\<close> and \<^verbatim>\<open>taskMapByName\<close>
  hold pointers to the same objects, so the former is the store of tasks and the latter maps
  a name to the address of its task. \<^verbatim>\<open>uuid.NewString\<close> is the parameter \<open>uuid\<close>:
  \<open>uuid i\<close> is the value of the call made for the \<open>i\<close>-th task, and
  \<open>uuid (length tasks)\<close> the one made for the workflow.
\<close>

section \<open>Records\<close>

record TaskSpec =
  ts_Type :: string
  ts_Payload :: string

record TaskResult =
  tr_Status :: TaskStatus
  tr_ExitCode :: int
  tr_Stdout :: string
  tr_Stderr :: string
  tr_Error :: string
  tr_Duration :: int

record Task =
  t_ID :: string
  t_WorkflowID :: string
  t_Name :: string
  t_DependsOn :: "string list"
  t_Spec :: TaskSpec
  t_MaxRetries :: int
  t_RetryBackoff :: int
  t_Timeout :: int
  t_status :: TaskStatus
  t_AssignedTo :: string
  t_Attempt :: int
  t_result :: "TaskResult option"
  t_CreatedAt :: int
  t_UpdatedAt :: int

record Workflow =
  w_ID :: string
  w_TenantID :: string
  w_Name :: string
  w_Tasks :: "Task gomap"
  w_status :: WorkflowStatus
  w_CreatedAt :: int
  w_UpdatedAt :: int

section \<open>Task operations\<close>

definition Task_IsReady :: "Task \<Rightarrow> bool" where
  "Task_IsReady t \<longleftrightarrow> t_status t = TaskPending \<or> t_status t = TaskRetrying"

definition Task_IsFinished :: "Task \<Rightarrow> bool" where
  "Task_IsFinished t \<longleftrightarrow>
     t_status t = TaskSucceeded \<or> t_status t = TaskFailed \<or> t_status t = TaskCancelled"

definition Task_AllDepsSucceeded :: "Task \<Rightarrow> Workflow \<Rightarrow> bool" where
  "Task_AllDepsSucceeded t w =
     list_all (\<lambda>dep. case map_of (w_Tasks w) dep of
                 None \<Rightarrow> False
               | Some task \<Rightarrow> t_status task = TaskSucceeded) (t_DependsOn t)"

definition Task_UpdateStatus :: "Task \<Rightarrow> TaskStatus \<Rightarrow> transit_error + Task" where
  "Task_UpdateStatus t status =
     (case TaskStatus_CanTransitTo (t_status t) status of
        Some err \<Rightarrow> Inl err
      | None \<Rightarrow> Inr (t\<lparr>t_status := status\<rparr>))"

definition Task_GetResult :: "Task \<Rightarrow> TaskResult option" where
  "Task_GetResult t = t_result t"

definition Task_SetResult :: "Task \<Rightarrow> TaskResult \<Rightarrow> Task" where
  "Task_SetResult t r = t\<lparr>t_result := Some r\<rparr>"

section \<open>Workflow operations\<close>

definition Workflow_UpdateStatus :: "Workflow \<Rightarrow> WorkflowStatus \<Rightarrow> transit_error + Workflow" where
  "Workflow_UpdateStatus w status =
     (case WorkflowStatus_CanTransitTo (w_status w) status of
        Some err \<Rightarrow> Inl err
      | None \<Rightarrow> Inr (w\<lparr>w_status := status\<rparr>))"

definition Workflow_IsFinished :: "Workflow \<Rightarrow> bool" where
  "Workflow_IsFinished w \<longleftrightarrow>
     w_status w = WorkflowSucceeded \<or> w_status w = WorkflowFailed \<or> w_status w = WorkflowCancelled"

text \<open>Three range loops with an early return: their result does not depend on the order.\<close>

definition Workflow_AllTasksFinished :: "Workflow \<Rightarrow> bool" where
  "Workflow_AllTasksFinished w = list_all (\<lambda>kv. Task_IsFinished (snd kv)) (w_Tasks w)"

definition Workflow_HasFailedTask :: "Workflow \<Rightarrow> bool" where
  "Workflow_HasFailedTask w = list_ex (\<lambda>kv. t_status (snd kv) = TaskFailed) (w_Tasks w)"

definition Workflow_HasCancelledTask :: "Workflow \<Rightarrow> bool" where
  "Workflow_HasCancelledTask w = list_ex (\<lambda>kv. t_status (snd kv) = TaskCancelled) (w_Tasks w)"

section \<open>Cycle detection\<close>

datatype workflow_error =
    DuplicateTaskName string
  | DuplicateTaskID string
  | InvalidDependency string
  | CycleDetected string

datatype color = White | Gray | Black

datatype dfs_result =
  DfsOk "string \<Rightarrow> color" | DfsCycle string string | DfsPanic | DfsFuel

text \<open>
  \<open>hasCycle\<close> and its loop over the dependencies. The colours are the Go map threaded
  through all calls (an absent key is white); a task ID without a task is the nil
  dereference. Each nested call turns a white task grey, so one unit of fuel per task is
  enough (\<open>hasCycle_fuel\<close>).
\<close>

function (sequential) hasCycle ::
    "nat \<Rightarrow> Task gomap \<Rightarrow> string \<Rightarrow> (string \<Rightarrow> color) \<Rightarrow> dfs_result"
  and hasCycle_deps ::
    "nat \<Rightarrow> Task gomap \<Rightarrow> string \<Rightarrow> string list \<Rightarrow> (string \<Rightarrow> color) \<Rightarrow> dfs_result"
where
  "hasCycle 0 tasks taskID colors = DfsFuel"
| "hasCycle (Suc fuel) tasks taskID colors =
     (case map_of tasks taskID of
        None \<Rightarrow> DfsPanic
      | Some t \<Rightarrow>
          (case hasCycle_deps fuel tasks taskID (t_DependsOn t) (colors(taskID := Gray)) of
             DfsOk colors' \<Rightarrow> DfsOk (colors'(taskID := Black))
           | r \<Rightarrow> r))"
| "hasCycle_deps fuel tasks taskID [] colors = DfsOk colors"
| "hasCycle_deps fuel tasks taskID (task # ds) colors =
     (if colors task = Gray then DfsCycle taskID task
      else if colors task = White then
        (case hasCycle fuel tasks task colors of
           DfsOk colors' \<Rightarrow> hasCycle_deps fuel tasks taskID ds colors'
         | DfsCycle a b \<Rightarrow> DfsCycle taskID task
         | r \<Rightarrow> r)
      else hasCycle_deps fuel tasks taskID ds colors)"
  by pat_completeness auto
termination
  by (relation "measures
       [\<lambda>x. case x of Inl (f, _) \<Rightarrow> f | Inr (f, _) \<Rightarrow> f,
        \<lambda>x. case x of Inl _ \<Rightarrow> 0 | Inr (_, _, _, ds, _) \<Rightarrow> Suc (length ds)]") auto

fun validate_loop :: "Task gomap \<Rightarrow> string list \<Rightarrow> (workflow_error, unit) outcome" where
  "validate_loop tasks [] = Ok ()"
| "validate_loop tasks (k # ks) =
     (case map_of tasks k of
        None \<Rightarrow> validate_loop tasks ks
      | Some task \<Rightarrow>
          (case hasCycle (Suc (length tasks)) tasks (t_ID task) (\<lambda>_. White) of
             DfsOk _ \<Rightarrow> validate_loop tasks ks
           | DfsCycle _ _ \<Rightarrow> Err (CycleDetected (t_ID task))
           | DfsPanic \<Rightarrow> Panic
           | DfsFuel \<Rightarrow> OutOfFuel))"

definition validateTasksCycle :: "rng \<Rightarrow> Task gomap \<Rightarrow> (workflow_error, unit) outcome" where
  "validateTasksCycle rng tasks = validate_loop tasks (rng 1 (keys tasks))"

section \<open>Dependency resolution and construction\<close>

fun resolve_names :: "string gomap \<Rightarrow> string list \<Rightarrow> (workflow_error, string list) outcome" where
  "resolve_names tasksByName [] = Ok []"
| "resolve_names tasksByName (depName # ds) =
     (case map_of tasksByName depName of
        None \<Rightarrow> Err (InvalidDependency depName)
      | Some depTask \<Rightarrow>
          bindO (resolve_names tasksByName ds) (\<lambda>resolved. Ok (depTask # resolved)))"

fun resolve_loop ::
  "string gomap \<Rightarrow> string list \<Rightarrow> Task gomap \<Rightarrow> (workflow_error, Task gomap) outcome" where
  "resolve_loop tasksByName [] tasks = Ok tasks"
| "resolve_loop tasksByName (name # names) tasks =
     (case map_of tasksByName name of
        None \<Rightarrow> resolve_loop tasksByName names tasks
      | Some p \<Rightarrow>
          (case map_of tasks p of
             None \<Rightarrow> Panic
           | Some task \<Rightarrow>
               bindO (resolve_names tasksByName (t_DependsOn task))
                 (\<lambda>resolved. resolve_loop tasksByName names
                    (AList.update p (task\<lparr>t_DependsOn := resolved\<rparr>) tasks))))"

definition resolveDependencies ::
  "rng \<Rightarrow> string gomap \<Rightarrow> Task gomap \<Rightarrow> (workflow_error, Task gomap) outcome" where
  "resolveDependencies rng tasksByName tasks =
     resolve_loop tasksByName (rng 0 (keys tasksByName)) tasks"

definition assign_id :: "(nat \<Rightarrow> string) \<Rightarrow> nat \<Rightarrow> Task \<Rightarrow> Task" where
  "assign_id uuid i task = (if t_ID task = '''' then task\<lparr>t_ID := uuid i\<rparr> else task)"

fun index_tasks ::
  "(nat \<Rightarrow> string) \<Rightarrow> nat \<Rightarrow> Task list \<Rightarrow> string gomap \<Rightarrow> Task gomap \<Rightarrow>
   (workflow_error, string gomap \<times> Task gomap) outcome" where
  "index_tasks uuid i [] byName byID = Ok (byName, byID)"
| "index_tasks uuid i (t # ts) byName byID =
     (let task = assign_id uuid i t in
      if map_of byName (t_Name task) \<noteq> None then Err (DuplicateTaskName (t_Name task))
      else if map_of byID (t_ID task) \<noteq> None then Err (DuplicateTaskID (t_ID task))
      else index_tasks uuid (Suc i) ts
             (AList.update (t_Name task) (t_ID task) byName)
             (AList.update (t_ID task) task byID))"

definition init_task :: "int \<Rightarrow> string \<Rightarrow> Task \<Rightarrow> Task" where
  "init_task now wfID t = t\<lparr>
     t_WorkflowID := wfID,
     t_CreatedAt := now,
     t_UpdatedAt := now,
     t_Timeout := (if t_Timeout t = 0 then 30 * Second else t_Timeout t),
     t_RetryBackoff := (if t_RetryBackoff t = 0 then 200 * Millisecond else t_RetryBackoff t)\<rparr>"

definition NewWorkflow ::
  "rng \<Rightarrow> (nat \<Rightarrow> string) \<Rightarrow> int \<Rightarrow> string \<Rightarrow> string \<Rightarrow> Task list \<Rightarrow>
   (workflow_error, Workflow) outcome" where
  "NewWorkflow rng uuid now tenantID name tasks =
     bindO (index_tasks uuid 0 tasks [] []) (\<lambda>(byName, byID).
     bindO (resolveDependencies rng byName byID) (\<lambda>resolved.
     bindO (validateTasksCycle rng resolved) (\<lambda>_.
       let wfID = uuid (length tasks) in
       Ok \<lparr>w_ID = wfID, w_TenantID = tenantID, w_Name = name,
           w_Tasks = map (\<lambda>(k, t). (k, init_task now wfID t)) resolved,
           w_status = WorkflowPending, w_CreatedAt = now, w_UpdatedAt = now\<rparr>)))"

text \<open>The text of the error \<^verbatim>\<open>NewWorkflow\<close> returns, with the prefixes its wrappers add.\<close>

fun workflow_error_msg :: "workflow_error \<Rightarrow> string" where
  "workflow_error_msg (DuplicateTaskName n) = ''duplicate task name: '' @ n"
| "workflow_error_msg (DuplicateTaskID i) = ''duplicate task id: '' @ i"
| "workflow_error_msg (InvalidDependency d) = ''invalid tasks: invalid dependency: '' @ d"
| "workflow_error_msg (CycleDetected i) =
     ''tasks cycle failed: cycle detected in task: '' @ i"

end
