(* ===== verification/Domain_Graph.thy ===== *)
theory Domain_Graph
  imports Domain_Workflow
begin

text \<open>
  What \<open>NewWorkflow\<close> guarantees: the depth-first search reports a cycle exactly when the
  dependency relation has one, it never dereferences a missing task once the names are
  resolved, and construction succeeds exactly for uniquely named, uniquely identified tasks
  with known, acyclic dependencies, whatever order the range loops use.
\<close>

section \<open>The dependency relation\<close>

definition dep_rel :: "Task gomap \<Rightarrow> (string \<times> string) set" where
  "dep_rel tasks = {(a, b). \<exists>t. map_of tasks a = Some t \<and> b \<in> set (t_DependsOn t)}"

definition deps_closed :: "Task gomap \<Rightarrow> bool" where
  "deps_closed tasks \<longleftrightarrow> (\<forall>(a, b) \<in> dep_rel tasks. b \<in> set (keys tasks))"

lemma dep_relI: "map_of tasks a = Some t \<Longrightarrow> b \<in> set (t_DependsOn t) \<Longrightarrow> (a, b) \<in> dep_rel tasks"
  by (auto simp: dep_rel_def)

lemma deps_closedD:
  "deps_closed tasks \<Longrightarrow> map_of tasks a = Some t \<Longrightarrow> b \<in> set (t_DependsOn t) \<Longrightarrow> b \<in> set (keys tasks)"
  by (force simp: deps_closed_def dep_rel_def)

section \<open>The colours during the search\<close>

text \<open>A search that ends without an error leaves the grey tasks grey and blackens its root.\<close>

definition dfs_frame :: "(string \<Rightarrow> color) \<Rightarrow> (string \<Rightarrow> color) \<Rightarrow> bool" where
  "dfs_frame c c' \<longleftrightarrow> (\<forall>x. c' x = Gray \<longleftrightarrow> c x = Gray) \<and> (\<forall>x. c x = Black \<longrightarrow> c' x = Black)"

lemma dfs_frame_refl [simp]: "dfs_frame c c"
  by (simp add: dfs_frame_def)

lemma dfs_frame_trans: "dfs_frame c c' \<Longrightarrow> dfs_frame c' c'' \<Longrightarrow> dfs_frame c c''"
  by (simp add: dfs_frame_def)

lemma dfs_frame_root:
  "dfs_frame (c(x := Gray)) c' \<Longrightarrow> c x = White \<Longrightarrow> dfs_frame c (c'(x := Black))"
  by (auto simp: dfs_frame_def)

lemma dfs_frame_nonwhite: "dfs_frame c c' \<Longrightarrow> c x \<noteq> White \<Longrightarrow> c' x \<noteq> White"
  unfolding dfs_frame_def by (metis color.distinct color.exhaust)

lemma hasCycle_frame:
  "hasCycle f tasks i c = DfsOk c' \<Longrightarrow> c i = White \<Longrightarrow> dfs_frame c c' \<and> c' i = Black"
  "hasCycle_deps f tasks i ds c = DfsOk c' \<Longrightarrow> dfs_frame c c' \<and> (\<forall>d \<in> set ds. c' d = Black)"
proof (induction f tasks i c and f tasks i ds c arbitrary: c' and c'
       rule: hasCycle_hasCycle_deps.induct)
  case (2 fuel tasks i c)
  then obtain t c2 where t: "map_of tasks i = Some t"
    and c2: "hasCycle_deps fuel tasks i (t_DependsOn t) (c(i := Gray)) = DfsOk c2"
    and c': "c' = c2(i := Black)"
    by (auto split: option.splits dfs_result.splits)
  from "2.IH" [OF t c2] "2.prems"(2) show ?case
    unfolding c' using dfs_frame_root [of c i c2] by (metis fun_upd_same)
next
  case (4 fuel tasks i d ds c)
  show ?case
  proof (cases "c d = White")
    case True
    with "4.prems" obtain c2 where c2: "hasCycle fuel tasks d c = DfsOk c2"
      and rest: "hasCycle_deps fuel tasks i ds c2 = DfsOk c'"
      by (auto split: dfs_result.splits)
    from True have ng: "c d \<noteq> Gray" by simp
    from "4.IH"(1) [OF ng True c2 True] have f1: "dfs_frame c c2" "c2 d = Black" by auto
    from "4.IH"(2) [OF ng True c2 rest] have f2: "dfs_frame c2 c'" "\<forall>d \<in> set ds. c' d = Black" by auto
    from f1 f2 show ?thesis by (auto intro: dfs_frame_trans simp: dfs_frame_def)
  next
    case False
    with "4.prems" have ng: "c d \<noteq> Gray" and rest: "hasCycle_deps fuel tasks i ds c = DfsOk c'"
      by (auto split: if_splits)
    from "4.IH"(3) [OF ng False rest] False ng show ?thesis
      by (cases "c d") (auto simp: dfs_frame_def)
  qed
qed auto

section \<open>No error means no cycle\<close>

definition black_inv :: "(string \<times> string) set \<Rightarrow> (string \<Rightarrow> color) \<Rightarrow> bool" where
  "black_inv E c \<longleftrightarrow> (\<forall>x y. c x = Black \<longrightarrow> (x, y) \<in> E \<longrightarrow> c y = Black)
     \<and> (\<forall>x. c x = Black \<longrightarrow> (x, x) \<notin> E\<^sup>+)"

lemma black_inv_reach: "(x, y) \<in> E\<^sup>* \<Longrightarrow> black_inv E c \<Longrightarrow> c x = Black \<Longrightarrow> c y = Black"
  by (induction rule: rtrancl_induct) (auto simp: black_inv_def)

lemma black_inv_gray: "black_inv E c \<Longrightarrow> c x = White \<Longrightarrow> black_inv E (c(x := Gray))"
  unfolding black_inv_def by (metis color.distinct(3) color.distinct(5) fun_upd_apply)

lemma black_inv_close:
  assumes inv: "black_inv E c" and gray: "c x = Gray"
    and succ: "\<And>y. (x, y) \<in> E \<Longrightarrow> c y = Black"
  shows "black_inv E (c(x := Black))"
proof -
  have "(x, x) \<notin> E\<^sup>+"
  proof
    assume "(x, x) \<in> E\<^sup>+"
    then obtain y where "(x, y) \<in> E" "(y, x) \<in> E\<^sup>*" by (meson tranclD)
    then have "c x = Black" using black_inv_reach inv succ by blast
    with gray show False by simp
  qed
  with inv succ show ?thesis unfolding black_inv_def by auto
qed

lemma hasCycle_black:
  "hasCycle f tasks i c = DfsOk c' \<Longrightarrow> c i = White \<Longrightarrow> black_inv (dep_rel tasks) c \<Longrightarrow>
   black_inv (dep_rel tasks) c'"
  "hasCycle_deps f tasks i ds c = DfsOk c' \<Longrightarrow> black_inv (dep_rel tasks) c \<Longrightarrow>
   black_inv (dep_rel tasks) c'"
proof (induction f tasks i c and f tasks i ds c arbitrary: c' and c'
       rule: hasCycle_hasCycle_deps.induct)
  case (2 fuel tasks i c)
  then obtain t c2 where t: "map_of tasks i = Some t"
    and c2: "hasCycle_deps fuel tasks i (t_DependsOn t) (c(i := Gray)) = DfsOk c2"
    and c': "c' = c2(i := Black)"
    by (auto split: option.splits dfs_result.splits)
  have "black_inv (dep_rel tasks) c2"
    using "2.IH" [OF t c2] black_inv_gray "2.prems" by blast
  moreover from hasCycle_frame(2) [OF c2] have "c2 i = Gray" by (simp add: dfs_frame_def)
  moreover from hasCycle_frame(2) [OF c2] t have "(i, y) \<in> dep_rel tasks \<Longrightarrow> c2 y = Black" for y
    by (auto simp: dep_rel_def)
  ultimately show ?case unfolding c' by (rule black_inv_close)
next
  case (4 fuel tasks i d ds c)
  then show ?case
    by (cases "c d") (auto split: dfs_result.splits if_splits)
qed auto

section \<open>An error means a cycle\<close>

lemma hasCycle_cycle:
  "hasCycle f tasks i c = DfsCycle a b \<Longrightarrow> c i = White \<Longrightarrow>
     (\<forall>x. c x = Gray \<longrightarrow> (x, i) \<in> (dep_rel tasks)\<^sup>+) \<Longrightarrow> \<exists>x. (x, x) \<in> (dep_rel tasks)\<^sup>+"
  "hasCycle_deps f tasks i ds c = DfsCycle a b \<Longrightarrow>
     (\<forall>x. c x = Gray \<longrightarrow> (x, i) \<in> (dep_rel tasks)\<^sup>*) \<Longrightarrow> (\<forall>d \<in> set ds. (i, d) \<in> dep_rel tasks) \<Longrightarrow>
     \<exists>x. (x, x) \<in> (dep_rel tasks)\<^sup>+"
proof (induction f tasks i c and f tasks i ds c arbitrary: a b and a b
       rule: hasCycle_hasCycle_deps.induct)
  case (2 fuel tasks i c)
  then obtain t where t: "map_of tasks i = Some t"
    and err: "hasCycle_deps fuel tasks i (t_DependsOn t) (c(i := Gray)) = DfsCycle a b"
    by (auto split: option.splits dfs_result.splits)
  show ?case
  proof (rule "2.IH" [OF t err])
    show "\<forall>x. (c(i := Gray)) x = Gray \<longrightarrow> (x, i) \<in> (dep_rel tasks)\<^sup>*"
      using "2.prems"(3) by (auto intro: trancl_into_rtrancl)
    show "\<forall>d \<in> set (t_DependsOn t). (i, d) \<in> dep_rel tasks" using t by (auto intro: dep_relI)
  qed
next
  case (4 fuel tasks i d ds c)
  have edge: "(i, d) \<in> dep_rel tasks" and edges: "\<forall>d \<in> set ds. (i, d) \<in> dep_rel tasks"
    using "4.prems"(3) by auto
  consider "c d = Gray" | "c d = White" | "c d = Black" by (cases "c d") auto
  then show ?case
  proof cases
    case 1
    with "4.prems"(2) have "(d, i) \<in> (dep_rel tasks)\<^sup>*" by blast
    from this edge have "(d, d) \<in> (dep_rel tasks)\<^sup>+" by (rule rtrancl_into_trancl1)
    then show ?thesis by blast
  next
    case 2
    then have ng: "c d \<noteq> Gray" by simp
    show ?thesis
    proof (cases "hasCycle fuel tasks d c")
      case (DfsOk c2)
      then have rest: "hasCycle_deps fuel tasks i ds c2 = DfsCycle a b"
        using "4.prems"(1) 2 by simp
      have "dfs_frame c c2" using hasCycle_frame(1) [OF DfsOk 2] by simp
      then have "\<forall>x. c2 x = Gray \<longrightarrow> (x, i) \<in> (dep_rel tasks)\<^sup>*"
        using "4.prems"(2) by (simp add: dfs_frame_def)
      from "4.IH"(2) [OF ng 2 DfsOk rest this edges] show ?thesis .
    next
      case (DfsCycle x y)
      have "\<forall>x. c x = Gray \<longrightarrow> (x, d) \<in> (dep_rel tasks)\<^sup>+"
        using "4.prems"(2) edge by (blast intro: rtrancl_into_trancl1)
      from "4.IH"(1) [OF ng 2 DfsCycle 2 this] show ?thesis .
    qed (use "4.prems"(1) 2 in simp_all)
  next
    case 3
    then have "hasCycle_deps fuel tasks i ds c = DfsCycle a b" using "4.prems"(1) by simp
    from "4.IH"(3) [OF _ _ this "4.prems"(2) edges] 3 show ?thesis by simp
  qed
qed auto

section \<open>No panic, and fuel for every task\<close>

definition whites :: "Task gomap \<Rightarrow> (string \<Rightarrow> color) \<Rightarrow> nat" where
  "whites tasks c = card {k \<in> set (keys tasks). c k = White}"

lemma whites_gray:
  assumes "i \<in> set (keys tasks)" and "c i = White"
  shows "whites tasks c = Suc (whites tasks (c(i := Gray)))"
proof -
  let ?W = "{k \<in> set (keys tasks). c k = White}"
  have eq: "{k \<in> set (keys tasks). (c(i := Gray)) k = White} = ?W - {i}" by auto
  have "finite ?W" by simp
  moreover have "i \<in> ?W" using assms by simp
  ultimately have "card ?W = Suc (card (?W - {i}))" by (rule card.remove)
  then show ?thesis unfolding whites_def eq .
qed

lemma whites_frame: "dfs_frame c c' \<Longrightarrow> whites tasks c' \<le> whites tasks c"
  unfolding whites_def by (rule card_mono) (auto dest: dfs_frame_nonwhite)

lemma hasCycle_fuel:
  "deps_closed tasks \<Longrightarrow> i \<in> set (keys tasks) \<Longrightarrow> c i = White \<Longrightarrow> whites tasks c \<le> f \<Longrightarrow>
     hasCycle f tasks i c \<notin> {DfsFuel, DfsPanic}"
  "deps_closed tasks \<Longrightarrow> set ds \<subseteq> set (keys tasks) \<Longrightarrow> whites tasks c \<le> f \<Longrightarrow>
     hasCycle_deps f tasks i ds c \<notin> {DfsFuel, DfsPanic}"
proof (induction f tasks i c and f tasks i ds c rule: hasCycle_hasCycle_deps.induct)
  case (1 tasks i c)
  then show ?case using whites_gray [of i tasks c] by simp
next
  case (2 fuel tasks i c)
  obtain t where t: "map_of tasks i = Some t" using "2.prems"(2) keys_map_of_Some by blast
  have "set (t_DependsOn t) \<subseteq> set (keys tasks)" using "2.prems"(1) t deps_closedD by blast
  moreover have "whites tasks (c(i := Gray)) \<le> fuel" using "2.prems" whites_gray by fastforce
  ultimately have "hasCycle_deps fuel tasks i (t_DependsOn t) (c(i := Gray)) \<notin> {DfsFuel, DfsPanic}"
    using "2.IH" [OF t] "2.prems"(1) by blast
  with t show ?case by (auto split: dfs_result.splits)
next
  case (4 fuel tasks i d ds c)
  have sub: "d \<in> set (keys tasks)" "set ds \<subseteq> set (keys tasks)" using "4.prems"(2) by auto
  show ?case
  proof (cases "c d = White")
    case True
    then have ng: "c d \<noteq> Gray" by simp
    have ok: "hasCycle fuel tasks d c \<notin> {DfsFuel, DfsPanic}"
      using "4.IH"(1) [OF ng True] "4.prems" sub(1) True by blast
    show ?thesis
    proof (cases "hasCycle fuel tasks d c")
      case (DfsOk c2)
      have "whites tasks c2 \<le> fuel"
        using whites_frame [of c c2 tasks] hasCycle_frame(1) [OF DfsOk True] "4.prems"(3) by linarith
      from "4.IH"(2) [OF ng True DfsOk "4.prems"(1) sub(2) this] DfsOk True show ?thesis by simp
    qed (use ok True in auto)
  next
    case False
    with "4.IH"(3) "4.prems" sub show ?thesis by auto
  qed
qed auto

section \<open>The validation loop\<close>

lemma hasCycle_correct:
  assumes closed: "deps_closed tasks" and key: "i \<in> set (keys tasks)"
  shows "(\<exists>c. hasCycle (Suc (length tasks)) tasks i (\<lambda>_. White) = DfsOk c) \<and> (i, i) \<notin> (dep_rel tasks)\<^sup>+
     \<or> (\<exists>a b. hasCycle (Suc (length tasks)) tasks i (\<lambda>_. White) = DfsCycle a b)
       \<and> \<not> acyclic (dep_rel tasks)"
proof (cases "hasCycle (Suc (length tasks)) tasks i (\<lambda>_. White)")
  case (DfsOk c)
  have "black_inv (dep_rel tasks) c"
    using hasCycle_black(1) [OF DfsOk] by (simp add: black_inv_def)
  moreover have "c i = Black" using hasCycle_frame(1) [OF DfsOk] by simp
  ultimately show ?thesis using DfsOk by (simp add: black_inv_def)
next
  case (DfsCycle a b)
  then show ?thesis using hasCycle_cycle(1) [OF DfsCycle] by (auto simp: acyclic_def)
next
  case DfsPanic
  have "whites tasks (\<lambda>_. White) \<le> Suc (length tasks)"
    using card_length [of "keys tasks"] by (simp add: whites_def)
  from hasCycle_fuel(1) [OF closed key refl this] DfsPanic show ?thesis by blast
next
  case DfsFuel
  have "whites tasks (\<lambda>_. White) \<le> Suc (length tasks)"
    using card_length [of "keys tasks"] by (simp add: whites_def)
  from hasCycle_fuel(1) [OF closed key refl this] DfsFuel show ?thesis by blast
qed

definition ids_are_keys :: "Task gomap \<Rightarrow> bool" where
  "ids_are_keys tasks \<longleftrightarrow> (\<forall>k t. map_of tasks k = Some t \<longrightarrow> t_ID t = k)"

lemma validate_loop_correct:
  assumes closed: "deps_closed tasks" and ids: "ids_are_keys tasks"
    and sub: "set ks \<subseteq> set (keys tasks)"
  shows "validate_loop tasks ks = Ok () \<and> (\<forall>k \<in> set ks. (k, k) \<notin> (dep_rel tasks)\<^sup>+)
     \<or> (\<exists>k. validate_loop tasks ks = Err (CycleDetected k)) \<and> \<not> acyclic (dep_rel tasks)"
  using sub
proof (induction ks)
  case (Cons k ks)
  then obtain t where t: "map_of tasks k = Some t" using keys_map_of_Some [of k tasks] by auto
  with ids have "t_ID t = k" by (simp add: ids_are_keys_def)
  with Cons t hasCycle_correct [OF closed, of k] show ?case
    by (auto simp del: hasCycle.simps)
qed simp

lemma cycle_is_on_a_task: "(x, x) \<in> (dep_rel tasks)\<^sup>+ \<Longrightarrow> x \<in> set (keys tasks)"
  by (erule converse_tranclE) (auto simp: dep_rel_def dest: map_of_Some_keys)

lemma validateTasksCycle_correct:
  assumes "go_range rng" and "deps_closed tasks" and "ids_are_keys tasks"
  shows "validateTasksCycle rng tasks = Ok () \<and> acyclic (dep_rel tasks)
     \<or> (\<exists>k. validateTasksCycle rng tasks = Err (CycleDetected k)) \<and> \<not> acyclic (dep_rel tasks)"
  using validate_loop_correct [OF assms(2,3), of "rng 1 (keys tasks)"] cycle_is_on_a_task
  by (auto simp: validateTasksCycle_def go_range.set_rng [OF assms(1)] acyclic_def)

section \<open>Indexing the submitted tasks\<close>

fun assigned :: "(nat \<Rightarrow> string) \<Rightarrow> nat \<Rightarrow> Task list \<Rightarrow> Task list" where
  "assigned uuid i [] = []"
| "assigned uuid i (t # ts) = assign_id uuid i t # assigned uuid (Suc i) ts"

lemma assign_id_simps [simp]:
  "t_Name (assign_id uuid i t) = t_Name t"
  "t_DependsOn (assign_id uuid i t) = t_DependsOn t"
  "t_status (assign_id uuid i t) = t_status t"
  by (simp_all add: assign_id_def)

lemma assigned_fields [simp]:
  "map t_Name (assigned uuid i ts) = map t_Name ts"
  "map t_DependsOn (assigned uuid i ts) = map t_DependsOn ts"
  "map t_status (assigned uuid i ts) = map t_status ts"
  by (induction ts arbitrary: i) auto

lemma alist_update_fresh: "k \<notin> set (keys m) \<Longrightarrow> AList.update k v m = m @ [(k, v)]"
  by (induction m) auto

lemma alist_update_map:
  "gomap_wf m \<Longrightarrow> map_of m k = Some v0 \<Longrightarrow>
   AList.update k v m = map (\<lambda>(k', x). (k', if k' = k then v else x)) m"
proof (induction m)
  case (Cons kv m)
  obtain k0 x where kv: "kv = (k0, x)" by force
  show ?case
  proof (cases "k0 = k")
    case True
    then have "\<forall>(k', x) \<in> set m. k' \<noteq> k"
      using Cons.prems(1) by (auto simp: kv gomap_wf_def rev_image_eqI)
    then have "map (\<lambda>(k', x). (k', if k' = k then v else x)) m = m"
      by (induction m) auto
    with True show ?thesis by (simp add: kv)
  next
    case False
    with Cons show ?thesis by (simp add: kv gomap_wf_def)
  qed
qed simp

definition index_ok ::
  "(nat \<Rightarrow> string) \<Rightarrow> nat \<Rightarrow> Task list \<Rightarrow> string gomap \<Rightarrow> Task gomap \<Rightarrow> bool" where
  "index_ok uuid i ts byName byID \<longleftrightarrow>
     distinct (map t_Name ts) \<and> set (map t_Name ts) \<inter> set (keys byName) = {}
     \<and> distinct (map t_ID (assigned uuid i ts))
     \<and> set (map t_ID (assigned uuid i ts)) \<inter> set (keys byID) = {}"

lemma index_ok_Cons:
  assumes "t_Name t \<notin> set (keys byName)" "t_ID (assign_id uuid i t) \<notin> set (keys byID)"
  shows "index_ok uuid i (t # ts) byName byID \<longleftrightarrow>
     index_ok uuid (Suc i) ts (byName @ [(t_Name t, r)]) (byID @ [(t_ID (assign_id uuid i t), x)])"
  using assms by (auto simp: index_ok_def)

lemma index_tasks_Cons:
  assumes "t_Name t \<notin> set (keys byName)" "t_ID (assign_id uuid i t) \<notin> set (keys byID)"
  shows "index_tasks uuid i (t # ts) byName byID =
     index_tasks uuid (Suc i) ts (byName @ [(t_Name t, t_ID (assign_id uuid i t))])
       (byID @ [(t_ID (assign_id uuid i t), assign_id uuid i t)])"
  using assms map_of_None_keys [of byName "t_Name t"]
    map_of_None_keys [of byID "t_ID (assign_id uuid i t)"]
  by (simp add: Let_def alist_update_fresh)

lemma index_tasks_ok:
  "index_ok uuid i ts byName byID \<Longrightarrow> index_tasks uuid i ts byName byID =
     Ok (byName @ map (\<lambda>t. (t_Name t, t_ID t)) (assigned uuid i ts),
         byID @ map (\<lambda>t. (t_ID t, t)) (assigned uuid i ts))"
proof (induction ts arbitrary: i byName byID)
  case (Cons t ts)
  from Cons.prems have fresh: "t_Name t \<notin> set (keys byName)"
    "t_ID (assign_id uuid i t) \<notin> set (keys byID)" by (auto simp: index_ok_def)
  note ok = iffD1 [OF index_ok_Cons [OF fresh] Cons.prems]
  show ?case unfolding index_tasks_Cons [OF fresh] by (simp add: Cons.IH [OF ok])
qed simp

lemma index_tasks_err:
  "\<not> index_ok uuid i ts byName byID \<Longrightarrow> \<exists>e. index_tasks uuid i ts byName byID = Err e"
proof (induction ts arbitrary: i byName byID)
  case (Cons t ts)
  show ?case
  proof (cases "t_Name t \<in> set (keys byName) \<or> t_ID (assign_id uuid i t) \<in> set (keys byID)")
    case True
    then show ?thesis
      using map_of_None_keys [of byName "t_Name t"]
        map_of_None_keys [of byID "t_ID (assign_id uuid i t)"]
      by (auto simp: Let_def)
  next
    case False
    then have fresh: "t_Name t \<notin> set (keys byName)"
      "t_ID (assign_id uuid i t) \<notin> set (keys byID)" by auto
    show ?thesis unfolding index_tasks_Cons [OF fresh]
      by (rule Cons.IH) (use Cons.prems index_ok_Cons [OF fresh] in blast)
  qed
qed (simp add: index_ok_def)

section \<open>Resolving names\<close>

abbreviation ref_of :: "string gomap \<Rightarrow> string \<Rightarrow> string" where
  "ref_of byName n \<equiv> the (map_of byName n)"

definition resolved_task :: "string gomap \<Rightarrow> Task \<Rightarrow> Task" where
  "resolved_task byName t = t\<lparr>t_DependsOn := map (ref_of byName) (t_DependsOn t)\<rparr>"

lemma resolve_names_char:
  "set ds \<subseteq> set (keys byName) \<Longrightarrow> resolve_names byName ds = Ok (map (ref_of byName) ds)"
  "\<not> set ds \<subseteq> set (keys byName) \<Longrightarrow>
     \<exists>d \<in> set ds. d \<notin> set (keys byName) \<and> resolve_names byName ds = Err (InvalidDependency d)"
proof (induction ds)
  case (Cons d ds)
  { case 1
    then show ?case using Cons.IH(1) keys_map_of_Some [of d byName] by auto }
  { case 2
    show ?case
    proof (cases "map_of byName d")
      case None
      then show ?thesis using map_of_None_keys [of byName d] by simp
    next
      case (Some a)
      with 2 have "\<not> set ds \<subseteq> set (keys byName)" using map_of_Some_keys [OF Some] by simp
      from Cons.IH(2) [OF this] Some show ?thesis by auto
    qed }
qed simp_all

lemma resolve_loop_ok:
  assumes "distinct ns" "set ns \<subseteq> set (keys byName)" "inj_on (ref_of byName) (set (keys byName))"
    and "gomap_wf tasks" "\<forall>n \<in> set ns. ref_of byName n \<in> set (keys tasks)"
    and "\<forall>n \<in> set ns. \<forall>t. map_of tasks (ref_of byName n) = Some t \<longrightarrow>
           set (t_DependsOn t) \<subseteq> set (keys byName)"
  shows "resolve_loop byName ns tasks =
    Ok (map (\<lambda>(k, t). (k, if k \<in> ref_of byName ` set ns then resolved_task byName t else t)) tasks)"
  using assms
proof (induction ns arbitrary: tasks)
  case (Cons n ns)
  obtain p where p: "map_of byName n = Some p" using Cons.prems(2) keys_map_of_Some [of n byName] by auto
  then obtain t where t: "map_of tasks p = Some t"
    using Cons.prems(5) keys_map_of_Some [of p tasks] by auto
  have names: "resolve_names byName (t_DependsOn t) = Ok (map (ref_of byName) (t_DependsOn t))"
    using Cons.prems(6) p t by (intro resolve_names_char(1)) auto
  let ?tasks = "AList.update p (resolved_task byName t) tasks"
  have neq: "\<forall>n' \<in> set ns. ref_of byName n' \<noteq> p"
  proof
    fix n' assume n': "n' \<in> set ns"
    with Cons.prems(1) have "n' \<noteq> n" by auto
    with inj_onD [OF Cons.prems(3), of n' n] n' Cons.prems(2) p show "ref_of byName n' \<noteq> p" by auto
  qed
  have step: "resolve_loop byName (n # ns) tasks = resolve_loop byName ns ?tasks"
    using p t names by (simp add: resolved_task_def)
  have IH: "resolve_loop byName ns ?tasks =
    Ok (map (\<lambda>(k, t). (k, if k \<in> ref_of byName ` set ns then resolved_task byName t else t)) ?tasks)"
  proof (rule Cons.IH)
    show "distinct ns" "set ns \<subseteq> set (keys byName)" using Cons.prems(1,2) by auto
    show "gomap_wf ?tasks" using Cons.prems(4) by simp
    show "\<forall>n \<in> set ns. ref_of byName n \<in> set (keys ?tasks)"
      using Cons.prems(5) by (simp add: dom_update)
    show "\<forall>n' \<in> set ns. \<forall>t. map_of ?tasks (ref_of byName n') = Some t \<longrightarrow>
           set (t_DependsOn t) \<subseteq> set (keys byName)"
      using Cons.prems(6) neq by auto
  qed (use Cons.prems(3) in simp)
  have upd: "?tasks = map (\<lambda>(k', x). (k', if k' = p then resolved_task byName t else x)) tasks"
    using Cons.prems(4) t by (rule alist_update_map)
  have at_p: "(p, x) \<in> set tasks \<Longrightarrow> x = t" for x
    using Cons.prems(4) t by (simp add: gomap_in_iff)
  have "p \<notin> ref_of byName ` set ns" using neq by auto
  then have "map (\<lambda>(k, t). (k, if k \<in> ref_of byName ` set ns then resolved_task byName t else t)) ?tasks
    = map (\<lambda>(k, t). (k, if k \<in> ref_of byName ` set (n # ns) then resolved_task byName t else t)) tasks"
    unfolding upd using p at_p by auto
  with step IH show ?case by simp
qed simp

lemma resolve_loop_err:
  assumes "distinct ns" "set ns \<subseteq> set (keys byName)" "inj_on (ref_of byName) (set (keys byName))"
    and "\<forall>n \<in> set ns. ref_of byName n \<in> set (keys tasks)"
    and "n \<in> set ns" "map_of tasks (ref_of byName n) = Some t" "\<not> set (t_DependsOn t) \<subseteq> set (keys byName)"
  shows "\<exists>d. resolve_loop byName ns tasks = Err (InvalidDependency d) \<and> d \<notin> set (keys byName)"
  using assms
proof (induction ns arbitrary: tasks)
  case (Cons m ns)
  obtain p where p: "map_of byName m = Some p" using Cons.prems(2) keys_map_of_Some [of m byName] by auto
  then obtain u where u: "map_of tasks p = Some u"
    using Cons.prems(4) keys_map_of_Some [of p tasks] by auto
  show ?case
  proof (cases "set (t_DependsOn u) \<subseteq> set (keys byName)")
    case True
    with Cons.prems p u have nm: "n \<noteq> m" by auto
    then have n: "n \<in> set ns" using Cons.prems(5) by simp
    have neq: "ref_of byName n \<noteq> p"
      using inj_onD [OF Cons.prems(3), of n m] nm n Cons.prems(2) p by auto
    let ?tasks = "AList.update p (u\<lparr>t_DependsOn := map (ref_of byName) (t_DependsOn u)\<rparr>) tasks"
    have "\<exists>d. resolve_loop byName ns ?tasks = Err (InvalidDependency d) \<and> d \<notin> set (keys byName)"
      by (rule Cons.IH) (use Cons.prems n neq in \<open>auto simp: dom_update\<close>)
    then show ?thesis using p u resolve_names_char(1) [OF True] by simp
  next
    case False
    with resolve_names_char(2) [OF False] p u show ?thesis by auto
  qed
qed simp

section \<open>Construction\<close>

text \<open>
  What a client may submit: pairwise different names, pairwise different IDs (given or
  generated), dependencies that name submitted tasks, and no dependency cycle.
\<close>

definition name_rel :: "Task list \<Rightarrow> (string \<times> string) set" where
  "name_rel tasks = {(n, d). \<exists>t \<in> set tasks. n = t_Name t \<and> d \<in> set (t_DependsOn t)}"

definition valid_submission :: "(nat \<Rightarrow> string) \<Rightarrow> Task list \<Rightarrow> bool" where
  "valid_submission uuid tasks \<longleftrightarrow>
     distinct (map t_Name tasks) \<and> distinct (map t_ID (assigned uuid 0 tasks))
     \<and> (\<forall>(n, d) \<in> name_rel tasks. d \<in> set (map t_Name tasks))
     \<and> acyclic (name_rel tasks)"

definition name_index :: "Task list \<Rightarrow> string gomap" where
  "name_index A = map (\<lambda>t. (t_Name t, t_ID t)) A"

definition resolved_tasks :: "Task list \<Rightarrow> Task gomap" where
  "resolved_tasks A = map (\<lambda>t. (t_ID t, resolved_task (name_index A) t)) A"

text \<open>The workflow a valid submission yields.\<close>

definition built_workflow ::
  "(nat \<Rightarrow> string) \<Rightarrow> int \<Rightarrow> string \<Rightarrow> string \<Rightarrow> Task list \<Rightarrow> Workflow" where
  "built_workflow uuid now tenantID name tasks =
     \<lparr>w_ID = uuid (length tasks), w_TenantID = tenantID, w_Name = name,
      w_Tasks = map (\<lambda>(k, t). (k, init_task now (uuid (length tasks)) t))
                  (resolved_tasks (assigned uuid 0 tasks)),
      w_status = WorkflowPending, w_CreatedAt = now, w_UpdatedAt = now\<rparr>"

lemma acyclic_image:
  assumes inj: "inj_on f (Field r)"
  shows "acyclic (map_prod f f ` r) \<longleftrightarrow> acyclic r"
proof -
  have fwd: "(x, y) \<in> r\<^sup>+ \<Longrightarrow> (f x, f y) \<in> (map_prod f f ` r)\<^sup>+" for x y
    by (induction rule: trancl_induct) (auto intro: trancl_into_trancl)
  have bwd: "(u, v) \<in> (map_prod f f ` r)\<^sup>+ \<Longrightarrow> \<exists>x y. u = f x \<and> v = f y \<and> (x, y) \<in> r\<^sup>+" for u v
  proof (induction rule: trancl_induct)
    case (step v w)
    then obtain x y where xy: "u = f x" "v = f y" "(x, y) \<in> r\<^sup>+" by blast
    from step.hyps(2) obtain y' z where z: "v = f y'" "w = f z" "(y', z) \<in> r" by auto
    have "y \<in> Field r" using xy(3) by (metis FieldI2 tranclE)
    moreover have "y' \<in> Field r" using z(3) by (rule FieldI1)
    ultimately have "y = y'" using inj xy(2) z(1) by (metis inj_onD)
    with xy z show ?case by (blast intro: trancl_into_trancl)
  qed auto
  show ?thesis
  proof
    assume "acyclic (map_prod f f ` r)"
    then show "acyclic r" using fwd unfolding acyclic_def by blast
  next
    assume ac: "acyclic r"
    show "acyclic (map_prod f f ` r)"
      unfolding acyclic_def
    proof
      fix u show "(u, u) \<notin> (map_prod f f ` r)\<^sup>+"
      proof
        assume "(u, u) \<in> (map_prod f f ` r)\<^sup>+"
        then obtain x y where xy: "u = f x" "u = f y" "(x, y) \<in> r\<^sup>+" using bwd by blast
        have "x \<in> Field r" "y \<in> Field r" using xy(3) by (metis FieldI1 FieldI2 tranclD tranclE)+
        with inj xy have "x = y" by (metis inj_onD)
        with xy ac show False by (auto simp: acyclic_def)
      qed
    qed
  qed
qed

lemma name_rel_Cons:
  "name_rel (t # ts) = {t_Name t} \<times> set (t_DependsOn t) \<union> name_rel ts"
  by (auto simp: name_rel_def)

lemma name_rel_assigned [simp]: "name_rel (assigned uuid i ts) = name_rel ts"
  by (induction ts arbitrary: i) (simp_all add: name_rel_Cons)

lemma keys_name_index [simp]: "map fst (name_index A) = map t_Name A"
  by (simp add: name_index_def)

lemma keys_resolved_tasks [simp]: "map fst (resolved_tasks A) = map t_ID A"
  by (simp add: resolved_tasks_def)

text \<open>Facts about tasks with distinct names and IDs, collected once.\<close>

lemma map_of_map_key:
  "distinct (map f xs) \<Longrightarrow> x \<in> set xs \<Longrightarrow> map_of (map (\<lambda>x. (f x, g x)) xs) (f x) = Some (g x)"
  by (rule map_of_is_SomeI) (auto simp: comp_def)

lemma name_index_at:
  "distinct (map t_Name A) \<Longrightarrow> t \<in> set A \<Longrightarrow> map_of (name_index A) (t_Name t) = Some (t_ID t)"
  unfolding name_index_def by (rule map_of_map_key)

lemma resolved_at:
  "distinct (map t_ID A) \<Longrightarrow> t \<in> set A \<Longrightarrow>
   map_of (resolved_tasks A) (t_ID t) = Some (resolved_task (name_index A) t)"
  unfolding resolved_tasks_def by (rule map_of_map_key)

lemma name_index_inj:
  assumes "distinct (map t_Name A)" "distinct (map t_ID A)"
  shows "inj_on (ref_of (name_index A)) (set (map t_Name A))"
proof (rule inj_onI)
  fix m n assume "m \<in> set (map t_Name A)" "n \<in> set (map t_Name A)"
    and eq: "ref_of (name_index A) m = ref_of (name_index A) n"
  then obtain s t where st: "s \<in> set A" "t \<in> set A" "m = t_Name s" "n = t_Name t" by auto
  with eq have "t_ID s = t_ID t" using name_index_at [OF assms(1)] by simp
  with assms(2) st show "m = n" by (metis distinct_map inj_onD)
qed

lemma resolve_known:
  assumes rng: "go_range rng" and names: "distinct (map t_Name A)" and ids: "distinct (map t_ID A)"
    and known: "\<forall>(n, d) \<in> name_rel A. d \<in> set (map t_Name A)"
  shows "resolveDependencies rng (name_index A) (map (\<lambda>t. (t_ID t, t)) A) = Ok (resolved_tasks A)"
proof -
  let ?N = "name_index A" and ?T = "map (\<lambda>t. (t_ID t, t)) A"
  let ?ns = "rng 0 (map t_Name A)"
  have ns: "set ?ns = set (map t_Name A)" "distinct ?ns"
    using go_range.set_rng [OF rng] go_range.distinct_rng [OF rng] names by simp_all
  have ref: "ref_of ?N ` set ?ns = set (map t_ID A)"
    using name_index_at [OF names] unfolding ns(1) by (force simp: image_image)
  have "resolve_loop ?N ?ns ?T =
    Ok (map (\<lambda>(k, t). (k, if k \<in> ref_of ?N ` set ?ns then resolved_task ?N t else t)) ?T)"
  proof (rule resolve_loop_ok)
    show "inj_on (ref_of ?N) (set (keys ?N))" using name_index_inj [OF names ids] by simp
    show "gomap_wf ?T" using ids by (simp add: gomap_wf_def comp_def)
    show "\<forall>n \<in> set ?ns. ref_of ?N n \<in> set (keys ?T)" using name_index_at [OF names] by (auto simp: ns)
    show "\<forall>n \<in> set ?ns. \<forall>t. map_of ?T (ref_of ?N n) = Some t \<longrightarrow> set (t_DependsOn t) \<subseteq> set (keys ?N)"
      using known by (fastforce dest: map_of_SomeD simp: name_rel_def)
  qed (use ns in simp_all)
  then show ?thesis unfolding resolveDependencies_def keys_name_index ref resolved_tasks_def by simp
qed

lemma resolve_unknown:
  assumes rng: "go_range rng" and names: "distinct (map t_Name A)" and ids: "distinct (map t_ID A)"
    and unknown: "(n, d) \<in> name_rel A" "d \<notin> set (map t_Name A)"
  shows "\<exists>e. resolveDependencies rng (name_index A) (map (\<lambda>t. (t_ID t, t)) A) = Err e"
proof -
  let ?N = "name_index A" and ?T = "map (\<lambda>t. (t_ID t, t)) A"
  let ?ns = "rng 0 (map t_Name A)"
  have ns: "set ?ns = set (map t_Name A)" "distinct ?ns"
    using go_range.set_rng [OF rng] go_range.distinct_rng [OF rng] names by simp_all
  from unknown(1) obtain t where t: "t \<in> set A" "n = t_Name t" "d \<in> set (t_DependsOn t)"
    by (auto simp: name_rel_def)
  have "\<exists>d. resolve_loop ?N ?ns ?T = Err (InvalidDependency d) \<and> d \<notin> set (keys ?N)"
  proof (rule resolve_loop_err)
    show "inj_on (ref_of ?N) (set (keys ?N))" using name_index_inj [OF names ids] by simp
    show "\<forall>n \<in> set ?ns. ref_of ?N n \<in> set (keys ?T)" using name_index_at [OF names] by (auto simp: ns)
    show "map_of ?T (ref_of ?N n) = Some t"
      using map_of_map_key [OF ids t(1), of "\<lambda>t. t"] name_index_at [OF names t(1)] t(2) by simp
    show "\<not> set (t_DependsOn t) \<subseteq> set (keys ?N)" using unknown(2) t(3) by auto
  qed (use ns t in simp_all)
  then show ?thesis unfolding resolveDependencies_def keys_name_index by blast
qed

lemma dep_rel_resolved:
  assumes names: "distinct (map t_Name A)" and ids: "distinct (map t_ID A)"
  shows "dep_rel (resolved_tasks A) =
    map_prod (ref_of (name_index A)) (ref_of (name_index A)) ` name_rel A" (is "_ = ?R")
proof (intro set_eqI iffI)
  fix e assume "e \<in> dep_rel (resolved_tasks A)"
  then obtain a b r where e: "e = (a, b)" and r: "map_of (resolved_tasks A) a = Some r"
    and b: "b \<in> set (t_DependsOn r)" by (auto simp: dep_rel_def)
  from map_of_SomeD [OF r] obtain t where t: "t \<in> set A" "a = t_ID t" "r = resolved_task (name_index A) t"
    by (auto simp: resolved_tasks_def)
  with b obtain d where d: "d \<in> set (t_DependsOn t)" "b = ref_of (name_index A) d"
    by (auto simp: resolved_task_def)
  have "(t_Name t, d) \<in> name_rel A" using t d by (auto simp: name_rel_def)
  moreover have "e = map_prod (ref_of (name_index A)) (ref_of (name_index A)) (t_Name t, d)"
    using name_index_at [OF names t(1)] e t d by simp
  ultimately show "e \<in> ?R" by blast
next
  fix e assume "e \<in> ?R"
  then obtain t d where t: "t \<in> set A" "d \<in> set (t_DependsOn t)"
    and e: "e = (ref_of (name_index A) (t_Name t), ref_of (name_index A) d)"
    by (auto simp: name_rel_def)
  with name_index_at [OF names t(1)] resolved_at [OF ids t(1)] show "e \<in> dep_rel (resolved_tasks A)"
    by (auto simp: dep_rel_def resolved_task_def)
qed

lemma resolved_acyclic_iff:
  assumes "distinct (map t_Name A)" "distinct (map t_ID A)"
    and known: "\<forall>(n, d) \<in> name_rel A. d \<in> set (map t_Name A)"
  shows "acyclic (dep_rel (resolved_tasks A)) \<longleftrightarrow> acyclic (name_rel A)"
  unfolding dep_rel_resolved [OF assms(1,2)]
proof (rule acyclic_image)
  have "Field (name_rel A) \<subseteq> set (map t_Name A)"
    using known by (auto simp: Field_def name_rel_def)
  with name_index_inj [OF assms(1,2)] show "inj_on (ref_of (name_index A)) (Field (name_rel A))"
    by (rule inj_on_subset)
qed

lemma resolved_closed:
  assumes "distinct (map t_Name A)" "distinct (map t_ID A)"
    and known: "\<forall>(n, d) \<in> name_rel A. d \<in> set (map t_Name A)"
  shows "deps_closed (resolved_tasks A)" "ids_are_keys (resolved_tasks A)"
proof -
  have "b \<in> set (map t_ID A)" if "(a, b) \<in> dep_rel (resolved_tasks A)" for a b
  proof -
    from that obtain n d where nd: "(n, d) \<in> name_rel A" "b = ref_of (name_index A) d"
      unfolding dep_rel_resolved [OF assms(1,2)] by auto
    with known obtain t where "t \<in> set A" "d = t_Name t" by auto
    with nd name_index_at [OF assms(1)] show ?thesis by simp
  qed
  then show "deps_closed (resolved_tasks A)" unfolding deps_closed_def keys_resolved_tasks by blast
  show "ids_are_keys (resolved_tasks A)"
    unfolding ids_are_keys_def by (auto simp: resolved_tasks_def resolved_task_def dest!: map_of_SomeD)
qed

lemma NewWorkflow_valid:
  assumes rng: "go_range rng" and valid: "valid_submission uuid tasks"
  shows "NewWorkflow rng uuid now tenantID name tasks =
    Ok (built_workflow uuid now tenantID name tasks)"
proof -
  let ?A = "assigned uuid 0 tasks"
  have A: "distinct (map t_Name ?A)" "distinct (map t_ID ?A)"
    "\<forall>(n, d) \<in> name_rel ?A. d \<in> set (map t_Name ?A)" "acyclic (name_rel ?A)"
    using valid by (simp_all add: valid_submission_def del: set_map)
  have "index_tasks uuid 0 tasks [] [] = Ok (name_index ?A, map (\<lambda>t. (t_ID t, t)) ?A)"
    using A by (simp add: index_tasks_ok index_ok_def name_index_def)
  moreover note resolve_known [OF rng A(1-3)]
  moreover have "validateTasksCycle rng (resolved_tasks ?A) = Ok ()"
    using validateTasksCycle_correct [OF rng resolved_closed [OF A(1-3)]]
      resolved_acyclic_iff [OF A(1-3)] A(4) by blast
  ultimately show ?thesis by (simp add: NewWorkflow_def built_workflow_def Let_def)
qed

lemma NewWorkflow_invalid:
  assumes rng: "go_range rng" and invalid: "\<not> valid_submission uuid tasks"
  shows "\<exists>e. NewWorkflow rng uuid now tenantID name tasks = Err e"
proof (cases "index_ok uuid 0 tasks [] []")
  case False
  then obtain e where "index_tasks uuid 0 tasks [] [] = Err e" using index_tasks_err by blast
  then show ?thesis by (simp add: NewWorkflow_def)
next
  case True
  let ?A = "assigned uuid 0 tasks"
  have A: "distinct (map t_Name ?A)" "distinct (map t_ID ?A)" using True by (simp_all add: index_ok_def)
  have idx: "index_tasks uuid 0 tasks [] [] = Ok (name_index ?A, map (\<lambda>t. (t_ID t, t)) ?A)"
    using True by (simp add: index_tasks_ok name_index_def)
  show ?thesis
  proof (cases "\<forall>(n, d) \<in> name_rel ?A. d \<in> set (map t_Name ?A)")
    case False
    then obtain n d where "(n, d) \<in> name_rel ?A" "d \<notin> set (map t_Name ?A)" by blast
    from resolve_unknown [OF rng A this] idx show ?thesis by (auto simp: NewWorkflow_def)
  next
    case known: True
    then have "\<not> acyclic (name_rel ?A)"
      using invalid A by (auto simp: valid_submission_def simp del: set_map)
    then obtain k where "validateTasksCycle rng (resolved_tasks ?A) = Err (CycleDetected k)"
      using validateTasksCycle_correct [OF rng resolved_closed [OF A known]]
        resolved_acyclic_iff [OF A known] by blast
    then show ?thesis using idx resolve_known [OF rng A known] by (simp add: NewWorkflow_def)
  qed
qed

section \<open>The static invariant of a workflow\<close>

definition wf_static :: "Workflow \<Rightarrow> bool" where
  "wf_static w \<longleftrightarrow> gomap_wf (w_Tasks w) \<and> ids_are_keys (w_Tasks w)
     \<and> (\<forall>k t. map_of (w_Tasks w) k = Some t \<longrightarrow> t_WorkflowID t = w_ID w)
     \<and> deps_closed (w_Tasks w) \<and> acyclic (dep_rel (w_Tasks w))"

lemma map_of_map_snd: "map_of (map (\<lambda>(k, t). (k, f t)) m) k = map_option f (map_of m k)"
  by (induction m) auto

lemma keys_map_snd: "map fst (map (\<lambda>(k, t). (k, f t)) m) = map fst m"
  by (simp add: case_prod_beta comp_def)

lemma dep_rel_map:
  "(\<And>t. t_DependsOn (f t) = t_DependsOn t) \<Longrightarrow> dep_rel (map (\<lambda>(k, t). (k, f t)) m) = dep_rel m"
  by (auto simp: dep_rel_def map_of_map_snd)

lemma init_task_simps [simp]:
  "t_ID (init_task now i t) = t_ID t" "t_DependsOn (init_task now i t) = t_DependsOn t"
  "t_WorkflowID (init_task now i t) = i" "t_status (init_task now i t) = t_status t"
  by (simp_all add: init_task_def)

lemma built_workflow_static:
  assumes "valid_submission uuid tasks"
  shows "wf_static (built_workflow uuid now tenantID name tasks)"
proof -
  let ?A = "assigned uuid 0 tasks"
  have A: "distinct (map t_Name ?A)" "distinct (map t_ID ?A)"
    "\<forall>(n, d) \<in> name_rel ?A. d \<in> set (map t_Name ?A)" "acyclic (name_rel ?A)"
    using assms by (simp_all add: valid_submission_def del: set_map)
  have closed: "deps_closed (resolved_tasks ?A)" "ids_are_keys (resolved_tasks ?A)"
    using resolved_closed [OF A(1-3)] .
  have ac: "acyclic (dep_rel (resolved_tasks ?A))" using resolved_acyclic_iff [OF A(1-3)] A(4) by blast
  have wf: "gomap_wf (resolved_tasks ?A)" using A(2) unfolding gomap_wf_def keys_resolved_tasks .
  let ?T = "w_Tasks (built_workflow uuid now tenantID name tasks)"
  have T: "?T = map (\<lambda>(k, t). (k, init_task now (uuid (length tasks)) t)) (resolved_tasks ?A)"
    by (simp add: built_workflow_def)
  have "gomap_wf ?T" using wf unfolding T gomap_wf_def keys_map_snd .
  moreover have "ids_are_keys ?T" using closed(2) unfolding T ids_are_keys_def map_of_map_snd by auto
  moreover have "deps_closed ?T \<and> acyclic (dep_rel ?T)"
    using closed(1) ac unfolding T deps_closed_def keys_map_snd by (simp add: dep_rel_map)
  moreover have "t_WorkflowID t = uuid (length tasks)" if "map_of ?T k = Some t" for k t
    using that unfolding T map_of_map_snd by auto
  ultimately show ?thesis unfolding wf_static_def by (simp add: built_workflow_def)
qed

section \<open>Properties\<close>

text \<open>
  C6. \<open>NewWorkflow\<close> accepts a submission exactly when task names are pairwise different,
  task IDs (given or generated) are pairwise different, every dependency names a submitted
  task and the dependencies have no cycle; the accepted workflow is the same for every order
  the range loops may use, every other submission is refused with an error, and no submission
  makes the construction panic or run forever.
\<close>

theorem NewWorkflow_correct:
  assumes "go_range rng"
  shows "if valid_submission uuid tasks
         then NewWorkflow rng uuid now tenantID name tasks
                = Ok (built_workflow uuid now tenantID name tasks)
         else (\<exists>e. NewWorkflow rng uuid now tenantID name tasks = Err e)"
  using NewWorkflow_valid [OF assms] NewWorkflow_invalid [OF assms] by simp

definition example_task :: "string \<Rightarrow> string list \<Rightarrow> Task" where
  "example_task n deps = \<lparr>t_ID = '''', t_WorkflowID = '''', t_Name = n, t_DependsOn = deps,
     t_Spec = \<lparr>ts_Type = ''shell'', ts_Payload = ''{}''\<rparr>, t_MaxRetries = 0, t_RetryBackoff = 0,
     t_Timeout = 0, t_status = TaskPending, t_AssignedTo = '''', t_Attempt = 0, t_result = None,
     t_CreatedAt = 0, t_UpdatedAt = 0\<rparr>"

definition example_uuid :: "nat \<Rightarrow> string" where
  "example_uuid n = replicate (Suc n) (CHR ''u'')"

theorem NewWorkflow_correct_witness:
  "go_range offset_order \<and>
   (\<exists>e. NewWorkflow offset_order example_uuid 5 ''admin'' ''w''
          [example_task ''a'' [''b''], example_task ''b'' [''a'']] = Err e)"
proof -
  have a: "(''a'', ''b'') \<in> name_rel [example_task ''a'' [''b''], example_task ''b'' [''a'']]"
    and b: "(''b'', ''a'') \<in> name_rel [example_task ''a'' [''b''], example_task ''b'' [''a'']]"
    by (simp_all add: name_rel_def example_task_def)
  from a b have "(''a'', ''a'') \<in> (name_rel [example_task ''a'' [''b''], example_task ''b'' [''a'']])\<^sup>+"
    by (rule trancl_into_trancl [OF r_into_trancl])
  then have "\<not> valid_submission example_uuid [example_task ''a'' [''b''], example_task ''b'' [''a'']]"
    by (auto simp: valid_submission_def acyclic_def)
  with NewWorkflow_correct [OF offset.go_range_axioms, of example_uuid
      "[example_task ''a'' [''b''], example_task ''b'' [''a'']]" 5 "''admin''" "''w''"]
  show ?thesis using offset.go_range_axioms by simp
qed

text \<open>
  C34. A workflow that \<open>NewWorkflow\<close> returns is well formed: its task map has distinct keys,
  each task is stored under its own ID and carries the workflow's ID, every dependency is the
  ID of a task of the workflow, and the dependency graph is acyclic.
\<close>

theorem NewWorkflow_static:
  assumes "go_range rng" and "NewWorkflow rng uuid now tenantID name tasks = Ok w"
  shows "wf_static w \<and> w_status w = WorkflowPending \<and> length (w_Tasks w) = length tasks"
proof -
  have valid: "valid_submission uuid tasks"
    using NewWorkflow_invalid [OF assms(1)] assms(2) by (metis outcome.distinct(1))
  then have w: "w = built_workflow uuid now tenantID name tasks"
    using NewWorkflow_valid [OF assms(1)] assms(2) by simp
  have "length (assigned uuid 0 tasks) = length tasks"
    by (metis assigned_fields(1) length_map)
  then show ?thesis
    using built_workflow_static [OF valid] by (simp add: w built_workflow_def resolved_tasks_def)
qed

theorem NewWorkflow_static_witness:
  "\<exists>w. NewWorkflow offset_order example_uuid 5 ''admin'' ''w''
         [example_task ''a'' [], example_task ''b'' [''a'']] = Ok w
     \<and> wf_static w \<and> length (w_Tasks w) = 2"
proof -
  have nw: "NewWorkflow offset_order example_uuid 5 ''admin'' ''w''
      [example_task ''a'' [], example_task ''b'' [''a'']] =
    Ok (built_workflow example_uuid 5 ''admin'' ''w'' [example_task ''a'' [], example_task ''b'' [''a'']])"
    by code_simp
  from NewWorkflow_static [OF offset.go_range_axioms nw] nw show ?thesis by simp
qed

text \<open>
  C33. Cycle detection returns: on every task map whose dependencies are its own tasks, however
  cyclic, the depth-first search started at a task never nests more calls than there are
  tasks, follows no dangling dependency, and ends with a verdict; so validation terminates for
  every order of its loop.
\<close>

theorem hasCycle_returns:
  assumes "deps_closed tasks" and "i \<in> set (keys tasks)" and "length tasks \<le> fuel"
  shows "case hasCycle fuel tasks i (\<lambda>_. White) of DfsOk c \<Rightarrow> c i = Black | DfsCycle a b \<Rightarrow> True | DfsPanic \<Rightarrow> False | DfsFuel \<Rightarrow> False"
proof -
  have "whites tasks (\<lambda>_. White) \<le> fuel" using card_length [of "keys tasks"] assms(3) by (simp add: whites_def)
  from hasCycle_fuel(1) [OF assms(1,2) refl this] show ?thesis
    by (auto split: dfs_result.split dest: hasCycle_frame(1))
qed

definition cyclic_tasks :: "Task gomap" where
  "cyclic_tasks = [(''a'', (example_task ''a'' [''b''])\<lparr>t_ID := ''a''\<rparr>), (''b'', (example_task ''b'' [''a''])\<lparr>t_ID := ''b''\<rparr>)]"

theorem hasCycle_returns_witness:
  "case hasCycle 2 cyclic_tasks ''a'' (\<lambda>_. White) of DfsOk c \<Rightarrow> c ''a'' = Black | DfsCycle a b \<Rightarrow> True | DfsPanic \<Rightarrow> False | DfsFuel \<Rightarrow> False"
proof (rule hasCycle_returns)
  show "deps_closed cyclic_tasks"
    by (auto simp: deps_closed_def dep_rel_def cyclic_tasks_def example_task_def split: if_splits)
qed (simp_all add: cyclic_tasks_def)

end
