(* ===== verification/Cp_Events.thy ===== *)
theory Cp_Events
  imports Domain_Workflow
begin

text \<open>
  \<^verbatim>\<open>infrastructure/control-plane/events\<close>: the two events of the control plane and the
  message each becomes on a workflow event stream.
\<close>

datatype Event =
    TaskStatusChangedEvent
      (tev_WorkflowID: string) (tev_TaskID: string) (tev_Status: TaskStatus) (tev_Timestamp: int)
  | WorkflowStatusChangedEvent
      (wev_WorkflowID: string) (wev_Status: WorkflowStatus) (wev_Timestamp: int)

definition TaskStatusChanged :: string where
  "TaskStatusChanged = ''task.status_changed''"

definition WorkflowStatusChanged :: string where
  "WorkflowStatusChanged = ''workflow.status_changed''"

fun Event_GetType :: "Event \<Rightarrow> string" where
  "Event_GetType (TaskStatusChangedEvent _ _ _ _) = TaskStatusChanged"
| "Event_GetType (WorkflowStatusChangedEvent _ _ _) = WorkflowStatusChanged"

text \<open>\<^verbatim>\<open>protogen.WorkflowEvent\<close>; a field the source does not set has its zero value.\<close>

record WorkflowEvent =
  we_WorkflowId :: string
  we_TaskId :: string
  we_EventType :: string
  we_Status :: string
  we_Timestamp :: int

fun Event_ToProto :: "Event \<Rightarrow> WorkflowEvent" where
  "Event_ToProto (TaskStatusChangedEvent w t s ts) =
     \<lparr>we_WorkflowId = w, we_TaskId = t, we_EventType = '''', we_Status = TaskStatus_String s,
      we_Timestamp = ts\<rparr>"
| "Event_ToProto (WorkflowStatusChangedEvent w s ts) =
     \<lparr>we_WorkflowId = w, we_TaskId = '''', we_EventType = '''', we_Status = WorkflowStatus_String s,
      we_Timestamp = ts\<rparr>"

end
