(* ===== verification/Event_Bus.thy ===== *)
theory Event_Bus
  imports Prelude "HOL-Library.Sublist"
begin

text \<open>
  \<^verbatim>\<open>pkg/event_bus\<close>: a bus with a bounded channel, a dispatcher goroutine that copies each
  event to the queue of every subscriber, and one goroutine per subscriber that runs its
  handler. Subscriber objects live in \<open>b_objs\<close> and are addressed by their index, because a
  goroutine keeps its subscriber after the object has left the slice \<open>b_subscribers\<close>.
  \<open>b_running\<close> holds the subscribers whose goroutine has not returned (the wait group).
  A buffered channel is a list and its capacity; a closed signal channel is a Boolean.

  The public methods are functions; an iteration of a goroutine is one step of
  \<open>bus_step\<close>, so every interleaving of methods and goroutines is a run.
\<close>

section \<open>State and methods\<close>

definition subscriber_queue_cap :: nat where
  "subscriber_queue_cap = 128"

record ('e, 'h) Subscriber =
  sub_id :: string
  sub_handler :: 'h
  sub_queue :: "'e list"
  sub_close :: bool

definition NewSubscriber :: "string \<Rightarrow> 'h \<Rightarrow> ('e, 'h) Subscriber" where
  "NewSubscriber i handler = \<lparr>sub_id = i, sub_handler = handler, sub_queue = [], sub_close = False\<rparr>"

record ('e, 'h) Bus =
  b_objs :: "('e, 'h) Subscriber list"
  b_subscribers :: "nat list"
  b_running :: "nat list"
  b_capacity :: nat
  b_ch :: "'e list"
  b_done :: bool
  b_stopped :: bool
  b_dispatching :: bool

datatype bus_error = BusStopped

definition NewBus :: "int \<Rightarrow> (bus_error, ('e, 'h) Bus) outcome" where
  "NewBus capacity =
     (let c = (if capacity = 0 then 128 else capacity) in
      if c < 0 then Panic
      else Ok \<lparr>b_objs = [], b_subscribers = [], b_running = [], b_capacity = nat c, b_ch = [],
               b_done = False, b_stopped = False, b_dispatching = True\<rparr>)"

text \<open>The loop that \<^verbatim>\<open>Subscribe\<close> and \<^verbatim>\<open>Unsubscribe\<close> share: close and drop the first match.\<close>

fun drop_subscriber ::
  "('e, 'h) Subscriber list \<Rightarrow> string \<Rightarrow> nat list \<Rightarrow> ('e, 'h) Subscriber list \<times> nat list" where
  "drop_subscriber objs i [] = (objs, [])"
| "drop_subscriber objs i (a # as) =
     (if sub_id (objs ! a) = i then (objs[a := (objs ! a)\<lparr>sub_close := True\<rparr>], as)
      else (let (objs', as') = drop_subscriber objs i as in (objs', a # as')))"

definition Bus_Subscribe ::
  "string \<Rightarrow> 'h \<Rightarrow> ('e, 'h) Bus \<Rightarrow> bus_error option \<times> ('e, 'h) Bus" where
  "Bus_Subscribe i handler b =
     (if b_stopped b then (Some BusStopped, b)
      else (let (objs, subs) = drop_subscriber (b_objs b) i (b_subscribers b); a = length objs
            in (None, b\<lparr>b_objs := objs @ [NewSubscriber i handler],
                        b_subscribers := subs @ [a],
                        b_running := b_running b @ [a]\<rparr>)))"

definition Bus_Unsubscribe :: "string \<Rightarrow> ('e, 'h) Bus \<Rightarrow> ('e, 'h) Bus" where
  "Bus_Unsubscribe i b =
     (let (objs, subs) = drop_subscriber (b_objs b) i (b_subscribers b)
      in b\<lparr>b_objs := objs, b_subscribers := subs\<rparr>)"

definition Bus_Publish :: "'e \<Rightarrow> ('e, 'h) Bus \<Rightarrow> ('e, 'h) Bus" where
  "Bus_Publish event b =
     (if b_stopped b then b
      else if length (b_ch b) < b_capacity b then b\<lparr>b_ch := b_ch b @ [event]\<rparr>
      else b)"

text \<open>
  \<^verbatim>\<open>Shutdown\<close> up to its wait: it returns once \<open>b_running\<close> is empty
  (\<open>Bus_Shutdown_returns\<close>).
\<close>

definition Bus_Shutdown :: "('e, 'h) Bus \<Rightarrow> ('e, 'h) Bus" where
  "Bus_Shutdown b = (if b_stopped b then b else b\<lparr>b_stopped := True, b_done := True\<rparr>)"

definition Bus_Shutdown_returns :: "('e, 'h) Bus \<Rightarrow> bool" where
  "Bus_Shutdown_returns b \<longleftrightarrow> b_running b = []"

section \<open>Goroutines\<close>

definition offer :: "'e \<Rightarrow> nat \<Rightarrow> ('e, 'h) Subscriber list \<Rightarrow> ('e, 'h) Subscriber list" where
  "offer event a objs =
     (if length (sub_queue (objs ! a)) < subscriber_queue_cap
      then objs[a := (objs ! a)\<lparr>sub_queue := sub_queue (objs ! a) @ [event]\<rparr>]
      else objs)"

definition Bus_dispatch_event :: "('e, 'h) Bus \<Rightarrow> ('e, 'h) Bus" where
  "Bus_dispatch_event b =
     (case b_ch b of
        [] \<Rightarrow> b
      | event # rest \<Rightarrow>
          b\<lparr>b_ch := rest, b_objs := fold (offer event) (b_subscribers b) (b_objs b)\<rparr>)"

definition Bus_handle :: "nat \<Rightarrow> ('e, 'h) Bus \<Rightarrow> (('h \<times> 'e) option \<times> ('e, 'h) Bus)" where
  "Bus_handle a b =
     (case sub_queue (b_objs b ! a) of
        [] \<Rightarrow> (None, b)
      | e # rest \<Rightarrow> (Some (sub_handler (b_objs b ! a), e),
          b\<lparr>b_objs := (b_objs b)[a := (b_objs b ! a)\<lparr>sub_queue := rest\<rparr>]\<rparr>))"

text \<open>
  The history that the delivery theorem speaks about: the events accepted by the channel,
  the events dispatched, and per subscriber the events its handler has been called with.
\<close>

record 'e BusHistory =
  h_accepted :: "'e list"
  h_dispatched :: "'e list"
  h_handled :: "nat \<Rightarrow> 'e list"

definition empty_history :: "'e BusHistory" where
  "empty_history = \<lparr>h_accepted = [], h_dispatched = [], h_handled = (\<lambda>_. [])\<rparr>"

definition accepts :: "('e, 'h) Bus \<Rightarrow> bool" where
  "accepts b \<longleftrightarrow> \<not> b_stopped b \<and> length (b_ch b) < b_capacity b"

inductive bus_step ::
  "('e, 'h) Bus \<times> 'e BusHistory \<Rightarrow> ('e, 'h) Bus \<times> 'e BusHistory \<Rightarrow> bool" where
  step_subscribe: "bus_step (b, h) (snd (Bus_Subscribe i handler b), h)"
| step_unsubscribe: "bus_step (b, h) (Bus_Unsubscribe i b, h)"
| step_publish: "bus_step (b, h) (Bus_Publish e b,
     h\<lparr>h_accepted := h_accepted h @ (if accepts b then [e] else [])\<rparr>)"
| step_shutdown: "bus_step (b, h) (Bus_Shutdown b, h)"
| step_dispatch: "b_dispatching b \<Longrightarrow> b_ch b = e # rest \<Longrightarrow>
     bus_step (b, h) (Bus_dispatch_event b, h\<lparr>h_dispatched := h_dispatched h @ [e]\<rparr>)"
| step_dispatch_return: "b_dispatching b \<Longrightarrow> b_done b \<Longrightarrow>
     bus_step (b, h) (b\<lparr>b_dispatching := False\<rparr>, h)"
| step_handle: "a \<in> set (b_running b) \<Longrightarrow> Bus_handle a b = (Some (f, e), b') \<Longrightarrow>
     bus_step (b, h) (b', h\<lparr>h_handled := (h_handled h)(a := h_handled h a @ [e])\<rparr>)"
| step_return: "a \<in> set (b_running b) \<Longrightarrow> sub_close (b_objs b ! a) \<or> b_done b \<Longrightarrow>
     bus_step (b, h) (b\<lparr>b_running := remove1 a (b_running b)\<rparr>, h)"

inductive bus_reachable :: "('e, 'h) Bus \<times> 'e BusHistory \<Rightarrow> bool" where
  bus_start: "NewBus capacity = Ok b \<Longrightarrow> bus_reachable (b, empty_history)"
| bus_next: "bus_reachable s \<Longrightarrow> bus_step s s' \<Longrightarrow> bus_reachable s'"

section \<open>Lemmas on the subscriber slice\<close>

lemma nth_upd: "xs[i := y] ! j = (if i = j \<and> i < length xs then y else xs ! j)"
  by (metis list_update_beyond not_less nth_list_update_eq nth_list_update_neq)

lemma map_upd_same: "f y = f (xs ! i) \<Longrightarrow> map f (xs[i := y]) = map f xs"
  by (cases "i < length xs") (metis list_update_id map_update, simp add: list_update_beyond)

lemma drop_objs:
  "length (fst (drop_subscriber objs i as)) = length objs"
  "map sub_id (fst (drop_subscriber objs i as)) = map sub_id objs"
  "map sub_queue (fst (drop_subscriber objs i as)) = map sub_queue objs"
  by (induction as) (simp_all add: case_prod_beta map_upd_same)

lemma drop_obj_field:
  assumes "a < length objs"
  shows "sub_id (fst (drop_subscriber objs i as) ! a) = sub_id (objs ! a)"
    "sub_queue (fst (drop_subscriber objs i as) ! a) = sub_queue (objs ! a)"
  using assms drop_objs [of objs i as] by (metis length_map nth_map)+

lemma drop_subs_subset: "set (snd (drop_subscriber objs i as)) \<subseteq> set as"
  by (induction as) (auto simp: case_prod_beta)

lemma drop_subs_distinct: "distinct as \<Longrightarrow> distinct (snd (drop_subscriber objs i as))"
  using drop_subs_subset by (induction as) (fastforce simp: case_prod_beta)+

lemma drop_subs_filter:
  "distinct (map (\<lambda>a. sub_id (objs ! a)) as) \<Longrightarrow>
   snd (drop_subscriber objs i as) = filter (\<lambda>a. sub_id (objs ! a) \<noteq> i) as"
  by (induction as) (auto simp: case_prod_beta image_iff filter_id_conv intro!: filter_True [symmetric])

lemma drop_obj_other: "a \<notin> set as \<Longrightarrow> fst (drop_subscriber objs i as) ! a = objs ! a"
  by (induction as) (auto simp: case_prod_beta)

lemma drop_obj_kept:
  "distinct as \<Longrightarrow> a \<in> set (snd (drop_subscriber objs i as)) \<Longrightarrow>
   fst (drop_subscriber objs i as) ! a = objs ! a"
proof (induction as)
  case (Cons x as)
  show ?case
  proof (cases "sub_id (objs ! x) = i")
    case True
    with Cons.prems show ?thesis by (auto simp: nth_upd)
  next
    case False
    with Cons show ?thesis
      using drop_obj_other [of x as objs i] by (auto simp: case_prod_beta)
  qed
qed simp

lemma offer_length [simp]: "length (offer e a objs) = length objs"
  by (simp add: offer_def)

lemma fold_offer_length [simp]: "length (fold (offer e) as objs) = length objs"
  by (induction as arbitrary: objs) auto

lemma fold_offer_other: "a \<notin> set as \<Longrightarrow> fold (offer e) as objs ! a = objs ! a"
  by (induction as arbitrary: objs) (auto simp: offer_def)

text \<open>What one dispatched event does to each subscriber of the slice.\<close>

lemma fold_offer_listed:
  "distinct as \<Longrightarrow> a \<in> set as \<Longrightarrow> a < length objs \<Longrightarrow>
   fold (offer e) as objs ! a =
     (if length (sub_queue (objs ! a)) < subscriber_queue_cap
      then (objs ! a)\<lparr>sub_queue := sub_queue (objs ! a) @ [e]\<rparr> else objs ! a)"
proof (induction as arbitrary: objs)
  case (Cons x as)
  show ?case
  proof (cases "a = x")
    case True
    with Cons.prems have "a \<notin> set as" by simp
    then have "fold (offer e) (x # as) objs ! a = offer e x objs ! a" by (simp add: fold_offer_other)
    also have "\<dots> = (if length (sub_queue (objs ! a)) < subscriber_queue_cap
      then (objs ! a)\<lparr>sub_queue := sub_queue (objs ! a) @ [e]\<rparr> else objs ! a)"
      using True Cons.prems(3) by (simp add: offer_def)
    finally show ?thesis .
  next
    case False
    then have "offer e x objs ! a = objs ! a" by (simp add: offer_def)
    with False Cons.prems Cons.IH [of "offer e x objs"] show ?thesis by simp
  qed
qed simp

lemma fold_offer_queue:
  assumes "distinct as" "a < length objs"
  shows "sub_queue (fold (offer e) as objs ! a) = sub_queue (objs ! a)
       \<or> sub_queue (fold (offer e) as objs ! a) = sub_queue (objs ! a) @ [e]
         \<and> length (sub_queue (objs ! a)) < subscriber_queue_cap"
proof (cases "a \<in> set as")
  case True
  from fold_offer_listed [OF assms(1) True assms(2), of e] show ?thesis by simp
qed (simp add: fold_offer_other)

lemma offer_fields:
  "sub_id (offer e x objs ! a) = sub_id (objs ! a)"
  "sub_close (offer e x objs ! a) = sub_close (objs ! a)"
  by (simp_all add: offer_def nth_upd)

lemma fold_offer_fields:
  "sub_id (fold (offer e) as objs ! a) = sub_id (objs ! a)"
  "sub_close (fold (offer e) as objs ! a) = sub_close (objs ! a)"
  by (induction as arbitrary: objs) (simp_all add: offer_fields)

section \<open>The bus invariant\<close>

definition slice_ok :: "('e, 'h) Bus \<Rightarrow> bool" where
  "slice_ok b \<longleftrightarrow> distinct (b_subscribers b) \<and> (\<forall>a \<in> set (b_subscribers b). a < length (b_objs b))
     \<and> distinct (map (\<lambda>a. sub_id (b_objs b ! a)) (b_subscribers b))
     \<and> (\<forall>a \<in> set (b_subscribers b). \<not> sub_close (b_objs b ! a))"

definition goroutines_ok :: "('e, 'h) Bus \<Rightarrow> bool" where
  "goroutines_ok b \<longleftrightarrow> distinct (b_running b) \<and> (\<forall>a \<in> set (b_running b). a < length (b_objs b))
     \<and> (\<not> b_done b \<longrightarrow> set (b_subscribers b) \<subseteq> set (b_running b)) \<and> b_stopped b = b_done b"

definition bounds_ok :: "('e, 'h) Bus \<Rightarrow> bool" where
  "bounds_ok b \<longleftrightarrow> length (b_ch b) \<le> b_capacity b
     \<and> (\<forall>a < length (b_objs b). length (sub_queue (b_objs b ! a)) \<le> subscriber_queue_cap)"

definition delivery_ok :: "('e, 'h) Bus \<times> 'e BusHistory \<Rightarrow> bool" where
  "delivery_ok s \<longleftrightarrow> (case s of (b, h) \<Rightarrow> h_accepted h = h_dispatched h @ b_ch b
     \<and> (\<forall>a < length (b_objs b).
          subseq (h_handled h a @ sub_queue (b_objs b ! a)) (h_dispatched h))
     \<and> (\<forall>a \<ge> length (b_objs b). h_handled h a = []))"

definition bus_inv :: "('e, 'h) Bus \<times> 'e BusHistory \<Rightarrow> bool" where
  "bus_inv s \<longleftrightarrow> slice_ok (fst s) \<and> goroutines_ok (fst s) \<and> bounds_ok (fst s) \<and> delivery_ok s"

lemmas bus_inv_defs = bus_inv_def slice_ok_def goroutines_ok_def bounds_ok_def delivery_ok_def

lemma NewBus_inv: "NewBus capacity = Ok b \<Longrightarrow> bus_inv (b, empty_history)"
  by (auto simp: NewBus_def bus_inv_defs empty_history_def Let_def split: if_splits)

text \<open>What the loop of \<^verbatim>\<open>Subscribe\<close> and \<^verbatim>\<open>Unsubscribe\<close> leaves behind.\<close>

lemma drop_slice:
  assumes ok: "slice_ok b" and d: "drop_subscriber (b_objs b) i (b_subscribers b) = (objs, subs)"
  shows "length objs = length (b_objs b)"
    and "\<And>a. a < length (b_objs b) \<Longrightarrow> sub_queue (objs ! a) = sub_queue (b_objs b ! a)"
    and "distinct subs" and "set subs \<subseteq> set (b_subscribers b)"
    and "distinct (map (\<lambda>a. sub_id (objs ! a)) subs)"
    and "\<And>a. a \<in> set subs \<Longrightarrow> \<not> sub_close (objs ! a) \<and> sub_id (objs ! a) \<noteq> i"
proof -
  show "length objs = length (b_objs b)"
    using drop_objs(1) [of "b_objs b" i "b_subscribers b"] by (simp add: d)
  show "\<And>a. a < length (b_objs b) \<Longrightarrow> sub_queue (objs ! a) = sub_queue (b_objs b ! a)"
    using drop_obj_field(2) [of _ "b_objs b" i "b_subscribers b"] by (simp add: d)
  have ds: "distinct (b_subscribers b)" "distinct (map (\<lambda>a. sub_id (b_objs b ! a)) (b_subscribers b))"
    using ok by (simp_all add: slice_ok_def)
  show "distinct subs" using drop_subs_distinct [OF ds(1), of "b_objs b" i] by (simp add: d)
  have filt: "subs = filter (\<lambda>a. sub_id (b_objs b ! a) \<noteq> i) (b_subscribers b)"
    using drop_subs_filter [OF ds(2), of i] by (simp add: d)
  then show "set subs \<subseteq> set (b_subscribers b)" by auto
  have kept: "a \<in> set subs \<Longrightarrow> objs ! a = b_objs b ! a" for a
    using drop_obj_kept [OF ds(1), of a "b_objs b" i] by (simp add: d)
  then have "map (\<lambda>a. sub_id (objs ! a)) subs = map (\<lambda>a. sub_id (b_objs b ! a)) subs" by simp
  moreover have "distinct (map (\<lambda>a. sub_id (b_objs b ! a)) subs)"
    unfolding filt using ds(2) by (rule distinct_map_filter)
  ultimately show "distinct (map (\<lambda>a. sub_id (objs ! a)) subs)" by (simp only:)
  show "\<And>a. a \<in> set subs \<Longrightarrow> \<not> sub_close (objs ! a) \<and> sub_id (objs ! a) \<noteq> i"
    using kept ok by (auto simp: filt slice_ok_def)
qed

lemma Unsubscribe_inv:
  assumes inv: "bus_inv (b, h)"
  shows "bus_inv (Bus_Unsubscribe i b, h)"
proof -
  obtain objs subs where d: "drop_subscriber (b_objs b) i (b_subscribers b) = (objs, subs)" by force
  have b': "Bus_Unsubscribe i b = b\<lparr>b_objs := objs, b_subscribers := subs\<rparr>"
    by (simp add: Bus_Unsubscribe_def d)
  have "slice_ok b" using inv by (simp add: bus_inv_def)
  note s = drop_slice [OF this d]
  show ?thesis using inv s unfolding b' bus_inv_defs by auto
qed

lemma Subscribe_inv:
  assumes inv: "bus_inv (b, h)"
  shows "bus_inv (snd (Bus_Subscribe i handler b), h)"
proof (cases "b_stopped b")
  case True
  with inv show ?thesis by (simp add: Bus_Subscribe_def)
next
  case False
  obtain objs subs where d: "drop_subscriber (b_objs b) i (b_subscribers b) = (objs, subs)" by force
  let ?n = "length objs"
  have b': "snd (Bus_Subscribe i handler b) = b\<lparr>b_objs := objs @ [NewSubscriber i handler],
      b_subscribers := subs @ [?n], b_running := b_running b @ [?n]\<rparr>"
    using False by (simp add: Bus_Subscribe_def d Let_def)
  have "slice_ok b" using inv by (simp add: bus_inv_def)
  note s = drop_slice [OF this d]
  have lt: "a \<in> set subs \<Longrightarrow> a < ?n" for a using inv s(1,4) by (auto simp: bus_inv_defs)
  then have fresh: "?n \<notin> set subs" and nth: "\<And>a. a \<in> set subs \<Longrightarrow> (objs @ [NewSubscriber i handler]) ! a = objs ! a"
    by (auto simp: nth_append)
  have ids: "map (\<lambda>a. sub_id ((objs @ [NewSubscriber i handler]) ! a)) subs = map (\<lambda>a. sub_id (objs ! a)) subs"
    using nth by simp
  have "distinct (map (\<lambda>a. sub_id ((objs @ [NewSubscriber i handler]) ! a)) (subs @ [?n]))"
    unfolding map_append ids using s(5,6) by (auto simp: NewSubscriber_def)
  moreover have "\<forall>a \<in> set (subs @ [?n]). a < length (objs @ [NewSubscriber i handler])
      \<and> \<not> sub_close ((objs @ [NewSubscriber i handler]) ! a)"
    using s(6) lt by (auto simp: nth_append NewSubscriber_def less_SucI)
  ultimately have "slice_ok (snd (Bus_Subscribe i handler b))"
    unfolding b' slice_ok_def using s(3) fresh by simp
  moreover have "goroutines_ok (snd (Bus_Subscribe i handler b))"
    using inv s(1,4) unfolding b' bus_inv_defs by auto
  moreover have "bounds_ok (snd (Bus_Subscribe i handler b))"
    using inv s(1,2) unfolding b' bus_inv_defs
    by (auto simp: NewSubscriber_def nth_append less_Suc_eq)
  moreover have "delivery_ok (snd (Bus_Subscribe i handler b), h)"
    using inv s(1,2) unfolding b' bus_inv_defs
    by (auto simp: NewSubscriber_def nth_append less_Suc_eq)
  ultimately show ?thesis by (simp add: bus_inv_def)
qed

lemma Publish_inv:
  "bus_inv (b, h) \<Longrightarrow>
   bus_inv (Bus_Publish e b, h\<lparr>h_accepted := h_accepted h @ (if accepts b then [e] else [])\<rparr>)"
  unfolding bus_inv_defs by (auto simp: Bus_Publish_def accepts_def)

lemma Shutdown_inv: "bus_inv (b, h) \<Longrightarrow> bus_inv (Bus_Shutdown b, h)"
  unfolding bus_inv_defs by (auto simp: Bus_Shutdown_def)

lemma dispatch_inv:
  assumes inv: "bus_inv (b, h)" and ch: "b_ch b = e # rest"
  shows "bus_inv (Bus_dispatch_event b, h\<lparr>h_dispatched := h_dispatched h @ [e]\<rparr>)"
proof -
  let ?objs = "fold (offer e) (b_subscribers b) (b_objs b)"
  have b': "Bus_dispatch_event b = b\<lparr>b_ch := rest, b_objs := ?objs\<rparr>"
    by (simp add: Bus_dispatch_event_def ch)
  have ds: "distinct (b_subscribers b)" using inv by (simp add: bus_inv_defs)
  have q: "a < length (b_objs b) \<Longrightarrow> sub_queue (?objs ! a) = sub_queue (b_objs b ! a)
      \<or> sub_queue (?objs ! a) = sub_queue (b_objs b ! a) @ [e]
        \<and> length (sub_queue (b_objs b ! a)) < subscriber_queue_cap" for a
    using ds by (rule fold_offer_queue)
  have del: "subseq (h_handled h a @ sub_queue (?objs ! a)) (h_dispatched h @ [e])"
    if "a < length (b_objs b)" for a
  proof -
    have "subseq (h_handled h a @ sub_queue (b_objs b ! a)) (h_dispatched h)"
      using inv that by (simp add: bus_inv_defs)
    then have "subseq (h_handled h a @ sub_queue (b_objs b ! a)) (h_dispatched h @ [e])"
      and "subseq ((h_handled h a @ sub_queue (b_objs b ! a)) @ [e]) (h_dispatched h @ [e])"
      by (rule subseq_rev_drop_many, simp only: subseq_append)
    with q [OF that] show ?thesis by (metis append_assoc)
  qed
  have "bounds_ok (Bus_dispatch_event b)"
    using inv q unfolding b' bus_inv_defs by (fastforce simp: ch)
  moreover have "slice_ok (Bus_dispatch_event b)" "goroutines_ok (Bus_dispatch_event b)"
    using inv unfolding b' bus_inv_defs by (auto simp: fold_offer_fields)
  ultimately show ?thesis using inv del unfolding b' bus_inv_def delivery_ok_def by (auto simp: ch)
qed

lemma handle_inv:
  assumes inv: "bus_inv (b, h)" and a: "a \<in> set (b_running b)"
    and hd: "Bus_handle a b = (Some (f, e), b')"
  shows "bus_inv (b', h\<lparr>h_handled := (h_handled h)(a := h_handled h a @ [e])\<rparr>)"
proof -
  from hd obtain rest where q: "sub_queue (b_objs b ! a) = e # rest"
    and b': "b' = b\<lparr>b_objs := (b_objs b)[a := (b_objs b ! a)\<lparr>sub_queue := rest\<rparr>]\<rparr>"
    by (auto simp: Bus_handle_def split: list.splits)
  have lt: "a < length (b_objs b)" using inv a by (simp add: bus_inv_defs)
  have fields: "sub_id ((b_objs b)[a := (b_objs b ! a)\<lparr>sub_queue := rest\<rparr>] ! x) = sub_id (b_objs b ! x)"
    "sub_close ((b_objs b)[a := (b_objs b ! a)\<lparr>sub_queue := rest\<rparr>] ! x) = sub_close (b_objs b ! x)" for x
    by (simp_all add: nth_upd)
  have "bounds_ok b'"
    using inv lt q unfolding b' bus_inv_defs by (auto simp: nth_upd)
  moreover have "slice_ok b'" "goroutines_ok b'"
    using inv unfolding b' bus_inv_defs by (auto simp: fields)
  moreover have "delivery_ok (b', h\<lparr>h_handled := (h_handled h)(a := h_handled h a @ [e])\<rparr>)"
    using inv lt q unfolding b' bus_inv_defs by (auto simp: nth_upd)
  ultimately show ?thesis by (simp add: bus_inv_def)
qed

lemma bus_step_inv: "bus_step s s' \<Longrightarrow> bus_inv s \<Longrightarrow> bus_inv s'"
proof (induction rule: bus_step.induct)
  case (step_return a b h)
  then have "a \<notin> set (b_subscribers b) \<or> b_done b" by (auto simp: bus_inv_defs)
  with step_return.prems show ?case unfolding bus_inv_defs by auto
next
  case (step_dispatch_return b h)
  then show ?case unfolding bus_inv_defs by simp
qed (rule Subscribe_inv Unsubscribe_inv Publish_inv Shutdown_inv dispatch_inv handle_inv; assumption)+

lemma bus_reachable_inv: "bus_reachable s \<Longrightarrow> bus_inv s"
  by (induction rule: bus_reachable.induct) (auto intro: NewBus_inv bus_step_inv)

section \<open>Properties\<close>

text \<open>
  C17. In every interleaving of subscriptions, publications, shutdown and goroutines, the
  events a subscriber's handler has been called with, followed by those waiting in its queue,
  form a subsequence of the events the bus accepted: nothing is invented, duplicated or
  reordered for any subscriber. The channel never exceeds its capacity, no subscriber queue
  exceeds 128 events, and no two live subscribers share an ID.
\<close>

theorem bus_delivery:
  assumes "bus_reachable (b, h)"
  shows "(\<forall>a < length (b_objs b).
            subseq (h_handled h a @ sub_queue (b_objs b ! a)) (h_accepted h)
            \<and> length (sub_queue (b_objs b ! a)) \<le> 128)
     \<and> length (b_ch b) \<le> b_capacity b
     \<and> distinct (map (\<lambda>a. sub_id (b_objs b ! a)) (b_subscribers b))"
proof -
  have inv: "bus_inv (b, h)" using assms by (rule bus_reachable_inv)
  then show ?thesis
    by (auto simp: bus_inv_defs subscriber_queue_cap_def subseq_rev_drop_many)
qed

lemma example_bus_run:
  "bus_reachable (snd (Bus_Subscribe ''s'' ()
      \<lparr>b_objs = [], b_subscribers = [], b_running = [], b_capacity = 128, b_ch = [],
       b_done = False, b_stopped = False, b_dispatching = True\<rparr>), empty_history)"
  by (rule bus_next [OF bus_start [where capacity = 0] step_subscribe]) (simp add: NewBus_def)

theorem bus_delivery_witness:
  "\<exists>b :: (nat, unit) Bus. bus_reachable (b, empty_history) \<and> length (b_objs b) = 1
     \<and> distinct (map (\<lambda>a. sub_id (b_objs b ! a)) (b_subscribers b))"
proof -
  let ?b = "snd (Bus_Subscribe ''s'' () \<lparr>b_objs = [], b_subscribers = [], b_running = [],
    b_capacity = 128, b_ch = [], b_done = False, b_stopped = False, b_dispatching = True\<rparr>) :: (nat, unit) Bus"
  have "length (b_objs ?b) = 1" by (simp add: Bus_Subscribe_def)
  with bus_delivery [OF example_bus_run] example_bus_run show ?thesis by blast
qed

text \<open>
  One dispatched event reaches every live subscriber whose queue has room and changes no
  other subscriber: the queue of a live subscriber grows by exactly that event when it holds
  fewer than 128, and the event is dropped for it otherwise.
\<close>

theorem dispatch_reaches_live_subscribers:
  assumes "bus_reachable (b, h)" and "b_ch b = e # rest" and "a < length (b_objs b)"
  shows "sub_queue (b_objs (Bus_dispatch_event b) ! a) =
     (if a \<in> set (b_subscribers b) \<and> length (sub_queue (b_objs b ! a)) < 128
      then sub_queue (b_objs b ! a) @ [e] else sub_queue (b_objs b ! a))"
proof -
  have ds: "distinct (b_subscribers b)"
    using bus_reachable_inv [OF assms(1)] by (simp add: bus_inv_defs)
  show ?thesis
  proof (cases "a \<in> set (b_subscribers b)")
    case True
    from fold_offer_listed [OF ds True assms(3), of e] True show ?thesis
      by (simp add: Bus_dispatch_event_def assms(2) subscriber_queue_cap_def)
  next
    case False
    then show ?thesis by (simp add: Bus_dispatch_event_def assms(2) fold_offer_other)
  qed
qed

lemma example_bus_publish:
  "bus_reachable (Bus_Publish (7::nat) (snd (Bus_Subscribe ''s'' ()
      \<lparr>b_objs = [], b_subscribers = [], b_running = [], b_capacity = 128, b_ch = [],
       b_done = False, b_stopped = False, b_dispatching = True\<rparr>)), empty_history\<lparr>h_accepted := [7]\<rparr>)"
proof -
  let ?b = "snd (Bus_Subscribe ''s'' () \<lparr>b_objs = [], b_subscribers = [], b_running = [],
    b_capacity = 128, b_ch = [], b_done = False, b_stopped = False, b_dispatching = True\<rparr>) :: (nat, unit) Bus"
  have "accepts ?b" by (simp add: accepts_def Bus_Subscribe_def)
  then show ?thesis
    using bus_next [OF example_bus_run step_publish [of ?b empty_history 7]]
    by (simp add: empty_history_def)
qed

theorem dispatch_reaches_live_subscribers_witness:
  "\<exists>b :: (nat, unit) Bus. b_ch b = [7] \<and> sub_queue (b_objs (Bus_dispatch_event b) ! 0) = [7]"
proof -
  let ?b = "Bus_Publish (7::nat) (snd (Bus_Subscribe ''s'' () \<lparr>b_objs = [], b_subscribers = [],
    b_running = [], b_capacity = 128, b_ch = [], b_done = False, b_stopped = False,
    b_dispatching = True\<rparr>)) :: (nat, unit) Bus"
  have b: "b_ch ?b = [7]" "0 < length (b_objs ?b)" "b_subscribers ?b = [0]" "sub_queue (b_objs ?b ! 0) = []"
    by (simp_all add: Bus_Publish_def Bus_Subscribe_def NewSubscriber_def)
  from dispatch_reaches_live_subscribers [OF example_bus_publish b(1,2)] b show ?thesis by auto
qed

lemma drain_running:
  "b_done b \<Longrightarrow> bus_step\<^sup>*\<^sup>* (b, h) (b\<lparr>b_running := []\<rparr>, h)"
proof (induction "b_running b" arbitrary: b)
  case Nil
  then have "b\<lparr>b_running := []\<rparr> = b" by simp
  then show ?case by (simp only: rtranclp.rtrancl_refl)
next
  case (Cons a as)
  let ?b = "b\<lparr>b_running := remove1 a (b_running b)\<rparr>"
  have "bus_step (b, h) (?b, h)"
    by (rule step_return) (use Cons in \<open>simp_all flip: Cons.hyps(2)\<close>)
  moreover have "bus_step\<^sup>*\<^sup>* (?b, h) (?b\<lparr>b_running := []\<rparr>, h)"
    by (rule Cons.hyps(1)) (use Cons in \<open>simp_all flip: Cons.hyps(2)\<close>)
  ultimately show ?case by (simp add: converse_rtranclp_into_rtranclp)
qed

text \<open>
  After \<open>Shutdown\<close> the bus refuses work and winds down: publishing changes nothing,
  subscribing returns the error, a second shutdown is a no-op, and from every reachable stopped
  state the remaining subscriber goroutines can all return, so the wait of \<open>Shutdown\<close> can end.
\<close>

theorem bus_shutdown:
  assumes "bus_reachable (b, h)"
  shows "let b' = Bus_Shutdown b in
     Bus_Publish e b' = b' \<and> Bus_Subscribe i handler b' = (Some BusStopped, b')
     \<and> Bus_Shutdown b' = b'
     \<and> (\<exists>b''. bus_step\<^sup>*\<^sup>* (b', h) (b'', h) \<and> Bus_Shutdown_returns b'')"
proof -
  have "b_stopped b = b_done b" using bus_reachable_inv [OF assms] by (simp add: bus_inv_defs)
  then have stopped: "b_stopped (Bus_Shutdown b)" "b_done (Bus_Shutdown b)"
    by (auto simp: Bus_Shutdown_def)
  from drain_running [OF stopped(2), of h]
  have "\<exists>b''. bus_step\<^sup>*\<^sup>* (Bus_Shutdown b, h) (b'', h) \<and> Bus_Shutdown_returns b''"
    unfolding Bus_Shutdown_returns_def by fastforce
  with stopped show ?thesis
    by (simp add: Let_def Bus_Publish_def Bus_Subscribe_def) (simp add: Bus_Shutdown_def)
qed

theorem bus_shutdown_witness:
  "\<exists>b :: (nat, unit) Bus. b_running b = [0] \<and> Bus_Shutdown (Bus_Shutdown b) = Bus_Shutdown b
     \<and> (\<exists>b''. bus_step\<^sup>*\<^sup>* (Bus_Shutdown b, empty_history) (b'', empty_history) \<and> Bus_Shutdown_returns b'')"
proof -
  let ?b = "snd (Bus_Subscribe ''s'' () \<lparr>b_objs = [], b_subscribers = [], b_running = [],
    b_capacity = 128, b_ch = [], b_done = False, b_stopped = False, b_dispatching = True\<rparr>) :: (nat, unit) Bus"
  note w = bus_shutdown [OF example_bus_run, of 0 "''t''" "()", unfolded Let_def]
  show ?thesis
  proof (rule exI [where x = ?b], intro conjI)
    show "b_running ?b = [0]" by (simp add: Bus_Subscribe_def)
    show "Bus_Shutdown (Bus_Shutdown ?b) = Bus_Shutdown ?b" using w by (elim conjE)
    show "\<exists>b''. bus_step\<^sup>*\<^sup>* (Bus_Shutdown ?b, empty_history) (b'', empty_history) \<and> Bus_Shutdown_returns b''"
      using w by (elim conjE)
  qed
qed

end
