(* ===== verification/Queue_Spec.thy ===== *)
theory Queue_Spec
  imports Prelude
begin

text \<open>
  The contract of a first-in first-out queue, which the ready queue of the scheduler, the
  linked queue of the worker pool and the node list of the retry queue implement.
  \<open>rep q xs\<close> says that \<open>q\<close> holds exactly \<open>xs\<close>, oldest first; \<open>None\<close> is a nil
  dereference.
\<close>

datatype 'a queue_op = Enq 'a | Deq

fun queue_run ::
  "('a \<Rightarrow> 'q \<Rightarrow> 'q option) \<Rightarrow> ('q \<Rightarrow> ('a option \<times> 'q) option) \<Rightarrow>
   'a queue_op list \<Rightarrow> 'q \<Rightarrow> ('a list \<times> 'q) option" where
  "queue_run enq deq [] q = Some ([], q)"
| "queue_run enq deq (Enq x # ops) q =
     (case enq x q of None \<Rightarrow> None | Some q' \<Rightarrow> queue_run enq deq ops q')"
| "queue_run enq deq (Deq # ops) q =
     (case deq q of
        None \<Rightarrow> None
      | Some (None, q') \<Rightarrow> queue_run enq deq ops q'
      | Some (Some x, q') \<Rightarrow>
          map_option (\<lambda>(out, q''). (x # out, q'')) (queue_run enq deq ops q'))"

fun pushed :: "'a queue_op list \<Rightarrow> 'a list" where
  "pushed [] = []"
| "pushed (Enq x # ops) = x # pushed ops"
| "pushed (Deq # ops) = pushed ops"

locale fifo_queue =
  fixes empty :: 'q
    and enq :: "'a \<Rightarrow> 'q \<Rightarrow> 'q option"
    and deq :: "'q \<Rightarrow> ('a option \<times> 'q) option"
    and rep :: "'q \<Rightarrow> 'a list \<Rightarrow> bool"
  assumes rep_empty: "rep empty []"
    and rep_enq: "rep q xs \<Longrightarrow> \<exists>q'. enq x q = Some q' \<and> rep q' (xs @ [x])"
    and rep_deq_Nil: "rep q [] \<Longrightarrow> deq q = Some (None, q)"
    and rep_deq_Cons: "rep q (x # xs) \<Longrightarrow> \<exists>q'. deq q = Some (Some x, q') \<and> rep q' xs"
begin

text \<open>
  No run panics, and what comes out followed by what is left is what was there followed by
  what went in.
\<close>

lemma run_fifo:
  "rep q xs \<Longrightarrow>
   \<exists>out q' ys. queue_run enq deq ops q = Some (out, q') \<and> rep q' ys \<and> xs @ pushed ops = out @ ys"
proof (induction ops arbitrary: q xs)
  case (Cons op ops)
  show ?case
  proof (cases op)
    case (Enq x)
    from Cons.prems obtain q' where "enq x q = Some q'" "rep q' (xs @ [x])" using rep_enq by blast
    with Cons.IH [of q' "xs @ [x]"] Enq show ?thesis by auto
  next
    case Deq
    show ?thesis
    proof (cases xs)
      case Nil
      with Cons.prems have "deq q = Some (None, q)" using rep_deq_Nil by simp
      with Cons.IH [OF Cons.prems] Deq show ?thesis by auto
    next
      case xs: (Cons y ys)
      with Cons.prems obtain q' where q': "deq q = Some (Some y, q')" "rep q' ys"
        using rep_deq_Cons by blast
      from Cons.IH [OF q'(2)] obtain out q'' zs where
        "queue_run enq deq ops q' = Some (out, q'')" "rep q'' zs" "ys @ pushed ops = out @ zs" by blast
      with q' Deq xs show ?thesis by auto
    qed
  qed
qed auto

lemma run_from_empty:
  "\<exists>out q' ys. queue_run enq deq ops empty = Some (out, q') \<and> rep q' ys \<and> pushed ops = out @ ys"
  using run_fifo [OF rep_empty] by simp

end

end
