(* ===== verification/Scheduler_Queue.thy ===== *)
theory Scheduler_Queue
  imports Queue_Spec Domain_Workflow
begin

text \<open>
  The work items of the scheduler (\<^verbatim>\<open>Job\<close> of \<^verbatim>\<open>scheduler.go\<close>), the dispatch request
  they carry, and the ready queue of \<^verbatim>\<open>scheduler/queue.go\<close>. The closure
  \<^verbatim>\<open>OnDispatched\<close> captures a task pointer; a task object is addressed by its workflow ID
  and its own ID, so the closure is that pair, and \<open>None\<close> is the nil function.
\<close>

record DispatchRequest =
  dr_WorkflowId :: string
  dr_TaskId :: string
  dr_Type :: string
  dr_Payload :: string
  dr_TimeoutSeconds :: int

record Job =
  j_ID :: string
  j_WorkflowID :: string
  j_Request :: DispatchRequest
  j_OnDispatched :: "(string \<times> string) option"

type_synonym ReadyQueue = "Job list"

definition NewReadyQueue :: ReadyQueue where
  "NewReadyQueue = []"

definition ReadyQueue_Push :: "Job \<Rightarrow> ReadyQueue \<Rightarrow> ReadyQueue" where
  "ReadyQueue_Push job q = q @ [job]"

text \<open>A negative \<open>n\<close> makes the slice expression panic.\<close>

definition ReadyQueue_PopBatch :: "int \<Rightarrow> ReadyQueue \<Rightarrow> (Job list \<times> ReadyQueue) option" where
  "ReadyQueue_PopBatch n q =
     (let m = (if n > int (length q) then int (length q) else n)
      in if m < 0 then None else Some (take (nat m) q, drop (nat m) q))"

lemma PopBatch_parts [queue_simps]:
  "0 \<le> n \<Longrightarrow> ReadyQueue_PopBatch n q = Some (take (nat n) q, drop (nat n) q)"
  by (auto simp: ReadyQueue_PopBatch_def Let_def nat_le_iff)

definition ReadyQueue_pop_one :: "ReadyQueue \<Rightarrow> (Job option \<times> ReadyQueue) option" where
  "ReadyQueue_pop_one q =
     map_option (\<lambda>(batch, q'). (case batch of [] \<Rightarrow> None | j # _ \<Rightarrow> Some j, q')) (ReadyQueue_PopBatch 1 q)"

interpretation ready: fifo_queue NewReadyQueue "\<lambda>j q. Some (ReadyQueue_Push j q)" ReadyQueue_pop_one "(=)"
  by unfold_locales (auto simp: NewReadyQueue_def ReadyQueue_Push_def ReadyQueue_pop_one_def queue_simps)

end
