(* ===== verification/Engine.thy ===== *)
theory Engine
  imports Cp_Events Event_Bus Scheduler_Queue
begin

text \<open>
  \<^verbatim>\<open>infrastructure/control-plane/engine/engine.go\<close>. The engine's state is its map of
  workflows together with what it reaches through its pointers: the ready queue of the
  scheduler, the event bus, and the calls it hands to the worker notifier (each
  \<^verbatim>\<open>CancelTasks\<close> call runs in a goroutine of its own; \<open>e_notified\<close> lists the calls made).

  Every public method holds \<^verbatim>\<open>e.mu\<close> from its first to its last access of the workflows, so
  it is one function on the state. Helper methods work on a workflow \<open>w\<close> that the method
  has looked up; the method stores it back, which is the effect of the pointer. Log output is
  left out. The clock is read as \<open>now\<close>.
\<close>

section \<open>State\<close>

record RunningTaskRef =
  r_TaskID :: string
  r_WorkerID :: string

record 'h Engine =
  e_workflows :: "Workflow gomap"
  e_queue :: ReadyQueue
  e_bus :: "(Event, 'h) Bus"
  e_hasNotifier :: bool
  e_notified :: "(string \<times> string list) list"

datatype engine_error =
    WorkflowNotFound string
  | TaskNotFound string
  | TaskAlreadyTerminal string TaskStatus

definition NewWorkflowEngine :: "(Event, 'h) Bus \<Rightarrow> 'h Engine" where
  "NewWorkflowEngine bus =
     \<lparr>e_workflows = [], e_queue = NewReadyQueue, e_bus = bus, e_hasNotifier = True, e_notified = []\<rparr>"

definition put_task :: "string \<Rightarrow> Task \<Rightarrow> Workflow \<Rightarrow> Workflow" where
  "put_task k t w = w\<lparr>w_Tasks := AList.update k t (w_Tasks w)\<rparr>"

definition put_workflow :: "string \<Rightarrow> Workflow \<Rightarrow> 'h Engine \<Rightarrow> 'h Engine" where
  "put_workflow k w e = e\<lparr>e_workflows := AList.update k w (e_workflows e)\<rparr>"

section \<open>Status updates\<close>

definition UpdateTaskStatus ::
  "int \<Rightarrow> Task \<Rightarrow> TaskStatus \<Rightarrow> 'h Engine \<Rightarrow> bool \<times> Task \<times> 'h Engine" where
  "UpdateTaskStatus now task newStatus e =
     (case Task_UpdateStatus task newStatus of
        Inl err \<Rightarrow> (False, task, e)
      | Inr task' \<Rightarrow> (True, task',
          e\<lparr>e_bus := Bus_Publish
              (TaskStatusChangedEvent (t_WorkflowID task') (t_ID task') (t_status task') (Unix now))
              (e_bus e)\<rparr>))"

definition UpdateWorkflowStatus ::
  "int \<Rightarrow> Workflow \<Rightarrow> WorkflowStatus \<Rightarrow> 'h Engine \<Rightarrow> bool \<times> Workflow \<times> 'h Engine" where
  "UpdateWorkflowStatus now w newStatus e =
     (case Workflow_UpdateStatus w newStatus of
        Inl err \<Rightarrow> (False, w, e)
      | Inr w' \<Rightarrow> (True, w',
          e\<lparr>e_bus := Bus_Publish
              (WorkflowStatusChangedEvent (w_ID w') (w_status w') (Unix now)) (e_bus e)\<rparr>))"

section \<open>Readiness\<close>

fun recompute_loop :: "Workflow \<Rightarrow> string list \<Rightarrow> string list" where
  "recompute_loop w [] = []"
| "recompute_loop w (k # ks) =
     (case map_of (w_Tasks w) k of
        None \<Rightarrow> recompute_loop w ks
      | Some task \<Rightarrow>
          if \<not> Task_IsReady task \<or> \<not> Task_AllDepsSucceeded task w then recompute_loop w ks
          else t_ID task # recompute_loop w ks)"

definition recomputeReadyTasks :: "rng \<Rightarrow> Workflow \<Rightarrow> string list" where
  "recomputeReadyTasks rng w = recompute_loop w (rng 0 (keys (w_Tasks w)))"

definition task_job :: "Task \<Rightarrow> Job" where
  "task_job task =
     \<lparr>j_ID = t_ID task, j_WorkflowID = t_WorkflowID task,
      j_Request = \<lparr>dr_WorkflowId = t_WorkflowID task, dr_TaskId = t_ID task,
        dr_Type = ts_Type (t_Spec task), dr_Payload = ts_Payload (t_Spec task),
        dr_TimeoutSeconds = f64_to_int64 (Duration_Seconds (t_Timeout task))\<rparr>,
      j_OnDispatched = Some (t_WorkflowID task, t_ID task)\<rparr>"

definition pushJob :: "Task \<Rightarrow> 'h Engine \<Rightarrow> 'h Engine" where
  "pushJob task e = e\<lparr>e_queue := ReadyQueue_Push (task_job task) (e_queue e)\<rparr>"

fun mark_loop :: "int \<Rightarrow> string list \<Rightarrow> Workflow \<Rightarrow> 'h Engine \<Rightarrow> Workflow \<times> 'h Engine" where
  "mark_loop now [] w e = (w, e)"
| "mark_loop now (readyTaskID # ids) w e =
     (case map_of (w_Tasks w) readyTaskID of
        None \<Rightarrow> mark_loop now ids w e
      | Some readyTask \<Rightarrow>
          (case UpdateTaskStatus now readyTask TaskReady e of
             (_, readyTask', e') \<Rightarrow>
               mark_loop now ids (put_task readyTaskID readyTask' w) (pushJob readyTask' e')))"

definition markReadyTasks :: "rng \<Rightarrow> int \<Rightarrow> Workflow \<Rightarrow> 'h Engine \<Rightarrow> Workflow \<times> 'h Engine" where
  "markReadyTasks rng now w e =
     (let readyTasks = recomputeReadyTasks rng w;
          (w', e') = (if readyTasks \<noteq> [] \<and> w_status w = WorkflowPending
                      then snd (UpdateWorkflowStatus now w WorkflowRunning e) else (w, e))
      in mark_loop now readyTasks w' e')"

section \<open>Finalisation\<close>

definition finalizeWorkflowIfDone :: "int \<Rightarrow> Workflow \<Rightarrow> 'h Engine \<Rightarrow> Workflow \<times> 'h Engine" where
  "finalizeWorkflowIfDone now w e =
     (if Workflow_IsFinished w \<or> \<not> Workflow_AllTasksFinished w then (w, e)
      else (let target = (if Workflow_HasFailedTask w then WorkflowFailed
                          else if Workflow_HasCancelledTask w then WorkflowCancelled
                          else WorkflowSucceeded)
            in snd (UpdateWorkflowStatus now w target e)))"

section \<open>Cancellation\<close>

definition is_running_status :: "TaskStatus \<Rightarrow> bool" where
  "is_running_status s \<longleftrightarrow> s = TaskDispatched \<or> s = TaskRunning"

definition running_ref :: "Task \<Rightarrow> RunningTaskRef list" where
  "running_ref t =
     (if is_running_status (t_status t)
      then [\<lparr>r_TaskID = t_ID t, r_WorkerID = t_AssignedTo t\<rparr>] else [])"

text \<open>One pass of the outer loop of \<^verbatim>\<open>cancelDownstream\<close> over all tasks.\<close>

fun cancel_pass ::
  "int \<Rightarrow> string \<Rightarrow> string list \<Rightarrow> RunningTaskRef list \<Rightarrow> string list \<Rightarrow> Workflow \<Rightarrow> 'h Engine \<Rightarrow>
   RunningTaskRef list \<times> string list \<times> Workflow \<times> 'h Engine" where
  "cancel_pass now i [] running queue w e = (running, queue, w, e)"
| "cancel_pass now i (k # ks) running queue w e =
     (case map_of (w_Tasks w) k of
        None \<Rightarrow> cancel_pass now i ks running queue w e
      | Some t \<Rightarrow>
          if Task_IsFinished t then cancel_pass now i ks running queue w e
          else if i \<notin> set (t_DependsOn t) then cancel_pass now i ks running queue w e
          else (case UpdateTaskStatus now t TaskCancelled e of
                  (ok, t', e') \<Rightarrow>
                    cancel_pass now i ks (running @ running_ref t)
                      (if ok then queue @ [t_ID t] else queue) (put_task k t' w) e'))"

definition unfinished :: "Workflow \<Rightarrow> nat" where
  "unfinished w = length (filter (\<lambda>kv. \<not> Task_IsFinished (snd kv)) (w_Tasks w))"

lemma unfinished_cancel:
  "map_of (w_Tasks w) k = Some t \<Longrightarrow> \<not> Task_IsFinished t \<Longrightarrow>
   Suc (unfinished (put_task k (t\<lparr>t_status := TaskCancelled\<rparr>) w)) = unfinished w"
  unfolding unfinished_def put_task_def
  using length_filter_update [of "w_Tasks w" k t "\<lambda>t. \<not> Task_IsFinished t" "t\<lparr>t_status := TaskCancelled\<rparr>"]
  by (simp add: Task_IsFinished_def)

lemma put_task_same: "map_of (w_Tasks w) k = Some t \<Longrightarrow> put_task k t w = w"
proof -
  have "map_of m k = Some t \<Longrightarrow> AList.update k t m = m" for m :: "Task gomap"
    by (induction m) auto
  then show "map_of (w_Tasks w) k = Some t \<Longrightarrow> put_task k t w = w" by (simp add: put_task_def)
qed

lemma cancel_pass_measure:
  "cancel_pass now i ks running queue w e = (running', queue', w', e') \<Longrightarrow>
   length queue' + unfinished w' = length queue + unfinished w"
proof (induction now i ks running queue w e rule: cancel_pass.induct)
  case (2 now i k ks running queue w e)
  show ?case
  proof (cases "map_of (w_Tasks w) k")
    case None
    with 2 show ?thesis by simp
  next
    case (Some t)
    show ?thesis
    proof (cases "Task_IsFinished t \<or> i \<notin> set (t_DependsOn t)")
      case True
      with 2 Some show ?thesis by (cases "Task_IsFinished t") auto
    next
      case False
      obtain ok t' e1 where u: "UpdateTaskStatus now t TaskCancelled e = (ok, t', e1)"
        by (metis prod.exhaust)
      have rest: "cancel_pass now i ks (running @ running_ref t)
          (if ok then queue @ [t_ID t] else queue) (put_task k t' w) e1 = (running', queue', w', e')"
        using "2.prems" Some False u by simp
      have IH: "length queue' + unfinished w'
        = length (if ok then queue @ [t_ID t] else queue) + unfinished (put_task k t' w)"
        using "2.IH"(4) [OF Some _ _ u [symmetric] refl rest] False by blast
      from u have "ok \<and> t' = t\<lparr>t_status := TaskCancelled\<rparr> \<or> \<not> ok \<and> t' = t"
        by (auto simp: UpdateTaskStatus_def Task_UpdateStatus_def split: option.splits sum.splits)
      then show ?thesis using IH unfinished_cancel [OF Some] put_task_same [OF Some] False by auto
    qed
  qed
qed simp

function cancel_bfs ::
  "rng \<Rightarrow> nat \<Rightarrow> int \<Rightarrow> string list \<Rightarrow> RunningTaskRef list \<Rightarrow> Workflow \<Rightarrow> 'h Engine \<Rightarrow>
   RunningTaskRef list \<times> Workflow \<times> 'h Engine" where
  "cancel_bfs rng n now [] running w e = (running, w, e)"
| "cancel_bfs rng n now (i # queue) running w e =
     (case cancel_pass now i (rng n (keys (w_Tasks w))) running queue w e of
        (running', queue', w', e') \<Rightarrow> cancel_bfs rng (Suc n) now queue' running' w' e')"
  by pat_completeness auto
termination
proof (relation "measure (\<lambda>(rng, n, now, queue, running, w, e). length queue + unfinished w)",
       goal_cases)
  case (2 rng n now i queue running w e r z q' y w' e')
  then have "cancel_pass now i (rng n (keys (w_Tasks w))) running queue w e = (r, q', w', e')"
    by simp
  from cancel_pass_measure [OF this] show ?case by simp
qed simp

definition cancelDownstream ::
  "rng \<Rightarrow> int \<Rightarrow> Workflow \<Rightarrow> string \<Rightarrow> 'h Engine \<Rightarrow> RunningTaskRef list \<times> Workflow \<times> 'h Engine" where
  "cancelDownstream rng now w rootID e = cancel_bfs rng 1 now [rootID] [] w e"

fun group_refs :: "RunningTaskRef list \<Rightarrow> string list gomap \<Rightarrow> string list gomap" where
  "group_refs [] byWorker = byWorker"
| "group_refs (ref # refs) byWorker =
     group_refs refs (AList.update (r_WorkerID ref)
       ((case map_of byWorker (r_WorkerID ref) of None \<Rightarrow> [] | Some ts \<Rightarrow> ts) @ [r_TaskID ref]) byWorker)"

definition notifyWorkersOfCancellation :: "RunningTaskRef list \<Rightarrow> 'h Engine \<Rightarrow> 'h Engine" where
  "notifyWorkersOfCancellation refs e =
     (if refs = [] \<or> \<not> e_hasNotifier e then e
      else e\<lparr>e_notified := e_notified e @ group_refs refs []\<rparr>)"

section \<open>Public methods\<close>

definition GetWorkflow :: "string \<Rightarrow> 'h Engine \<Rightarrow> engine_error + Workflow" where
  "GetWorkflow workflowID e =
     (case map_of (e_workflows e) workflowID of
        None \<Rightarrow> Inl (WorkflowNotFound workflowID)
      | Some w \<Rightarrow> Inr w)"

definition SubmitWorkflow :: "rng \<Rightarrow> int \<Rightarrow> Workflow \<Rightarrow> 'h Engine \<Rightarrow> string \<times> 'h Engine" where
  "SubmitWorkflow rng now w e =
     (let e1 = put_workflow (w_ID w) w e;
          (w', e2) = markReadyTasks rng now w e1
      in (w_ID w, put_workflow (w_ID w) w' e2))"

definition OnTaskResponse ::
  "rng \<Rightarrow> int \<Rightarrow> string \<Rightarrow> string \<Rightarrow> TaskResult \<Rightarrow> 'h Engine \<Rightarrow> engine_error option \<times> 'h Engine" where
  "OnTaskResponse rng now workflowID taskID result e =
     (case map_of (e_workflows e) workflowID of
        None \<Rightarrow> (Some (WorkflowNotFound workflowID), e)
      | Some w \<Rightarrow>
          (case map_of (w_Tasks w) taskID of
             None \<Rightarrow> (Some (TaskNotFound taskID), e)
           | Some task \<Rightarrow>
               (let (w1, e1) =
                  (if tr_Status result = TaskFailed \<or> tr_Status result = TaskSucceeded then
                     (case UpdateTaskStatus now task (tr_Status result) e of
                        (ok, task', e') \<Rightarrow>
                          if \<not> ok then (w, e')
                          else (let w' = put_task taskID (Task_SetResult task' result) w
                                in if tr_Status result = TaskFailed
                                   then snd (cancelDownstream rng now w' (t_ID task') e')
                                   else (w', e')))
                   else if tr_Status result = TaskRunning then
                     (case UpdateTaskStatus now task TaskRunning e of
                        (ok, task', e') \<Rightarrow> (put_task taskID task' w, e'))
                   else (w, e));
                    (w2, e2) = markReadyTasks rng now w1 e1;
                    (w3, e3) = finalizeWorkflowIfDone now w2 e2
                in (None, put_workflow workflowID w3 e3))))"

text \<open>The callback of the scheduler; the pointer it holds is the pair of IDs.\<close>

definition OnTaskDispatched ::
  "int \<Rightarrow> string \<times> string \<Rightarrow> string \<Rightarrow> 'h Engine \<Rightarrow> 'h Engine" where
  "OnTaskDispatched now p workerID e =
     (case map_of (e_workflows e) (fst p) of
        None \<Rightarrow> e
      | Some w \<Rightarrow>
          (case map_of (w_Tasks w) (snd p) of
             None \<Rightarrow> e
           | Some task \<Rightarrow>
               (case UpdateTaskStatus now (task\<lparr>t_AssignedTo := workerID\<rparr>) TaskDispatched e of
                  (_, task', e') \<Rightarrow> put_workflow (fst p) (put_task (snd p) task' w) e')))"

fun cancel_all ::
  "int \<Rightarrow> string list \<Rightarrow> RunningTaskRef list \<Rightarrow> Workflow \<Rightarrow> 'h Engine \<Rightarrow>
   RunningTaskRef list \<times> Workflow \<times> 'h Engine" where
  "cancel_all now [] running w e = (running, w, e)"
| "cancel_all now (k # ks) running w e =
     (case map_of (w_Tasks w) k of
        None \<Rightarrow> cancel_all now ks running w e
      | Some task \<Rightarrow>
          if Task_IsFinished task then cancel_all now ks running w e
          else (case UpdateTaskStatus now task TaskCancelled e of
                  (_, task', e') \<Rightarrow>
                    cancel_all now ks (running @ running_ref task) (put_task k task' w) e'))"

definition CancelWorkflow ::
  "rng \<Rightarrow> int \<Rightarrow> string \<Rightarrow> 'h Engine \<Rightarrow> engine_error option \<times> 'h Engine" where
  "CancelWorkflow rng now workflowID e =
     (case map_of (e_workflows e) workflowID of
        None \<Rightarrow> (Some (WorkflowNotFound workflowID), e)
      | Some w \<Rightarrow>
          (let (running, w1, e1) = cancel_all now (rng 0 (keys (w_Tasks w))) [] w e;
               (_, w2, e2) = UpdateWorkflowStatus now w1 WorkflowCancelled e1
           in (None, notifyWorkersOfCancellation running (put_workflow workflowID w2 e2))))"

fun find_loop :: "Workflow gomap \<Rightarrow> string \<Rightarrow> string list \<Rightarrow> (string \<times> Workflow \<times> Task) option" where
  "find_loop ws taskID [] = None"
| "find_loop ws taskID (k # ks) =
     (case map_of ws k of
        None \<Rightarrow> find_loop ws taskID ks
      | Some w \<Rightarrow>
          (case map_of (w_Tasks w) taskID of
             None \<Rightarrow> find_loop ws taskID ks
           | Some task \<Rightarrow> Some (k, w, task)))"

definition findTask :: "rng \<Rightarrow> string \<Rightarrow> 'h Engine \<Rightarrow> (string \<times> Workflow \<times> Task) option" where
  "findTask rng taskID e = find_loop (e_workflows e) taskID (rng 0 (keys (e_workflows e)))"

definition CancelTask ::
  "rng \<Rightarrow> int \<Rightarrow> string \<Rightarrow> 'h Engine \<Rightarrow> engine_error option \<times> 'h Engine" where
  "CancelTask rng now taskID e =
     (case findTask rng taskID e of
        None \<Rightarrow> (Some (TaskNotFound taskID), e)
      | Some (k, w, task) \<Rightarrow>
          if Task_IsFinished task then (Some (TaskAlreadyTerminal taskID (t_status task)), e)
          else
            (let (_, task', e1) = UpdateTaskStatus now task TaskCancelled e;
                 (downstream, w1, e2) =
                   cancelDownstream rng now (put_task taskID task' w) (t_ID task) e1;
                 (w2, e3) = finalizeWorkflowIfDone now w1 e2
             in (None, notifyWorkersOfCancellation (running_ref task @ downstream)
                         (put_workflow k w2 e3))))"

fun reassign_tasks :: "int \<Rightarrow> string \<Rightarrow> string list \<Rightarrow> Workflow \<Rightarrow> 'h Engine \<Rightarrow> Workflow \<times> 'h Engine" where
  "reassign_tasks now workerID [] w e = (w, e)"
| "reassign_tasks now workerID (k # ks) w e =
     (case map_of (w_Tasks w) k of
        None \<Rightarrow> reassign_tasks now workerID ks w e
      | Some task \<Rightarrow>
          if t_AssignedTo task \<noteq> workerID then reassign_tasks now workerID ks w e
          else if \<not> is_running_status (t_status task) then reassign_tasks now workerID ks w e
          else (case UpdateTaskStatus now (task\<lparr>t_AssignedTo := ''''\<rparr>) TaskReady e of
                  (ok, task', e') \<Rightarrow>
                    reassign_tasks now workerID ks (put_task k task' w)
                      (if ok then pushJob task' e' else e')))"

fun reassign_workflows :: "rng \<Rightarrow> int \<Rightarrow> string \<Rightarrow> string list \<Rightarrow> 'h Engine \<Rightarrow> 'h Engine" where
  "reassign_workflows rng now workerID [] e = e"
| "reassign_workflows rng now workerID (k # ks) e =
     (case map_of (e_workflows e) k of
        None \<Rightarrow> reassign_workflows rng now workerID ks e
      | Some w \<Rightarrow>
          (case reassign_tasks now workerID (rng (Suc (length ks)) (keys (w_Tasks w))) w e of
             (w', e') \<Rightarrow> reassign_workflows rng now workerID ks (put_workflow k w' e')))"

definition ReassignDeadWorkerTasks :: "rng \<Rightarrow> int \<Rightarrow> string \<Rightarrow> 'h Engine \<Rightarrow> 'h Engine" where
  "ReassignDeadWorkerTasks rng now workerID e =
     reassign_workflows rng now workerID (rng 0 (keys (e_workflows e))) e"

end
