(* ===== verification/Engine_Inv.thy ===== *)
theory Engine_Inv
  imports Domain_Graph Engine
begin

text \<open>
  What the engine keeps of every workflow it manages. The loops over tasks are first brought
  into closed form: each of them rewrites the task map pointwise (\<open>with_tasks\<close>), whatever
  order the range loops use. The invariants then only speak about the status of each task
  (\<open>st w\<close>) and the dependency relation.
\<close>

section \<open>Pointwise updates of a workflow\<close>

definition with_tasks :: "(string \<Rightarrow> Task \<Rightarrow> Task) \<Rightarrow> Workflow \<Rightarrow> Workflow" where
  "with_tasks f w = w\<lparr>w_Tasks := map (\<lambda>(k, t). (k, f k t)) (w_Tasks w)\<rparr>"

definition st :: "Workflow \<Rightarrow> string \<Rightarrow> TaskStatus option" where
  "st w k = map_option t_status (map_of (w_Tasks w) k)"

definition set_st :: "TaskStatus \<Rightarrow> string set \<Rightarrow> Workflow \<Rightarrow> Workflow" where
  "set_st s C = with_tasks (\<lambda>k t. if k \<in> C then t\<lparr>t_status := s\<rparr> else t)"

lemma status_update_same [simp]:
  "t = t\<lparr>t_status := s\<rparr> \<longleftrightarrow> t_status t = s" "t\<lparr>t_status := s\<rparr> = t \<longleftrightarrow> t_status t = s"
  by (cases t; auto)+

lemma map_of_with_tasks [simp]:
  "map_of (w_Tasks (with_tasks f w)) k = map_option (f k) (map_of (w_Tasks w) k)"
proof -
  have "map_of (map (\<lambda>(k, t). (k, f k t)) m) k = map_option (f k) (map_of m k)" for m :: "Task gomap"
    by (induction m) auto
  then show ?thesis by (simp add: with_tasks_def)
qed

lemma with_tasks_simps [simp]:
  "keys (w_Tasks (with_tasks f w)) = keys (w_Tasks w)"
  "w_ID (with_tasks f w) = w_ID w" "w_Name (with_tasks f w) = w_Name w" "w_status (with_tasks f w) = w_status w"
  by (simp_all add: with_tasks_def case_prod_beta comp_def)

lemma with_tasks_comp: "with_tasks g (with_tasks f w) = with_tasks (\<lambda>k t. g k (f k t)) w"
  by (simp add: with_tasks_def case_prod_beta comp_def)

lemma with_tasks_cong:
  assumes "gomap_wf (w_Tasks w)"
    and "\<And>k t. map_of (w_Tasks w) k = Some t \<Longrightarrow> f k t = g k t"
  shows "with_tasks f w = with_tasks g w"
proof -
  have "map (\<lambda>(k, t). (k, f k t)) (w_Tasks w) = map (\<lambda>(k, t). (k, g k t)) (w_Tasks w)"
    using assms by (auto simp: gomap_in_iff)
  then show ?thesis by (simp add: with_tasks_def)
qed

lemma with_tasks_ident:
  assumes "gomap_wf (w_Tasks w)" and "\<And>k t. map_of (w_Tasks w) k = Some t \<Longrightarrow> f k t = t"
  shows "with_tasks f w = w"
proof -
  have "map (\<lambda>(k, t). (k, f k t)) (w_Tasks w) = w_Tasks w"
    using assms by (auto simp: gomap_in_iff intro: map_idI)
  then show ?thesis by (simp add: with_tasks_def)
qed

lemma put_task_with_tasks:
  assumes "gomap_wf (w_Tasks w)" and "map_of (w_Tasks w) k = Some t" and "f t = t'"
  shows "put_task k t' w = with_tasks (\<lambda>k' t. if k' = k then f t else t) w"
proof -
  have "map (\<lambda>(k', x). (k', if k' = k then t' else x)) (w_Tasks w)
      = map (\<lambda>(k', x). (k', if k' = k then f x else x)) (w_Tasks w)"
    using assms by (auto simp: gomap_in_iff)
  then show ?thesis
    using assms by (simp add: put_task_def with_tasks_def alist_update_map [OF assms(1,2)])
qed

lemma gomap_wf_with_tasks [simp]: "gomap_wf (w_Tasks (with_tasks f w)) = gomap_wf (w_Tasks w)"
  by (simp add: gomap_wf_def)

lemma set_st_simps [simp]:
  "keys (w_Tasks (set_st s C w)) = keys (w_Tasks w)"
  "w_ID (set_st s C w) = w_ID w" "w_status (set_st s C w) = w_status w"
  "gomap_wf (w_Tasks (set_st s C w)) = gomap_wf (w_Tasks w)"
  "map_of (w_Tasks (set_st s C w)) k =
     map_option (\<lambda>t. if k \<in> C then t\<lparr>t_status := s\<rparr> else t) (map_of (w_Tasks w) k)"
  by (simp_all add: set_st_def)

lemma st_set_st [simp]:
  "st (set_st s C w) k = (if k \<in> C \<and> st w k \<noteq> None then Some s else st w k)"
  by (auto simp: st_def map_option_case split: option.splits)

lemma set_st_Un: "set_st s C (set_st s D w) = set_st s (C \<union> D) w"
proof -
  have "(\<lambda>k t. if k \<in> C then (if k \<in> D then t\<lparr>t_status := s\<rparr> else t)\<lparr>t_status := s\<rparr>
               else if k \<in> D then t\<lparr>t_status := s\<rparr> else t)
      = (\<lambda>k t. if k \<in> C \<union> D then t\<lparr>t_status := s\<rparr> else t)"
    by (intro ext) simp
  then show ?thesis unfolding set_st_def with_tasks_comp by (rule arg_cong)
qed

lemma set_st_empty [simp]: "gomap_wf (w_Tasks w) \<Longrightarrow> set_st s {} w = w"
  by (simp add: set_st_def with_tasks_ident)

lemma put_task_status:
  assumes "gomap_wf (w_Tasks w)" and "map_of (w_Tasks w) k = Some t"
  shows "put_task k (t\<lparr>t_status := s\<rparr>) w = set_st s {k} w"
  using put_task_with_tasks [OF assms, of "\<lambda>t. t\<lparr>t_status := s\<rparr>"] by (simp add: set_st_def)

section \<open>What a status update leaves alone\<close>

definition bus_only :: "'h Engine \<Rightarrow> 'h Engine \<Rightarrow> bool" where
  "bus_only e e' \<longleftrightarrow> e' = e\<lparr>e_bus := e_bus e'\<rparr>"

lemma bus_only_refl [simp]: "bus_only e e" by (simp add: bus_only_def)

lemma bus_only_trans: "bus_only e e' \<Longrightarrow> bus_only e' e'' \<Longrightarrow> bus_only e e''"
  unfolding bus_only_def by (cases e; cases e'; cases e'') simp

lemma bus_only_fields:
  "bus_only e e' \<Longrightarrow> e_workflows e' = e_workflows e \<and> e_queue e' = e_queue e
     \<and> e_hasNotifier e' = e_hasNotifier e \<and> e_notified e' = e_notified e"
  unfolding bus_only_def by (cases e; cases e') simp

lemma UpdateTaskStatus_ok:
  "taskStatusesGraph (t_status t) s \<Longrightarrow>
   \<exists>e'. UpdateTaskStatus now t s e = (True, t\<lparr>t_status := s\<rparr>, e') \<and> bus_only e e'"
  using CanTransitTo_None_iff [of "t_status t" s]
  by (simp add: UpdateTaskStatus_def Task_UpdateStatus_def bus_only_def)

lemma UpdateTaskStatus_no:
  "\<not> taskStatusesGraph (t_status t) s \<Longrightarrow> UpdateTaskStatus now t s e = (False, t, e)"
  using CanTransitTo_None_iff [of "t_status t" s]
  by (auto simp: UpdateTaskStatus_def Task_UpdateStatus_def)

lemma UpdateWorkflowStatus_ok:
  "workflowStatusesGraph (w_status w) s \<Longrightarrow>
   \<exists>e'. UpdateWorkflowStatus now w s e = (True, w\<lparr>w_status := s\<rparr>, e') \<and> bus_only e e'"
  using WorkflowStatus_CanTransitTo_None_iff [of "w_status w" s]
  by (simp add: UpdateWorkflowStatus_def Workflow_UpdateStatus_def bus_only_def)

lemma UpdateWorkflowStatus_no:
  "\<not> workflowStatusesGraph (w_status w) s \<Longrightarrow> UpdateWorkflowStatus now w s e = (False, w, e)"
  using WorkflowStatus_CanTransitTo_None_iff [of "w_status w" s]
  by (auto simp: UpdateWorkflowStatus_def Workflow_UpdateStatus_def)

section \<open>Cancellation reaches exactly the unfinished dependents\<close>

definition plain :: "Workflow \<Rightarrow> bool" where
  "plain w \<longleftrightarrow> (\<forall>k. st w k \<noteq> Some TaskRetrying \<and> st w k \<noteq> Some TaskStatusUnknown)"

definition open_task :: "Workflow \<Rightarrow> string \<Rightarrow> bool" where
  "open_task w k \<longleftrightarrow> (\<exists>t. map_of (w_Tasks w) k = Some t \<and> \<not> Task_IsFinished t)"

definition open_deps :: "Workflow \<Rightarrow> (string \<times> string) set" where
  "open_deps w = {(a, b) \<in> dep_rel (w_Tasks w). open_task w a}"

definition refs_of :: "Workflow \<Rightarrow> string set \<Rightarrow> RunningTaskRef set" where
  "refs_of w C = {r. \<exists>k t. k \<in> C \<and> map_of (w_Tasks w) k = Some t \<and> r \<in> set (running_ref t)}"

lemma plain_set_st: "plain w \<Longrightarrow> s \<notin> {TaskRetrying, TaskStatusUnknown} \<Longrightarrow> plain (set_st s C w)"
  by (auto simp: plain_def)

lemma plain_cancel:
  "plain w \<Longrightarrow> map_of (w_Tasks w) k = Some t \<Longrightarrow> \<not> Task_IsFinished t \<Longrightarrow>
   taskStatusesGraph (t_status t) TaskCancelled"
  unfolding plain_def st_def Task_IsFinished_def
  by (cases "t_status t") (auto dest: spec [of _ k])

lemma dep_rel_set_st [simp]: "dep_rel (w_Tasks (set_st s C w)) = dep_rel (w_Tasks w)"
proof -
  have "(\<exists>t. map_of (w_Tasks (set_st s C w)) a = Some t \<and> b \<in> set (t_DependsOn t)) \<longleftrightarrow>
        (\<exists>t. map_of (w_Tasks w) a = Some t \<and> b \<in> set (t_DependsOn t))" for a b
    by (cases "map_of (w_Tasks w) a") simp_all
  then show ?thesis by (simp only: dep_rel_def)
qed

lemma ids_are_keys_set_st [simp]: "ids_are_keys (w_Tasks w) \<Longrightarrow> ids_are_keys (w_Tasks (set_st s C w))"
  by (auto simp: ids_are_keys_def split: if_splits)

lemma open_task_cancelled:
  "open_task (set_st TaskCancelled C w) k \<longleftrightarrow> open_task w k \<and> k \<notin> C"
  by (cases "map_of (w_Tasks w) k") (simp_all add: open_task_def Task_IsFinished_def)

lemma open_deps_cancelled:
  "open_deps (set_st TaskCancelled C w) = open_deps w - C \<times> UNIV"
  by (auto simp: open_deps_def open_task_cancelled)

lemma refs_of_cancelled:
  "refs_of (set_st TaskCancelled C w) D = refs_of w (D - C)"
proof -
  have "(k \<in> D \<and> (\<exists>t. map_of (w_Tasks (set_st TaskCancelled C w)) k = Some t \<and> r \<in> set (running_ref t)))
     \<longleftrightarrow> (k \<in> D - C \<and> (\<exists>t. map_of (w_Tasks w) k = Some t \<and> r \<in> set (running_ref t)))" for k r
    by (cases "map_of (w_Tasks w) k") (simp_all add: running_ref_def is_running_status_def)
  then show ?thesis unfolding refs_of_def by blast
qed

lemma refs_of_Un: "refs_of w (C \<union> D) = refs_of w C \<union> refs_of w D"
  by (auto simp: refs_of_def)

definition pass_set :: "string \<Rightarrow> string list \<Rightarrow> Workflow \<Rightarrow> string set" where
  "pass_set i ks w = {k \<in> set ks. (k, i) \<in> open_deps w}"

lemma pass_set_cancelled:
  "k \<notin> set ks \<Longrightarrow> pass_set i ks (set_st TaskCancelled {k} w) = pass_set i ks w"
  by (auto simp: pass_set_def open_deps_cancelled)

lemma pass_set_Cons:
  "pass_set i (k # ks) w = (if (k, i) \<in> open_deps w then insert k (pass_set i ks w) else pass_set i ks w)"
  by (auto simp: pass_set_def)

lemma open_deps_iff:
  "map_of (w_Tasks w) k = Some t \<Longrightarrow>
   (k, i) \<in> open_deps w \<longleftrightarrow> \<not> Task_IsFinished t \<and> i \<in> set (t_DependsOn t)"
  by (auto simp: open_deps_def open_task_def dep_rel_def)

lemma cancel_pass_spec:
  assumes "gomap_wf (w_Tasks w)" "ids_are_keys (w_Tasks w)" "plain w" "distinct ks"
  shows "\<exists>running' queue' e'.
    cancel_pass now i ks running queue w e
      = (running', queue', set_st TaskCancelled (pass_set i ks w) w, e')
    \<and> bus_only e e' \<and> set queue' = set queue \<union> pass_set i ks w
    \<and> set running' = set running \<union> refs_of w (pass_set i ks w)"
  using assms
proof (induction ks arbitrary: running queue w e)
  case Nil
  then show ?case by (simp add: pass_set_def refs_of_def)
next
  case (Cons k ks)
  show ?case
  proof (cases "(k, i) \<in> open_deps w")
    case False
    then have "cancel_pass now i (k # ks) running queue w e = cancel_pass now i ks running queue w e"
      by (auto simp: open_deps_iff split: option.splits)
    with Cons False show ?thesis by (simp add: pass_set_Cons)
  next
    case True
    then obtain t where t: "map_of (w_Tasks w) k = Some t" "\<not> Task_IsFinished t" "i \<in> set (t_DependsOn t)"
      by (auto simp: open_deps_def open_task_def dep_rel_def)
    let ?w = "set_st TaskCancelled {k} w"
    from UpdateTaskStatus_ok [OF plain_cancel [OF Cons.prems(3) t(1,2)]] obtain e1 where
      e1: "UpdateTaskStatus now t TaskCancelled e = (True, t\<lparr>t_status := TaskCancelled\<rparr>, e1)" "bus_only e e1"
      by blast
    have step: "cancel_pass now i (k # ks) running queue w e
        = cancel_pass now i ks (running @ running_ref t) (queue @ [t_ID t]) ?w e1"
      using t e1 put_task_status [OF Cons.prems(1) t(1)] by simp
    have id: "t_ID t = k" using Cons.prems(2) t(1) by (simp add: ids_are_keys_def)
    have ps: "pass_set i ks ?w = pass_set i ks w" and kks: "k \<notin> set ks"
      using Cons.prems(4) by (simp_all add: pass_set_cancelled)
    have r: "refs_of ?w (pass_set i ks w) = refs_of w (pass_set i ks w)"
      using kks by (auto simp: refs_of_cancelled pass_set_def refs_of_def)
    have rk: "refs_of w {k} = set (running_ref t)" using t by (auto simp: refs_of_def)
    obtain running' queue' e' where IH: "cancel_pass now i ks (running @ running_ref t) (queue @ [t_ID t]) ?w e1
        = (running', queue', set_st TaskCancelled (pass_set i ks w) ?w, e')" "bus_only e1 e'"
        "set queue' = set (queue @ [t_ID t]) \<union> pass_set i ks w"
        "set running' = set (running @ running_ref t) \<union> refs_of w (pass_set i ks w)"
      using Cons.IH [of ?w "running @ running_ref t" "queue @ [t_ID t]" e1] Cons.prems ps r
      by (auto simp: plain_set_st)
    show ?thesis
      using IH True id rk bus_only_trans [OF e1(2) IH(2)] refs_of_Un [of w "{k}" "pass_set i ks w"]
      unfolding step by (simp add: set_st_Un pass_set_Cons Un_commute insert_commute) blast
  qed
qed

lemma bfs_layer:
  assumes "P = {k. (k, i) \<in> R}"
  shows "{k. \<exists>j \<in> Q \<union> P. (k, j) \<in> (R - P \<times> UNIV)\<^sup>+} \<union> P = {k. \<exists>j \<in> insert i Q. (k, j) \<in> R\<^sup>+}"
    (is "?L = _")
proof (intro equalityI subsetI)
  fix k assume "k \<in> ?L"
  moreover have "(k, j) \<in> R\<^sup>+" if "(k, j) \<in> (R - P \<times> UNIV)\<^sup>+" for j
    using trancl_mono that by blast
  ultimately show "k \<in> {k. \<exists>j \<in> insert i Q. (k, j) \<in> R\<^sup>+}"
    using assms by (auto intro: trancl_into_trancl)
next
  fix k assume "k \<in> {k. \<exists>j \<in> insert i Q. (k, j) \<in> R\<^sup>+}"
  then obtain j where j: "j \<in> insert i Q" "(k, j) \<in> R\<^sup>+" by blast
  from j(2) show "k \<in> ?L"
  proof (induction rule: converse_trancl_induct)
    case (base y)
    with j(1) assms show ?case by blast
  next
    case (step y z)
    then show ?case using assms by (auto intro: trancl_into_trancl2)
  qed
qed

text \<open>
  The breadth-first search cancels, for every order the range loops use, exactly the open
  tasks from which a chain of open tasks leads to an element of the queue.
\<close>

lemma cancel_bfs_spec:
  assumes "go_range rng" "gomap_wf (w_Tasks w)" "ids_are_keys (w_Tasks w)" "plain w"
    and "C = {k. \<exists>i \<in> set queue. (k, i) \<in> (open_deps w)\<^sup>+}"
  shows "\<exists>running' e'. cancel_bfs rng n now queue running w e = (running', set_st TaskCancelled C w, e')
    \<and> bus_only e e' \<and> set running' = set running \<union> refs_of w C"
  using assms
proof (induction rng n now queue running w e arbitrary: C rule: cancel_bfs.induct)
  case (1 rng n now running w e)
  then show ?case by (simp add: refs_of_def)
next
  case (2 rng n now i queue running w e)
  let ?ks = "rng n (keys (w_Tasks w))"
  let ?P = "pass_set i ?ks w"
  have set_ks: "set ?ks = set (keys (w_Tasks w))" "distinct ?ks"
    using "2.prems"(2) go_range.set_rng [OF "2.prems"(1)] go_range.distinct_rng [OF "2.prems"(1)]
    by (simp_all add: gomap_wf_def)
  have P: "?P = {k. (k, i) \<in> open_deps w}"
    unfolding pass_set_def set_ks(1) by (auto simp: open_deps_def open_task_def dest: map_of_Some_keys)
  from cancel_pass_spec [OF "2.prems"(2-4) set_ks(2), of now i running queue e]
  obtain running1 queue1 e1 where pass:
    "cancel_pass now i ?ks running queue w e = (running1, queue1, set_st TaskCancelled ?P w, e1)"
    "bus_only e e1" "set queue1 = set queue \<union> ?P" "set running1 = set running \<union> refs_of w ?P"
    by blast
  let ?w = "set_st TaskCancelled ?P w"
  let ?C = "{k. \<exists>j \<in> set queue1. (k, j) \<in> (open_deps ?w)\<^sup>+}"
  have C: "?C \<union> ?P = C"
    using bfs_layer [OF P, of "set queue"] pass(3) "2.prems"(5) by (simp add: open_deps_cancelled)
  from "2.IH" [OF pass(1) [symmetric] refl refl, of ?C] "2.prems"
  obtain running2 e2 where IH: "cancel_bfs rng (Suc n) now queue1 running1 ?w e1
      = (running2, set_st TaskCancelled ?C ?w, e2)" "bus_only e1 e2"
      "set running2 = set running1 \<union> refs_of ?w ?C"
    by (auto simp: plain_set_st)
  have "refs_of w ?P \<union> refs_of ?w ?C = refs_of w C"
    unfolding refs_of_cancelled refs_of_Un [symmetric] C [symmetric] by (rule arg_cong [where f = "refs_of w"]) blast
  with IH pass C bus_only_trans [OF pass(2) IH(2)] show ?case
    by (simp add: set_st_Un Un_assoc)
qed

lemma cancelDownstream_spec:
  assumes "go_range rng" "gomap_wf (w_Tasks w)" "ids_are_keys (w_Tasks w)" "plain w"
  shows "\<exists>running' e'. cancelDownstream rng now w i e
      = (running', set_st TaskCancelled {k. (k, i) \<in> (open_deps w)\<^sup>+} w, e')
    \<and> bus_only e e' \<and> set running' = refs_of w {k. (k, i) \<in> (open_deps w)\<^sup>+}"
  using cancel_bfs_spec [OF assms refl, where queue = "[i]" and n = 1 and now = now and running = "[]" and e = e] by (simp add: cancelDownstream_def)

lemma cancel_all_spec:
  assumes "gomap_wf (w_Tasks w)" "plain w" "distinct ks" and C: "C = {k \<in> set ks. open_task w k}"
  shows "\<exists>running' e'. cancel_all now ks running w e = (running', set_st TaskCancelled C w, e')
    \<and> bus_only e e' \<and> set running' = set running \<union> refs_of w C"
  using assms
proof (induction ks arbitrary: running w e C)
  case Nil
  then show ?case by (simp add: refs_of_def)
next
  case (Cons k ks)
  show ?case
  proof (cases "open_task w k")
    case False
    then have "cancel_all now (k # ks) running w e = cancel_all now ks running w e"
      by (auto simp: open_task_def split: option.splits)
    moreover have "C = {k \<in> set ks. open_task w k}" using Cons.prems(4) False by auto
    ultimately show ?thesis using Cons by simp
  next
    case True
    then obtain t where t: "map_of (w_Tasks w) k = Some t" "\<not> Task_IsFinished t"
      by (auto simp: open_task_def)
    let ?w = "set_st TaskCancelled {k} w" and ?C = "{k \<in> set ks. open_task w k}"
    from UpdateTaskStatus_ok [OF plain_cancel [OF Cons.prems(2) t]] obtain e1 where
      e1: "UpdateTaskStatus now t TaskCancelled e = (True, t\<lparr>t_status := TaskCancelled\<rparr>, e1)" "bus_only e e1"
      by blast
    have step: "cancel_all now (k # ks) running w e = cancel_all now ks (running @ running_ref t) ?w e1"
      using t e1 put_task_status [OF Cons.prems(1) t(1)] by simp
    have C': "?C = {k \<in> set ks. open_task ?w k}" "C = insert k ?C" "refs_of ?w ?C = refs_of w ?C"
      using Cons.prems(3,4) True by (auto simp: open_task_cancelled refs_of_cancelled intro: arg_cong [where f = "refs_of w"])
    obtain running' e' where IH: "cancel_all now ks (running @ running_ref t) ?w e1
        = (running', set_st TaskCancelled ?C ?w, e')" "bus_only e1 e'"
        "set running' = set (running @ running_ref t) \<union> refs_of w ?C"
      using Cons.IH [of ?w ?C "running @ running_ref t" e1] Cons.prems C' by (auto simp: plain_set_st)
    have "refs_of w {k} = set (running_ref t)" using t by (auto simp: refs_of_def)
    then show ?thesis
      using IH C'(2) bus_only_trans [OF e1(2) IH(2)] refs_of_Un [of w "{k}" ?C]
      unfolding step by (simp add: set_st_Un) blast
  qed
qed

section \<open>Marking and reclaiming tasks\<close>

definition pushes :: "Job list \<Rightarrow> 'h Engine \<Rightarrow> 'h Engine \<Rightarrow> bool" where
  "pushes js e e' \<longleftrightarrow> e' = e\<lparr>e_bus := e_bus e', e_queue := e_queue e @ js\<rparr>"

lemma pushes_trans: "pushes js e e' \<Longrightarrow> pushes js' e' e'' \<Longrightarrow> pushes (js @ js') e e''"
  unfolding pushes_def by (cases e; cases e'; cases e'') simp

lemma pushes_Nil [simp]: "pushes [] e e' \<longleftrightarrow> bus_only e e'"
  unfolding pushes_def bus_only_def by (cases e; cases e') auto

lemma pushes_fields:
  "pushes js e e' \<Longrightarrow> e_workflows e' = e_workflows e \<and> e_queue e' = e_queue e @ js
     \<and> e_hasNotifier e' = e_hasNotifier e \<and> e_notified e' = e_notified e"
  unfolding pushes_def by (cases e; cases e') simp

lemma pushes_bus: "pushes js e e' \<Longrightarrow> bus_only e' e'' \<Longrightarrow> pushes js e e''"
  using pushes_trans [of js e e' "[]" e''] by simp

lemma bus_pushes: "bus_only e e' \<Longrightarrow> pushes js e' e'' \<Longrightarrow> pushes js e e''"
  using pushes_trans [of "[]" e e' js e''] by simp

lemma pushes_pushJob: "pushes [task_job t] e (pushJob t e)"
  by (simp add: pushes_def pushJob_def ReadyQueue_Push_def)

lemma task_job_fields [simp]:
  "task_job (t\<lparr>t_status := s\<rparr>) = task_job t" "task_job (t\<lparr>t_AssignedTo := i\<rparr>) = task_job t"
  by (simp_all add: task_job_def)

definition jobs_of :: "Workflow \<Rightarrow> string list \<Rightarrow> Job list" where
  "jobs_of w ids = map (\<lambda>k. task_job (the (map_of (w_Tasks w) k))) ids"

lemma mark_loop_spec:
  assumes "gomap_wf (w_Tasks w)" "distinct ids" "\<forall>k \<in> set ids. st w k = Some TaskPending"
  shows "\<exists>e'. mark_loop now ids w e = (set_st TaskReady (set ids) w, e') \<and> pushes (jobs_of w ids) e e'"
  using assms
proof (induction ids arbitrary: w e)
  case Nil
  then show ?case by (simp add: jobs_of_def)
next
  case (Cons k ids)
  then obtain t where t: "map_of (w_Tasks w) k = Some t" "t_status t = TaskPending"
    by (auto simp: st_def)
  let ?w = "set_st TaskReady {k} w" and ?t = "t\<lparr>t_status := TaskReady\<rparr>"
  from t UpdateTaskStatus_ok [of t TaskReady now e] obtain e1 where
    e1: "UpdateTaskStatus now t TaskReady e = (True, ?t, e1)" "bus_only e e1" by auto
  have step: "mark_loop now (k # ids) w e = mark_loop now ids ?w (pushJob ?t e1)"
    using t e1 put_task_status [OF Cons.prems(1) t(1)] by simp
  have "jobs_of ?w ids = jobs_of w ids"
    using Cons.prems(2,3) by (auto simp: jobs_of_def st_def)
  moreover have "\<forall>j \<in> set ids. st ?w j = Some TaskPending" using Cons.prems(2,3) by auto
  ultimately obtain e' where IH: "mark_loop now ids ?w (pushJob ?t e1) = (set_st TaskReady (set ids) ?w, e')"
      "pushes (jobs_of w ids) (pushJob ?t e1) e'"
    using Cons.IH [of ?w "pushJob ?t e1"] Cons.prems(1,2) by auto
  have "pushes (task_job ?t # jobs_of w ids) e e'"
    using bus_pushes [OF e1(2) pushes_trans [OF pushes_pushJob [of ?t e1] IH(2)]] by simp
  then show ?case using IH t unfolding step by (simp add: set_st_Un jobs_of_def)
qed

definition ready_set :: "Workflow \<Rightarrow> string set" where
  "ready_set w = {k. st w k = Some TaskPending \<and>
     (\<forall>d. (k, d) \<in> dep_rel (w_Tasks w) \<longrightarrow> st w d = Some TaskSucceeded)}"

lemma AllDepsSucceeded_iff:
  "Task_AllDepsSucceeded t w \<longleftrightarrow> (\<forall>d \<in> set (t_DependsOn t). st w d = Some TaskSucceeded)"
  by (auto simp: Task_AllDepsSucceeded_def list_all_iff st_def split: option.splits)

lemma recompute_step:
  assumes "plain w" "ids_are_keys (w_Tasks w)"
  shows "recompute_loop w (k # ks) = (if k \<in> ready_set w then k # recompute_loop w ks else recompute_loop w ks)"
proof (cases "map_of (w_Tasks w) k")
  case None
  then show ?thesis by (simp add: ready_set_def st_def)
next
  case (Some t)
  then have "t_ID t = k" "t_status t \<noteq> TaskRetrying"
    using assms by (auto simp: ids_are_keys_def plain_def st_def dest: spec [of _ k])
  moreover have "(k, d) \<in> dep_rel (w_Tasks w) \<longleftrightarrow> d \<in> set (t_DependsOn t)" for d
    using Some by (simp add: dep_rel_def)
  ultimately show ?thesis
    using Some by (auto simp: Task_IsReady_def AllDepsSucceeded_iff ready_set_def st_def)
qed

lemma recompute_loop_filter:
  "plain w \<Longrightarrow> ids_are_keys (w_Tasks w) \<Longrightarrow> recompute_loop w ks = filter (\<lambda>k. k \<in> ready_set w) ks"
  by (induction ks) (simp_all add: recompute_step del: recompute_loop.simps(2))

lemma recomputeReadyTasks_spec:
  assumes "go_range rng" "gomap_wf (w_Tasks w)" "plain w" "ids_are_keys (w_Tasks w)"
  shows "set (recomputeReadyTasks rng w) = ready_set w" "distinct (recomputeReadyTasks rng w)"
proof -
  have "ready_set w \<subseteq> set (keys (w_Tasks w))"
    by (auto simp: ready_set_def st_def dest: map_of_Some_keys)
  then show "set (recomputeReadyTasks rng w) = ready_set w"
    using go_range.set_rng [OF assms(1)] assms
    by (auto simp: recomputeReadyTasks_def recompute_loop_filter)
  show "distinct (recomputeReadyTasks rng w)"
    using go_range.distinct_rng [OF assms(1)] assms
    by (simp add: recomputeReadyTasks_def recompute_loop_filter gomap_wf_def)
qed

definition run_if_ready :: "Workflow \<Rightarrow> Workflow" where
  "run_if_ready w = (if ready_set w \<noteq> {} \<and> w_status w = WorkflowPending
     then w\<lparr>w_status := WorkflowRunning\<rparr> else w)"

lemma markReadyTasks_spec:
  assumes "go_range rng" "gomap_wf (w_Tasks w)" "plain w" "ids_are_keys (w_Tasks w)"
  shows "\<exists>ids e'. set ids = ready_set w \<and> distinct ids \<and>
    markReadyTasks rng now w e = (set_st TaskReady (ready_set w) (run_if_ready w), e')
    \<and> pushes (jobs_of w ids) e e'"
proof -
  let ?ids = "recomputeReadyTasks rng w"
  note ids = recomputeReadyTasks_spec [OF assms]
  have "\<exists>e1. (if ?ids \<noteq> [] \<and> w_status w = WorkflowPending
                then snd (UpdateWorkflowStatus now w WorkflowRunning e) else (w, e)) = (run_if_ready w, e1)
          \<and> bus_only e e1"
    using ids(1) UpdateWorkflowStatus_ok [of w WorkflowRunning now e]
    by (auto simp: run_if_ready_def)
  then obtain e1 where e1: "(if ?ids \<noteq> [] \<and> w_status w = WorkflowPending
                then snd (UpdateWorkflowStatus now w WorkflowRunning e) else (w, e)) = (run_if_ready w, e1)"
          "bus_only e e1" by blast
  have same: "w_Tasks (run_if_ready w) = w_Tasks w" by (simp add: run_if_ready_def)
  have pend: "\<forall>k \<in> set ?ids. st (run_if_ready w) k = Some TaskPending"
    unfolding ids(1) by (auto simp: st_def same ready_set_def)
  obtain e2 where e2: "mark_loop now ?ids (run_if_ready w) e1 = (set_st TaskReady (set ?ids) (run_if_ready w), e2)"
      "pushes (jobs_of w ?ids) e1 e2"
    using mark_loop_spec [of "run_if_ready w" ?ids now e1] assms(2) ids(2) pend
    by (auto simp: same jobs_of_def)
  from e1(1) e2(1) have "markReadyTasks rng now w e = (set_st TaskReady (ready_set w) (run_if_ready w), e2)"
    by (simp add: markReadyTasks_def Let_def ids(1) del: split_paired_All)
  with bus_pushes [OF e1(2) e2(2)] ids show ?thesis by blast
qed

definition held_by :: "string \<Rightarrow> Workflow \<Rightarrow> string set" where
  "held_by i w = {k. \<exists>t. map_of (w_Tasks w) k = Some t \<and> t_AssignedTo t = i \<and> is_running_status (t_status t)}"

definition reclaim :: "string set \<Rightarrow> Workflow \<Rightarrow> Workflow" where
  "reclaim C = with_tasks (\<lambda>k t. if k \<in> C then t\<lparr>t_AssignedTo := '''', t_status := TaskReady\<rparr> else t)"

lemma reclaim_Un: "reclaim C (reclaim D w) = reclaim (C \<union> D) w"
proof -
  have "(\<lambda>k t. if k \<in> C then (if k \<in> D then t\<lparr>t_AssignedTo := '''', t_status := TaskReady\<rparr> else t)
                 \<lparr>t_AssignedTo := '''', t_status := TaskReady\<rparr>
               else if k \<in> D then t\<lparr>t_AssignedTo := '''', t_status := TaskReady\<rparr> else t)
      = (\<lambda>k t. if k \<in> C \<union> D then t\<lparr>t_AssignedTo := '''', t_status := TaskReady\<rparr> else t)"
    by (intro ext) simp
  then show ?thesis unfolding reclaim_def with_tasks_comp by (rule arg_cong)
qed

lemma reclaim_simps [simp]:
  "keys (w_Tasks (reclaim C w)) = keys (w_Tasks w)"
  "w_ID (reclaim C w) = w_ID w" "w_status (reclaim C w) = w_status w"
  "gomap_wf (w_Tasks (reclaim C w)) = gomap_wf (w_Tasks w)"
  "map_of (w_Tasks (reclaim C w)) k =
     map_option (\<lambda>t. if k \<in> C then t\<lparr>t_AssignedTo := '''', t_status := TaskReady\<rparr> else t) (map_of (w_Tasks w) k)"
  by (simp_all add: reclaim_def)

lemma st_reclaim [simp]:
  "st (reclaim C w) k = (if k \<in> C \<and> st w k \<noteq> None then Some TaskReady else st w k)"
  by (auto simp: st_def map_option_case split: option.splits)

lemma reassign_tasks_spec:
  assumes "gomap_wf (w_Tasks w)" "distinct ks" and C: "C = set ks \<inter> held_by i w"
  shows "\<exists>ids e'. reassign_tasks now i ks w e = (reclaim C w, e') \<and> set ids = C \<and> distinct ids
    \<and> pushes (jobs_of w ids) e e'"
  using assms
proof (induction ks arbitrary: w e C)
  case Nil
  then have "reclaim C w = w" by (simp add: reclaim_def with_tasks_ident)
  with Nil show ?case by (auto simp: jobs_of_def)
next
  case (Cons k ks)
  show ?case
  proof (cases "k \<in> held_by i w")
    case False
    then have "reassign_tasks now i (k # ks) w e = reassign_tasks now i ks w e"
      by (auto simp: held_by_def split: option.splits)
    moreover have "C = set ks \<inter> held_by i w" using Cons.prems(3) False by auto
    ultimately show ?thesis using Cons by simp
  next
    case True
    then obtain t where t: "map_of (w_Tasks w) k = Some t" "t_AssignedTo t = i" "is_running_status (t_status t)"
      by (auto simp: held_by_def)
    let ?w = "reclaim {k} w" and ?C = "set ks \<inter> held_by i w"
    let ?t = "t\<lparr>t_AssignedTo := '''', t_status := TaskReady\<rparr>"
    from t(3) UpdateTaskStatus_ok [of "t\<lparr>t_AssignedTo := ''''\<rparr>" TaskReady now e] obtain e1 where
      e1: "UpdateTaskStatus now (t\<lparr>t_AssignedTo := ''''\<rparr>) TaskReady e = (True, ?t, e1)" "bus_only e e1"
      by (auto simp: is_running_status_def)
    have "put_task k ?t w = ?w"
      using put_task_with_tasks [OF Cons.prems(1) t(1), of "\<lambda>t. t\<lparr>t_AssignedTo := '''', t_status := TaskReady\<rparr>"]
      by (simp add: reclaim_def)
    with t e1 have step: "reassign_tasks now i (k # ks) w e = reassign_tasks now i ks ?w (pushJob ?t e1)"
      by simp
    have C': "?C = set ks \<inter> held_by i ?w" "C = insert k ?C"
      using Cons.prems(2,3) True by (auto simp: held_by_def split: if_splits)
    obtain ids e' where IH: "reassign_tasks now i ks ?w (pushJob ?t e1) = (reclaim ?C ?w, e')"
        "set ids = ?C" "distinct ids" "pushes (jobs_of ?w ids) (pushJob ?t e1) e'"
      using Cons.IH [OF _ _ C'(1), of "pushJob ?t e1"] Cons.prems by auto
    have "k \<notin> ?C" using Cons.prems(2) by simp
    have js: "jobs_of ?w ids = jobs_of w ids"
      unfolding jobs_of_def using IH(2) \<open>k \<notin> ?C\<close>
      by (auto simp: held_by_def)
    have "task_job ?t = task_job t" by (simp add: task_job_def)
    then have "jobs_of w (k # ids) = task_job ?t # jobs_of w ids" using t(1) by (simp add: jobs_of_def)
    then have "pushes (jobs_of w (k # ids)) e e'"
      using bus_pushes [OF e1(2) pushes_trans [OF pushes_pushJob [of ?t e1] IH(4)]] js by simp
    moreover have "set (k # ids) = C" "distinct (k # ids)"
      using IH C'(2) \<open>k \<notin> ?C\<close> by auto
    moreover have "reclaim ?C ?w = reclaim C w"
      unfolding reclaim_Un C'(2) by simp
    ultimately show ?thesis using IH(1) step by metis
  qed
qed

section \<open>The invariant of a workflow\<close>

text \<open>
  \<open>sound_deps\<close>: a task that left PENDING other than by cancellation has only succeeded
  dependencies, and an open task has no failed or cancelled dependency. \<open>settled\<close>: a
  pending task still waits for something. \<open>coherent\<close>: what the workflow status says of
  the tasks.
\<close>

definition started :: "TaskStatus set" where
  "started = {TaskReady, TaskDispatched, TaskRunning, TaskSucceeded, TaskFailed}"

definition open_statuses :: "TaskStatus set" where
  "open_statuses = {TaskPending, TaskReady, TaskDispatched, TaskRunning}"

definition sound_deps :: "(string \<times> string) set \<Rightarrow> (string \<Rightarrow> TaskStatus option) \<Rightarrow> bool" where
  "sound_deps E s \<longleftrightarrow> (\<forall>k d. (k, d) \<in> E \<longrightarrow>
     (s k \<in> Some ` started \<longrightarrow> s d = Some TaskSucceeded)
     \<and> (s k \<in> Some ` open_statuses \<longrightarrow> s d \<notin> {Some TaskFailed, Some TaskCancelled}))"

definition settled :: "(string \<times> string) set \<Rightarrow> (string \<Rightarrow> TaskStatus option) \<Rightarrow> bool" where
  "settled E s \<longleftrightarrow> (\<forall>k. s k = Some TaskPending \<longrightarrow> (\<exists>d. (k, d) \<in> E \<and> s d \<noteq> Some TaskSucceeded))"

definition has_status :: "Workflow \<Rightarrow> TaskStatus set \<Rightarrow> bool" where
  "has_status w S \<longleftrightarrow> (\<exists>k s. st w k = Some s \<and> s \<in> S)"

fun coherent_status :: "WorkflowStatus \<Rightarrow> Workflow \<Rightarrow> bool" where
  "coherent_status WorkflowPending w \<longleftrightarrow> w_Tasks w = []"
| "coherent_status WorkflowRunning w \<longleftrightarrow> has_status w open_statuses"
| "coherent_status WorkflowSucceeded w \<longleftrightarrow> \<not> has_status w (- {TaskSucceeded}) \<and> w_Tasks w \<noteq> []"
| "coherent_status WorkflowFailed w \<longleftrightarrow> \<not> has_status w open_statuses \<and> has_status w {TaskFailed}"
| "coherent_status WorkflowCancelled w \<longleftrightarrow>
     \<not> has_status w open_statuses \<and> (has_status w {TaskCancelled} \<or> w_Tasks w = [])"

definition wf_inv :: "Workflow \<Rightarrow> bool" where
  "wf_inv w \<longleftrightarrow> wf_static w \<and> plain w \<and> sound_deps (dep_rel (w_Tasks w)) (st w)
     \<and> settled (dep_rel (w_Tasks w)) (st w) \<and> coherent_status (w_status w) w"

definition engine_inv :: "'h Engine \<Rightarrow> bool" where
  "engine_inv e \<longleftrightarrow> gomap_wf (e_workflows e)
     \<and> (\<forall>k w. map_of (e_workflows e) k = Some w \<longrightarrow> w_ID w = k \<and> wf_inv w)"

section \<open>Steps of the status map\<close>

text \<open>The lemmas of this section are about the status map and the dependency relation only.\<close>

lemmas status_sets = started_def open_statuses_def

lemma sound_depsD:
  assumes "sound_deps E s" "(k, d) \<in> E"
  shows "s k \<in> Some ` started \<Longrightarrow> s d = Some TaskSucceeded"
    and "s k \<in> Some ` open_statuses \<Longrightarrow> s d \<notin> {Some TaskFailed, Some TaskCancelled}"
  using assms unfolding sound_deps_def by blast+

lemma sound_advance:
  assumes sound: "sound_deps E s" and k: "s k = Some a" "a \<in> {TaskReady, TaskDispatched, TaskRunning}"
    and b: "b \<in> {TaskReady, TaskDispatched, TaskRunning, TaskSucceeded}"
  shows "sound_deps E (s(k := Some b))"
proof -
  have a: "s k \<in> Some ` started" "s k \<noteq> Some TaskSucceeded" using k by (auto simp: status_sets)
  have "(s(k := Some b)) d = Some TaskSucceeded" if "(j, d) \<in> E" "(s(k := Some b)) j \<in> Some ` started" for j d
    using sound_depsD(1) [OF sound that(1)] a that(2) by (auto split: if_splits)
  moreover have "(s(k := Some b)) d \<notin> {Some TaskFailed, Some TaskCancelled}"
    if "(j, d) \<in> E" "(s(k := Some b)) j \<in> Some ` open_statuses" for j d
    using sound_depsD [OF sound that(1)] a that(2) b by (auto split: if_splits)
  ultimately show ?thesis unfolding sound_deps_def by blast
qed

lemma settled_advance:
  "settled E s \<Longrightarrow> b \<noteq> TaskPending \<Longrightarrow> b \<noteq> TaskSucceeded \<Longrightarrow> settled E (s(k := Some b))"
  unfolding settled_def by (auto split: if_splits)

lemma sound_mark:
  assumes sound: "sound_deps E s"
    and R: "R = {k. s k = Some TaskPending \<and> (\<forall>d. (k, d) \<in> E \<longrightarrow> s d = Some TaskSucceeded)}"
  shows "sound_deps E (\<lambda>k. if k \<in> R then Some TaskReady else s k)"
    and "settled E (\<lambda>k. if k \<in> R then Some TaskReady else s k)"
proof -
  have R_not: "d \<notin> R" if "s d = Some TaskSucceeded" for d using that R by auto
  show "sound_deps E (\<lambda>k. if k \<in> R then Some TaskReady else s k)"
    unfolding sound_deps_def
  proof (intro allI impI conjI)
    fix k d assume kd: "(k, d) \<in> E"
    show "(if d \<in> R then Some TaskReady else s d) = Some TaskSucceeded"
      if "(if k \<in> R then Some TaskReady else s k) \<in> Some ` started"
    proof -
      have "s d = Some TaskSucceeded"
        using that kd sound_depsD(1) [OF sound kd] R by (auto split: if_splits)
      with R_not show ?thesis by auto
    qed
    show "(if d \<in> R then Some TaskReady else s d) \<notin> {Some TaskFailed, Some TaskCancelled}"
      if "(if k \<in> R then Some TaskReady else s k) \<in> Some ` open_statuses"
      using that kd sound_depsD(2) [OF sound kd] R by (auto split: if_splits simp: status_sets)
  qed
  show "settled E (\<lambda>k. if k \<in> R then Some TaskReady else s k)"
    unfolding settled_def using R by (auto split: if_splits)
qed

text \<open>
  The dependents of a task that has not succeeded are pending or cancelled: when such a task
  fails or is cancelled, the open ones among them are exactly the pending ones, and a chain
  of open tasks leads from each of them to it.
\<close>

definition plain_st :: "(string \<Rightarrow> TaskStatus option) \<Rightarrow> bool" where
  "plain_st s \<longleftrightarrow> (\<forall>k. s k \<notin> {Some TaskRetrying, Some TaskStatusUnknown})"

lemma plain_st_iff: "plain w \<longleftrightarrow> plain_st (st w)"
  by (auto simp: plain_def plain_st_def)

lemma status_split:
  "plain_st s \<Longrightarrow> s k = None \<or> s k = Some TaskPending \<or> s k = Some TaskCancelled \<or> s k \<in> Some ` started"
  unfolding plain_st_def started_def by (cases "s k"; cases "the (s k)") (auto dest: spec [of _ k])

lemma dependents_wait:
  assumes "(k, r) \<in> E\<^sup>+" and sound: "sound_deps E s" and plain: "plain_st s"
    and dom: "\<And>k d. (k, d) \<in> E \<Longrightarrow> s k \<noteq> None"
    and not_done: "s r \<noteq> Some TaskSucceeded"
  shows "s k \<in> {Some TaskPending, Some TaskCancelled}"
  using assms(1)
proof (induction rule: converse_trancl_induct)
  case (base y)
  then show ?case using sound_depsD(1) [OF sound] not_done dom status_split [OF plain, of y] by blast
next
  case (step y z)
  then show ?case using sound_depsD(1) [OF sound step(1)] dom [OF step(1)] status_split [OF plain, of y] by auto
qed

lemma pending_chain:
  assumes "(k, r) \<in> E\<^sup>+" and sound: "sound_deps E s0" and plain: "plain_st s0"
    and dom: "\<And>k d. (k, d) \<in> E \<Longrightarrow> s0 k \<noteq> None"
    and s0: "s0 = s(r := Some a)" "a \<noteq> TaskSucceeded" and acyc: "acyclic E" and k: "s k = Some TaskPending"
  shows "(k, r) \<in> {(x, y) \<in> E. s x = Some TaskPending}\<^sup>+"
  using assms(1) k
proof (induction rule: converse_trancl_induct)
  case (base y)
  then show ?case by auto
next
  case (step y z)
  have not_r: "y \<noteq> r" "z \<noteq> r" using step(1,2) acyc by (auto simp: acyclic_def dest: trancl_into_trancl2)
  have "s0 z \<in> {Some TaskPending, Some TaskCancelled}"
    using dependents_wait [OF step(2) sound plain dom] s0 by simp
  with sound_depsD(2) [OF sound step(1)] step(4) not_r s0 have "s z = Some TaskPending"
    by (auto simp: status_sets)
  with step have "(z, r) \<in> {(x, y) \<in> E. s x = Some TaskPending}\<^sup>+" by blast
  with step(1,4) show ?case by (auto intro: trancl_into_trancl2)
qed

lemma sound_kill:
  assumes sound: "sound_deps E s0" and s0: "s0 = s(r := Some a)" and b: "s r = Some b"
    and ab: "a \<in> open_statuses" "b = TaskCancelled \<or> b = TaskFailed \<and> a \<noteq> TaskPending"
    and D: "D = {k. (k, r) \<in> {(x, y) \<in> E. s x = Some TaskPending}\<^sup>+}"
  shows "sound_deps E (\<lambda>k. if k \<in> D then Some TaskCancelled else s k)"
  unfolding sound_deps_def
proof (intro allI impI conjI)
  fix k d assume kd: "(k, d) \<in> E"
  have D_pending: "s x = Some TaskPending" if "x \<in> D" for x
    using that D by (auto elim: converse_tranclE)
  have r_open: "s0 r \<in> Some ` open_statuses" using ab s0 by auto
  show "(if d \<in> D then Some TaskCancelled else s d) = Some TaskSucceeded"
    if "(if k \<in> D then Some TaskCancelled else s k) \<in> Some ` started"
  proof -
    from that have k: "k \<notin> D" "s k \<in> Some ` started" by (auto simp: status_sets split: if_splits)
    then have "s0 k \<in> Some ` started" using ab b s0 by (auto simp: status_sets)
    from sound_depsD(1) [OF sound kd this] have d: "s0 d = Some TaskSucceeded" .
    with r_open s0 have "d \<noteq> r" by (auto simp: status_sets)
    with d s0 D_pending show ?thesis by auto
  qed
  show "(if d \<in> D then Some TaskCancelled else s d) \<notin> {Some TaskFailed, Some TaskCancelled}"
    if "(if k \<in> D then Some TaskCancelled else s k) \<in> Some ` open_statuses"
  proof
    from that have k: "k \<notin> D" "s k \<in> Some ` open_statuses" by (auto simp: status_sets split: if_splits)
    then have "k \<noteq> r" using b ab by (auto simp: status_sets)
    with k s0 have sk: "s0 k = s k" by simp
    note d = sound_depsD [OF sound kd]
    assume "(if d \<in> D then Some TaskCancelled else s d) \<in> {Some TaskFailed, Some TaskCancelled}"
    with d(2) sk k s0 have dD: "d = r \<or> d \<in> D" by (auto split: if_splits)
    have "s0 d \<noteq> Some TaskSucceeded"
      using dD r_open D_pending s0 by (auto simp: status_sets)
    with d(1) sk k have "s k = Some TaskPending" by (auto simp: status_sets)
    with dD kd D have "k \<in> D" by (auto intro: trancl_into_trancl2)
    with k show False by simp
  qed
qed

lemma settled_kill:
  assumes "settled E s0" and "s0 = s(r := Some a)" and "s r = Some b"
    and "b \<noteq> TaskPending" "b \<noteq> TaskSucceeded"
  shows "settled E (\<lambda>k. if k \<in> D then Some TaskCancelled else s k)"
  unfolding settled_def
proof (intro allI impI)
  fix k assume "(if k \<in> D then Some TaskCancelled else s k) = Some TaskPending"
  with assms have "s0 k = Some TaskPending" by (auto split: if_splits)
  with assms(1) obtain d where "(k, d) \<in> E" "s0 d \<noteq> Some TaskSucceeded" unfolding settled_def by blast
  with assms show "\<exists>d. (k, d) \<in> E \<and> (if d \<in> D then Some TaskCancelled else s d) \<noteq> Some TaskSucceeded"
    by (intro exI [of _ d]) (auto split: if_splits)
qed

lemma sound_cancel_all:
  assumes sound: "sound_deps E s" and C: "C = {k. s k \<in> Some ` open_statuses}"
  shows "sound_deps E (\<lambda>k. if k \<in> C then Some TaskCancelled else s k)"
    and "settled E (\<lambda>k. if k \<in> C then Some TaskCancelled else s k)"
proof -
  show "sound_deps E (\<lambda>k. if k \<in> C then Some TaskCancelled else s k)"
    unfolding sound_deps_def
  proof (intro allI impI conjI)
    fix k d assume kd: "(k, d) \<in> E"
    show "(if d \<in> C then Some TaskCancelled else s d) = Some TaskSucceeded"
      if "(if k \<in> C then Some TaskCancelled else s k) \<in> Some ` started"
      using that sound_depsD(1) [OF sound kd] C by (auto simp: status_sets split: if_splits)
    show "(if d \<in> C then Some TaskCancelled else s d) \<notin> {Some TaskFailed, Some TaskCancelled}"
      if "(if k \<in> C then Some TaskCancelled else s k) \<in> Some ` open_statuses"
      using that C by (auto simp: status_sets split: if_splits)
  qed
  show "settled E (\<lambda>k. if k \<in> C then Some TaskCancelled else s k)"
    unfolding settled_def using C by (auto simp: status_sets split: if_splits)
qed

lemma sound_reclaim:
  assumes sound: "sound_deps E s" and C: "\<forall>k \<in> C. s k \<in> {Some TaskDispatched, Some TaskRunning}"
  shows "sound_deps E (\<lambda>k. if k \<in> C then Some TaskReady else s k)"
    and "settled E s \<Longrightarrow> settled E (\<lambda>k. if k \<in> C then Some TaskReady else s k)"
proof -
  show "sound_deps E (\<lambda>k. if k \<in> C then Some TaskReady else s k)"
    unfolding sound_deps_def
  proof (intro allI impI conjI)
    fix k d assume kd: "(k, d) \<in> E"
    show "(if d \<in> C then Some TaskReady else s d) = Some TaskSucceeded"
      if "(if k \<in> C then Some TaskReady else s k) \<in> Some ` started"
    proof -
      have "s k \<in> Some ` started" using that C by (cases "k \<in> C") (auto simp: status_sets)
      from sound_depsD(1) [OF sound kd this] C show ?thesis by force
    qed
    show "(if d \<in> C then Some TaskReady else s d) \<notin> {Some TaskFailed, Some TaskCancelled}"
      if "(if k \<in> C then Some TaskReady else s k) \<in> Some ` open_statuses"
      using that sound_depsD(2) [OF sound kd] C by (auto simp: status_sets split: if_splits)
  qed
  show "settled E (\<lambda>k. if k \<in> C then Some TaskReady else s k)" if "settled E s"
    using that C unfolding settled_def by (auto split: if_splits)
qed

text \<open>An open task always leads to one that a worker or the scheduler is responsible for.\<close>

lemma not_stuck:
  assumes fin: "finite E" and acyc: "acyclic E" and plain: "plain_st s" and sound: "sound_deps E s"
    and settled: "settled E s" and dom: "\<And>k d. (k, d) \<in> E \<Longrightarrow> s d \<noteq> None"
    and k: "s k \<in> Some ` open_statuses"
  shows "\<exists>j. s j \<in> {Some TaskReady, Some TaskDispatched, Some TaskRunning}"
proof -
  have "wf (E\<inverse>)" using finite_acyclic_wf_converse [OF fin acyc] .
  then show ?thesis using k
  proof (induction k rule: wf_induct_rule)
    case (less k)
    show ?case
    proof (cases "s k = Some TaskPending")
      case False
      with less.prems show ?thesis by (auto simp: open_statuses_def)
    next
      case True
      then obtain d where d: "(k, d) \<in> E" "s d \<noteq> Some TaskSucceeded"
        using settled unfolding settled_def by blast
      then have "s d \<in> Some ` open_statuses"
        using sound_depsD(2) [OF sound d(1) less.prems] dom [OF d(1)] status_split [OF plain, of d]
        by (auto simp: status_sets)
      with less.IH [of d] d show ?thesis by simp
    qed
  qed
qed

end
