(* ===== verification/Engine_Correct.thy ===== *)
theory Engine_Correct
  imports Engine_Inv
begin

text \<open>
  The engine keeps \<open>engine_inv\<close>, and each of its operations implements an abstract
  operation on the map from task IDs to statuses: \<open>spec_report\<close> (a worker's report),
  \<open>spec_ready\<close> (readiness), \<open>spec_cancel\<close> (one task and what depends on it) and
  \<open>spec_status\<close> (the status of the workflow).
\<close>

section \<open>Abstract operations\<close>

type_synonym statuses = "string \<Rightarrow> TaskStatus option"

definition spec_ready :: "(string \<times> string) set \<Rightarrow> statuses \<Rightarrow> statuses" where
  "spec_ready E s = (\<lambda>k. if s k = Some TaskPending \<and> (\<forall>d. (k, d) \<in> E \<longrightarrow> s d = Some TaskSucceeded)
                         then Some TaskReady else s k)"

definition spec_cancel :: "(string \<times> string) set \<Rightarrow> string \<Rightarrow> statuses \<Rightarrow> statuses" where
  "spec_cancel E i s = (\<lambda>k. if (k, i) \<in> E\<^sup>+ \<and> s k = Some TaskPending then Some TaskCancelled else s k)"

definition spec_report :: "(string \<times> string) set \<Rightarrow> string \<Rightarrow> TaskStatus \<Rightarrow> statuses \<Rightarrow> statuses" where
  "spec_report E i b s =
     (case s i of
        None \<Rightarrow> s
      | Some a \<Rightarrow>
          if b \<in> {TaskRunning, TaskSucceeded, TaskFailed} \<and> taskStatusesGraph a b
          then (if b = TaskFailed then spec_cancel E i (s(i := Some b)) else s(i := Some b))
          else s)"

definition spec_status :: "statuses \<Rightarrow> WorkflowStatus" where
  "spec_status s =
     (if \<exists>k. s k \<in> Some ` open_statuses then WorkflowRunning
      else if \<exists>k. s k = Some TaskFailed then WorkflowFailed
      else if \<exists>k. s k = Some TaskCancelled then WorkflowCancelled
      else WorkflowSucceeded)"

section \<open>Static structure\<close>

definition keeps_shape :: "(string \<Rightarrow> Task \<Rightarrow> Task) \<Rightarrow> bool" where
  "keeps_shape f \<longleftrightarrow> (\<forall>k t. t_ID (f k t) = t_ID t \<and> t_WorkflowID (f k t) = t_WorkflowID t \<and> t_Name (f k t) = t_Name t
     \<and> t_DependsOn (f k t) = t_DependsOn t \<and> t_Spec (f k t) = t_Spec t \<and> t_Timeout (f k t) = t_Timeout t)"

lemma dep_rel_with_tasks: "keeps_shape f \<Longrightarrow> dep_rel (w_Tasks (with_tasks f w)) = dep_rel (w_Tasks w)"
  unfolding dep_rel_def keeps_shape_def by auto

lemma wf_static_with_tasks: "keeps_shape f \<Longrightarrow> wf_static w \<Longrightarrow> wf_static (with_tasks f w)"
  unfolding wf_static_def
  by (auto simp: dep_rel_with_tasks deps_closed_def ids_are_keys_def keeps_shape_def)

lemma keeps_shape_set_st [simp]: "keeps_shape (\<lambda>k t. if k \<in> C then t\<lparr>t_status := s\<rparr> else t)"
  by (simp add: keeps_shape_def)

lemma wf_static_set_st [simp]: "wf_static w \<Longrightarrow> wf_static (set_st s C w)"
  by (simp add: set_st_def wf_static_with_tasks)

lemma wf_static_reclaim [simp]: "wf_static w \<Longrightarrow> wf_static (reclaim C w)"
  by (simp add: reclaim_def wf_static_with_tasks keeps_shape_def)

lemma dep_rel_reclaim [simp]: "dep_rel (w_Tasks (reclaim C w)) = dep_rel (w_Tasks w)"
  by (simp add: reclaim_def dep_rel_with_tasks keeps_shape_def)

lemma wf_static_status [simp]: "wf_static (w\<lparr>w_status := s\<rparr>) = wf_static w"
  by (simp add: wf_static_def)

lemma st_status [simp]: "st (w\<lparr>w_status := s\<rparr>) = st w"
  by (simp add: st_def fun_eq_iff)

definition evolves :: "Workflow \<Rightarrow> Workflow \<Rightarrow> bool" where
  "evolves w w' \<longleftrightarrow> w_ID w' = w_ID w \<and> w_Name w' = w_Name w \<and> (\<exists>f. keeps_shape f \<and> w_Tasks w' = w_Tasks (with_tasks f w))"

lemma evolves_with_tasks: "keeps_shape f \<Longrightarrow> evolves w (with_tasks f w)"
  unfolding evolves_def by auto

lemma evolves_set_st [simp]: "evolves w (set_st s C w)"
  unfolding set_st_def by (rule evolves_with_tasks) simp

lemma evolves_reclaim [simp]: "evolves w (reclaim C w)"
  unfolding reclaim_def by (rule evolves_with_tasks) (simp add: keeps_shape_def)

lemma evolves_status [simp]: "evolves w (w'\<lparr>w_status := s\<rparr>) = evolves w w'"
  by (simp add: evolves_def)

lemma evolves_refl [simp]: "evolves w w"
proof -
  have "with_tasks (\<lambda>k t. t) w = w" by (simp add: with_tasks_def)
  then show ?thesis using evolves_with_tasks [of "\<lambda>k t. t" w] by (simp add: keeps_shape_def)
qed

lemma evolves_trans: "evolves w w' \<Longrightarrow> evolves w' w'' \<Longrightarrow> evolves w w''"
proof -
  assume "evolves w w'" "evolves w' w''"
  then obtain f g where "keeps_shape f" "w_Tasks w' = w_Tasks (with_tasks f w)" "w_ID w' = w_ID w" "w_Name w' = w_Name w"
    "keeps_shape g" "w_Tasks w'' = w_Tasks (with_tasks g w')" "w_ID w'' = w_ID w'" "w_Name w'' = w_Name w'"
    unfolding evolves_def by blast
  moreover from this have "keeps_shape (\<lambda>k t. g k (f k t))" by (simp add: keeps_shape_def)
  moreover have "w_Tasks (with_tasks g w') = w_Tasks (with_tasks (\<lambda>k t. g k (f k t)) w)"
    using calculation by (simp add: with_tasks_def comp_def case_prod_beta)
  ultimately show "evolves w w''" unfolding evolves_def by auto
qed

lemma evolvesD:
  assumes "evolves w w'"
  shows "dep_rel (w_Tasks w') = dep_rel (w_Tasks w)" "keys (w_Tasks w') = keys (w_Tasks w)"
    "w_ID w' = w_ID w" "jobs_of w' ids = jobs_of w ids" "wf_static w \<Longrightarrow> wf_static w'"
    "w_Tasks w' = [] \<longleftrightarrow> w_Tasks w = []"
proof -
  obtain f where f: "keeps_shape f" "w_Tasks w' = w_Tasks (with_tasks f w)" and id: "w_ID w' = w_ID w"
    using assms unfolding evolves_def by blast
  show "dep_rel (w_Tasks w') = dep_rel (w_Tasks w)" "keys (w_Tasks w') = keys (w_Tasks w)" "w_ID w' = w_ID w"
    "w_Tasks w' = [] \<longleftrightarrow> w_Tasks w = []"
    using f id dep_rel_with_tasks [OF f(1)] by (simp_all add: with_tasks_def comp_def case_prod_beta)
  have "wf_static w \<Longrightarrow> wf_static (with_tasks f w)" using wf_static_with_tasks [OF f(1)] .
  then show "wf_static w \<Longrightarrow> wf_static w'" using f(2) id by (simp add: wf_static_def)
  have "task_job (f k t) = task_job t" for k t using f(1) by (simp add: keeps_shape_def task_job_def)
  then have "task_job (the (map_option (f k) x)) = task_job (the x)" if "x \<noteq> None" for k x using that by auto
  moreover have "map_option (f k) x = x" if "x = None" for k x using that by simp
  ultimately have "task_job (the (map_option (f k) x)) = task_job (the x)" for k x by metis
  then show "jobs_of w' ids = jobs_of w ids" using f(2) by (simp add: jobs_of_def)
qed

lemma wf_staticD:
  assumes "wf_static w"
  shows "gomap_wf (w_Tasks w)" "ids_are_keys (w_Tasks w)" "acyclic (dep_rel (w_Tasks w))"
    "finite (dep_rel (w_Tasks w))" "\<And>k d. (k, d) \<in> dep_rel (w_Tasks w) \<Longrightarrow> st w k \<noteq> None"
    "\<And>k d. (k, d) \<in> dep_rel (w_Tasks w) \<Longrightarrow> st w d \<noteq> None"
proof -
  show "gomap_wf (w_Tasks w)" "ids_are_keys (w_Tasks w)" "acyclic (dep_rel (w_Tasks w))"
    using assms by (simp_all add: wf_static_def)
  show st1: "st w k \<noteq> None" if "(k, d) \<in> dep_rel (w_Tasks w)" for k d
    using that by (auto simp: dep_rel_def st_def)
  show st2: "st w d \<noteq> None" if "(k, d) \<in> dep_rel (w_Tasks w)" for k d
  proof -
    have "d \<in> set (keys (w_Tasks w))" using that assms by (auto simp: wf_static_def deps_closed_def)
    from keys_map_of_Some [OF this] show ?thesis by (auto simp: st_def)
  qed
  have "dep_rel (w_Tasks w) \<subseteq> set (keys (w_Tasks w)) \<times> set (keys (w_Tasks w))"
    using st1 st2 by (force simp: st_def dest: map_of_Some_keys)
  then show "finite (dep_rel (w_Tasks w))" by (rule finite_subset) simp
qed

lemma Tasks_Nil_iff: "w_Tasks w = [] \<longleftrightarrow> (\<forall>k. st w k = None)"
proof
  assume "\<forall>k. st w k = None"
  then have "set (keys (w_Tasks w)) = {}" unfolding st_def by (metis keys_map_of_Some map_option_is_None option.distinct(1) equals0I)
  then show "w_Tasks w = []" by simp
qed (simp add: st_def)

lemma has_status_iff: "has_status w S \<longleftrightarrow> (\<exists>k. st w k \<in> Some ` S)"
  by (auto simp: has_status_def)

lemma has_statusI: "st w k = Some s \<Longrightarrow> s \<in> S \<Longrightarrow> has_status w S"
  by (auto simp: has_status_def)

lemma coherent_cong: "st w' = st w \<Longrightarrow> coherent_status s w' = coherent_status s w"
  by (cases s) (simp_all add: has_status_iff Tasks_Nil_iff)

lemma coherent_status_field [simp]: "coherent_status s (w\<lparr>w_status := s'\<rparr>) = coherent_status s w"
  by (rule coherent_cong) simp

lemma plain_status_field [simp]: "plain (w\<lparr>w_status := s\<rparr>) = plain w"
  by (simp add: plain_def)

text \<open>The loops over all tasks of \<^verbatim>\<open>workflow.go\<close>, in terms of the status map.\<close>

lemma task_loops:
  assumes "gomap_wf (w_Tasks w)" "plain w"
  shows "Workflow_AllTasksFinished w \<longleftrightarrow> \<not> has_status w open_statuses"
    and "Workflow_HasFailedTask w \<longleftrightarrow> has_status w {TaskFailed}"
    and "Workflow_HasCancelledTask w \<longleftrightarrow> has_status w {TaskCancelled}"
proof -
  have fin: "Task_IsFinished t \<longleftrightarrow> t_status t \<notin> open_statuses" if "map_of (w_Tasks w) k = Some t" for k t
    using assms(2) that unfolding plain_def st_def Task_IsFinished_def open_statuses_def
    by (cases "t_status t") (auto dest: spec [of _ k])
  have "Workflow_AllTasksFinished w \<longleftrightarrow> (\<forall>k t. map_of (w_Tasks w) k = Some t \<longrightarrow> Task_IsFinished t)"
    using gomap_all_iff [OF assms(1), of Task_IsFinished]
    by (simp add: Workflow_AllTasksFinished_def list_all_iff)
  also have "\<dots> \<longleftrightarrow> (\<forall>k t. map_of (w_Tasks w) k = Some t \<longrightarrow> t_status t \<notin> open_statuses)"
    using fin by blast
  finally show "Workflow_AllTasksFinished w \<longleftrightarrow> \<not> has_status w open_statuses"
    by (auto simp: has_status_def st_def)
  show "Workflow_HasFailedTask w \<longleftrightarrow> has_status w {TaskFailed}"
    using gomap_ex_iff [OF assms(1), of "\<lambda>t. t_status t = TaskFailed"]
    by (auto simp: Workflow_HasFailedTask_def list_ex_iff has_status_def st_def)
  show "Workflow_HasCancelledTask w \<longleftrightarrow> has_status w {TaskCancelled}"
    using gomap_ex_iff [OF assms(1), of "\<lambda>t. t_status t = TaskCancelled"]
    by (auto simp: Workflow_HasCancelledTask_def list_ex_iff has_status_def st_def)
qed

section \<open>Readiness and finalisation\<close>

lemma finalize_running:
  assumes "gomap_wf (w_Tasks w)" "plain w" "w_status w = WorkflowRunning"
  shows "\<exists>e'. finalizeWorkflowIfDone now w e = (w\<lparr>w_status := spec_status (st w)\<rparr>, e') \<and> bus_only e e'"
proof (cases "has_status w open_statuses")
  case True
  then have "w\<lparr>w_status := spec_status (st w)\<rparr> = w"
    using assms(3) by (simp add: spec_status_def has_status_iff)
  with True show ?thesis by (simp add: finalizeWorkflowIfDone_def task_loops [OF assms(1,2)])
next
  case False
  let ?s = "spec_status (st w)"
  have "?s = (if has_status w {TaskFailed} then WorkflowFailed
               else if has_status w {TaskCancelled} then WorkflowCancelled else WorkflowSucceeded)"
    using False by (simp add: spec_status_def has_status_iff)
  moreover then have "workflowStatusesGraph (w_status w) ?s" using assms(3) by simp
  ultimately show ?thesis
    using False assms(3) UpdateWorkflowStatus_ok [of w ?s now e]
    by (auto simp: finalizeWorkflowIfDone_def Workflow_IsFinished_def task_loops [OF assms(1,2)])
qed

lemma finalize_finished: "Workflow_IsFinished w \<Longrightarrow> finalizeWorkflowIfDone now w e = (w, e)"
  by (simp add: finalizeWorkflowIfDone_def)

lemma ready_set_iff:
  "ready_set w = {k. st w k = Some TaskPending \<and>
     (\<forall>d. (k, d) \<in> dep_rel (w_Tasks w) \<longrightarrow> st w d = Some TaskSucceeded)}"
  by (simp add: ready_set_def)

lemma st_ready: "st (set_st TaskReady (ready_set w) w) = spec_ready (dep_rel (w_Tasks w)) (st w)"
  by (auto simp: fun_eq_iff spec_ready_def ready_set_def)

lemma spec_status_coherent:
  assumes "plain w" "w_Tasks w \<noteq> []"
  shows "coherent_status (spec_status (st w)) w"
proof -
  have "st w k \<in> {None, Some TaskSucceeded, Some TaskFailed, Some TaskCancelled} \<or> st w k \<in> Some ` open_statuses" for k
    using status_split [of "st w" k] assms(1) by (auto simp: plain_st_iff status_sets)
  then show ?thesis
    using assms(2) by (auto simp: spec_status_def has_status_iff) (metis option.distinct(1) option.inject)
qed

text \<open>
  What remains of a workflow's invariant when a task has just changed: the workflow is
  running, or nothing changed at all.
\<close>

definition dirty_inv :: "Workflow \<Rightarrow> bool" where
  "dirty_inv w \<longleftrightarrow> wf_static w \<and> plain w \<and> sound_deps (dep_rel (w_Tasks w)) (st w)
     \<and> w_Tasks w \<noteq> [] \<and> (w_status w = WorkflowRunning \<or> wf_inv w)"

lemma plain_ready: "plain w \<Longrightarrow> plain (set_st TaskReady C w)"
  by (rule plain_set_st) auto

lemma terminal_coherent:
  "wf_inv w \<Longrightarrow> w_Tasks w \<noteq> [] \<Longrightarrow> w_status w \<noteq> WorkflowRunning \<Longrightarrow>
   Workflow_IsFinished w \<and> (\<forall>k. st w k \<notin> Some ` open_statuses)"
  unfolding wf_inv_def
  by (cases "w_status w") (auto simp: Workflow_IsFinished_def has_status_iff status_sets)

definition closing_status :: "Workflow \<Rightarrow> WorkflowStatus" where
  "closing_status w = (if w_status w = WorkflowRunning then spec_status (st w) else w_status w)"

lemma wf_inv_marked:
  assumes "dirty_inv w"
  shows "let w' = set_st TaskReady (ready_set w) w in wf_inv (w'\<lparr>w_status := closing_status w'\<rparr>)"
proof (cases "w_status w = WorkflowRunning")
  case True
  let ?w = "set_st TaskReady (ready_set w) w"
  have "\<not> w_Tasks ?w = []" using assms by (simp add: dirty_inv_def set_st_def with_tasks_def)
  then have "coherent_status (spec_status (st ?w)) ?w"
    using assms by (intro spec_status_coherent) (simp_all add: dirty_inv_def plain_ready)
  moreover have "sound_deps (dep_rel (w_Tasks w)) (st ?w)" "settled (dep_rel (w_Tasks w)) (st ?w)"
    using assms sound_mark [of "dep_rel (w_Tasks w)" "st w", OF _ refl]
    by (simp_all add: st_ready spec_ready_def dirty_inv_def cong: if_cong)
  ultimately show ?thesis
    using assms True
    by (simp add: wf_inv_def dirty_inv_def plain_ready closing_status_def Let_def)
next
  case False
  with assms have inv: "wf_inv w" and "ready_set w = {}"
    using terminal_coherent [of w] by (auto simp: dirty_inv_def ready_set_def status_sets)
  then have "set_st TaskReady (ready_set w) w = w" using inv by (simp add: wf_inv_def wf_static_def)
  with inv False show ?thesis by (simp add: closing_status_def Let_def)
qed

lemma mark_finalize:
  assumes rng: "go_range rng" and inv: "dirty_inv w"
  shows "\<exists>ids e'. (case markReadyTasks rng now w e of (w', e1) \<Rightarrow> finalizeWorkflowIfDone now w' e1)
      = (let w' = set_st TaskReady (ready_set w) w in (w'\<lparr>w_status := closing_status w'\<rparr>, e'))
    \<and> set ids = ready_set w \<and> distinct ids \<and> pushes (jobs_of w ids) e e'"
proof -
  note static = wf_staticD [of w]
  have w: "wf_static w" "plain w" using inv by (simp_all add: dirty_inv_def)
  from markReadyTasks_spec [OF rng static(1) [OF w(1)] w(2) static(2) [OF w(1)], of now e]
  obtain ids e1 where mark: "set ids = ready_set w" "distinct ids"
    "markReadyTasks rng now w e = (set_st TaskReady (ready_set w) (run_if_ready w), e1)"
    "pushes (jobs_of w ids) e e1" by blast
  have run: "run_if_ready w = w"
    using inv by (auto simp: run_if_ready_def dirty_inv_def wf_inv_def)
  let ?w = "set_st TaskReady (ready_set w) w"
  have "\<exists>e2. finalizeWorkflowIfDone now ?w e1 = (?w\<lparr>w_status := closing_status ?w\<rparr>, e2) \<and> bus_only e1 e2"
  proof (cases "w_status w = WorkflowRunning")
    case True
    then show ?thesis
      using finalize_running [of ?w now e1] static(1) [OF w(1)] plain_ready [OF w(2)]
      by (simp add: closing_status_def)
  next
    case False
    with inv have "Workflow_IsFinished ?w"
      using terminal_coherent [of w] by (auto simp: dirty_inv_def Workflow_IsFinished_def)
    with False show ?thesis by (auto simp: finalize_finished closing_status_def)
  qed
  with mark run pushes_bus [OF mark(4)] show ?thesis by (fastforce simp: Let_def)
qed

section \<open>A worker's report\<close>

lemma open_task_iff: "plain w \<Longrightarrow> open_task w k \<longleftrightarrow> st w k \<in> Some ` open_statuses"
  unfolding plain_def open_task_def st_def Task_IsFinished_def open_statuses_def
  by (cases "map_of (w_Tasks w) k"; cases "t_status (the (map_of (w_Tasks w) k))") (auto dest: spec [of _ k])

text \<open>
  When an open task fails or is cancelled, the search from it reaches exactly the pending
  tasks among those that depend on it.
\<close>

lemma downstream_set:
  assumes w: "wf_static w" "plain w" and sound: "sound_deps (dep_rel (w_Tasks w)) s0"
    and s0: "s0 = (st w)(r := Some a)" "a \<in> open_statuses" and b: "st w r \<in> {Some TaskFailed, Some TaskCancelled}"
  shows "{k. (k, r) \<in> (open_deps w)\<^sup>+} = {k. (k, r) \<in> (dep_rel (w_Tasks w))\<^sup>+ \<and> st w k = Some TaskPending}"
    and "{k. (k, r) \<in> {(x, y) \<in> dep_rel (w_Tasks w). st w x = Some TaskPending}\<^sup>+}
       = {k. (k, r) \<in> (dep_rel (w_Tasks w))\<^sup>+ \<and> st w k = Some TaskPending}"
proof -
  let ?E = "dep_rel (w_Tasks w)"
  let ?P = "{(x, y) \<in> ?E. st w x = Some TaskPending}"
  have plain0: "plain_st s0" using w(2) s0 by (auto simp: plain_st_def plain_st_iff status_sets)
  have dom: "s0 k \<noteq> None" if "(k, d) \<in> ?E" for k d using wf_staticD(5) [OF w(1) that] s0 by auto
  have a: "a \<noteq> TaskSucceeded" using s0(2) by (auto simp: open_statuses_def)
  have chain: "(k, r) \<in> ?P\<^sup>+" if "(k, r) \<in> ?E\<^sup>+" "st w k = Some TaskPending" for k
    using pending_chain [OF that(1) sound plain0 dom s0(1) a wf_staticD(3) [OF w(1)] that(2)] .
  have PO: "?P \<subseteq> open_deps w"
    by (auto simp: open_deps_def open_task_iff [OF w(2)] open_statuses_def)
  have OE: "(k, r) \<in> ?E\<^sup>+ \<and> st w k = Some TaskPending" if "(k, r) \<in> (open_deps w)\<^sup>+" for k
  proof -
    have E: "(k, r) \<in> ?E\<^sup>+" using trancl_mono [OF that] by (auto simp: open_deps_def)
    have "open_task w k" using that by (auto simp: open_deps_def elim: converse_tranclE)
    then have "st w k \<in> Some ` open_statuses" using open_task_iff [OF w(2)] by simp
    moreover have "s0 k \<in> {Some TaskPending, Some TaskCancelled}"
      using dependents_wait [OF E sound plain0 dom] s0(1) a by simp
    moreover have "k \<noteq> r" using calculation(1) b by (auto simp: open_statuses_def)
    ultimately show ?thesis using E s0(1) by (auto simp: open_statuses_def)
  qed
  show "{k. (k, r) \<in> (open_deps w)\<^sup>+} = {k. (k, r) \<in> ?E\<^sup>+ \<and> st w k = Some TaskPending}"
    using OE chain trancl_mono [OF _ PO] by blast
  show "{k. (k, r) \<in> ?P\<^sup>+} = {k. (k, r) \<in> ?E\<^sup>+ \<and> st w k = Some TaskPending}"
    using OE chain trancl_mono [OF _ PO] by blast
qed

lemma refs_of_pending: "\<forall>k \<in> C. st w k = Some TaskPending \<Longrightarrow> refs_of w C = {}"
  by (force simp: refs_of_def running_ref_def is_running_status_def st_def)

text \<open>The common part of a failed report and of \<^verbatim>\<open>CancelTask\<close>.\<close>

lemma kill_task:
  assumes rng: "go_range rng" and w: "wf_static w" "plain w"
    and sound: "sound_deps (dep_rel (w_Tasks w)) s0"
    and s0: "s0 = (st w)(r := Some a)" "a \<in> open_statuses"
    and b: "st w r = Some b" "b = TaskCancelled \<or> b = TaskFailed \<and> a \<noteq> TaskPending"
  shows "\<exists>w' e'. cancelDownstream rng now w r e = ([], w', e') \<and> bus_only e e' \<and> evolves w w'
    \<and> w_status w' = w_status w \<and> plain w' \<and> map_of (w_Tasks w') r = map_of (w_Tasks w) r
    \<and> st w' = spec_cancel (dep_rel (w_Tasks w)) r (st w)
    \<and> sound_deps (dep_rel (w_Tasks w)) (st w')
    \<and> (settled (dep_rel (w_Tasks w)) s0 \<longrightarrow> settled (dep_rel (w_Tasks w)) (st w'))"
proof -
  let ?D = "{k. (k, r) \<in> (dep_rel (w_Tasks w))\<^sup>+ \<and> st w k = Some TaskPending}"
  let ?w = "set_st TaskCancelled ?D w"
  have rb: "st w r \<in> {Some TaskFailed, Some TaskCancelled}" using b by auto
  note D = downstream_set [OF w sound s0 rb]
  have st': "st ?w = (\<lambda>k. if k \<in> ?D then Some TaskCancelled else st w k)"
    by (auto simp: fun_eq_iff)
  from cancelDownstream_spec [OF rng wf_staticD(1,2) [OF w(1)] w(2), of now r e]
  obtain running e' where "cancelDownstream rng now w r e = (running, ?w, e')" "bus_only e e'"
    "set running = refs_of w ?D"
    unfolding D(1) by blast
  moreover have "refs_of w ?D = {}" by (rule refs_of_pending) simp
  ultimately have "cancelDownstream rng now w r e = ([], ?w, e')" "bus_only e e'" by simp_all
  moreover have "sound_deps (dep_rel (w_Tasks w)) (st ?w)"
    unfolding st' using sound_kill [OF sound s0(1) b(1) s0(2) b(2) D(2) [symmetric]] .
  moreover have "settled (dep_rel (w_Tasks w)) s0 \<Longrightarrow> settled (dep_rel (w_Tasks w)) (st ?w)"
    unfolding st' using settled_kill [OF _ s0(1) b(1)] b(2) by blast
  moreover have "st ?w = spec_cancel (dep_rel (w_Tasks w)) r (st w)"
    by (auto simp: spec_cancel_def fun_eq_iff)
  moreover have "plain ?w" using w(2) by (rule plain_set_st) simp
  moreover have "map_of (w_Tasks ?w) r = map_of (w_Tasks w) r"
    using b by (auto simp: option.map_ident)
  ultimately show ?thesis by (intro exI [of _ ?w] exI [of _ e']) simp
qed

definition apply_report ::
  "rng \<Rightarrow> int \<Rightarrow> string \<Rightarrow> Task \<Rightarrow> TaskResult \<Rightarrow> Workflow \<Rightarrow> 'h Engine \<Rightarrow> Workflow \<times> 'h Engine" where
  "apply_report rng now taskID task result w e =
     (if tr_Status result = TaskFailed \<or> tr_Status result = TaskSucceeded then
        (case UpdateTaskStatus now task (tr_Status result) e of
           (ok, task', e') \<Rightarrow>
             if \<not> ok then (w, e')
             else (let w' = put_task taskID (Task_SetResult task' result) w
                   in if tr_Status result = TaskFailed
                      then snd (cancelDownstream rng now w' (t_ID task') e')
                      else (w', e')))
      else if tr_Status result = TaskRunning then
        (case UpdateTaskStatus now task TaskRunning e of
           (ok, task', e') \<Rightarrow> (put_task taskID task' w, e'))
      else (w, e))"

lemma OnTaskResponse_unfold:
  "map_of (e_workflows e) wid = Some w \<Longrightarrow> map_of (w_Tasks w) tid = Some t \<Longrightarrow>
   OnTaskResponse rng now wid tid r e =
     (case apply_report rng now tid t r w e of
        (w1, e1) \<Rightarrow> (case (case markReadyTasks rng now w1 e1 of (w', e2) \<Rightarrow> finalizeWorkflowIfDone now w' e2) of
                       (w3, e3) \<Rightarrow> (None, put_workflow wid w3 e3)))"
  by (simp add: OnTaskResponse_def apply_report_def Let_def case_prod_beta)

lemma report_rejected:
  assumes "map_of (w_Tasks w) tid = Some t"
    and "\<not> (tr_Status r \<in> {TaskRunning, TaskSucceeded, TaskFailed} \<and> taskStatusesGraph (t_status t) (tr_Status r))"
  shows "apply_report rng now tid t r w e = (w, e)" "spec_report E tid (tr_Status r) (st w) = st w"
  using assms UpdateTaskStatus_no [of t "tr_Status r" now e]
  by (auto simp: apply_report_def put_task_same spec_report_def st_def)

definition stored :: "TaskResult \<Rightarrow> Task \<Rightarrow> Task" where
  "stored r t = (if tr_Status r = TaskRunning then t\<lparr>t_status := TaskRunning\<rparr>
                 else t\<lparr>t_status := tr_Status r, t_result := Some r\<rparr>)"

lemma stored_status: "t_status (stored r t) = tr_Status r"
  by (simp add: stored_def)

lemma report_accepted:
  assumes rng: "go_range rng" and inv: "wf_inv w" and t: "map_of (w_Tasks w) tid = Some t"
    and r: "tr_Status r \<in> {TaskRunning, TaskSucceeded, TaskFailed}" "taskStatusesGraph (t_status t) (tr_Status r)"
  shows "\<exists>w' e'. apply_report rng now tid t r w e = (w', e') \<and> bus_only e e' \<and> evolves w w' \<and> dirty_inv w'
    \<and> w_status w' = w_status w \<and> st w' = spec_report (dep_rel (w_Tasks w)) tid (tr_Status r) (st w)
    \<and> map_of (w_Tasks w') tid = Some (stored r t)"
proof -
  let ?b = "tr_Status r" and ?E = "dep_rel (w_Tasks w)"
  let ?w1 = "with_tasks (\<lambda>k t. if k = tid then stored r t else t) w"
  have w: "wf_static w" "plain w" "sound_deps ?E (st w)" "settled ?E (st w)" using inv by (simp_all add: wf_inv_def)
  have wf: "gomap_wf (w_Tasks w)" and id: "t_ID t = tid"
    using wf_staticD(1,2) [OF w(1)] t by (auto simp: ids_are_keys_def)
  have a: "st w tid = Some (t_status t)" using t by (simp add: st_def)
  have a_open: "t_status t \<in> {TaskDispatched, TaskRunning}"
    using r w(2) a by (cases "t_status t") (auto simp: plain_def dest: spec [of _ tid])
  have shape: "keeps_shape (\<lambda>k t. if k = tid then stored r t else t)"
    by (simp add: keeps_shape_def stored_def)
  have ev: "evolves w ?w1" using evolves_with_tasks [OF shape] .
  have st1: "st ?w1 = (st w)(tid := Some ?b)"
    using t by (auto simp: st_def fun_eq_iff stored_status option.map_ident)
  have running: "w_status w = WorkflowRunning" "w_Tasks w \<noteq> []"
    using terminal_coherent [OF inv] a a_open t by (force simp: open_statuses_def)+
  have plain1: "plain ?w1" using w(2) r by (auto simp: plain_def st1)
  from UpdateTaskStatus_ok [OF r(2), of now e] obtain e1 where
    e1: "UpdateTaskStatus now t ?b e = (True, t\<lparr>t_status := ?b\<rparr>, e1)" "bus_only e e1" by blast
  have put: "put_task tid (stored r t) w = ?w1"
    using put_task_with_tasks [OF wf t, of "stored r"] by simp
  show ?thesis
  proof (cases "?b = TaskFailed")
    case False
    have "apply_report rng now tid t r w e = (?w1, e1)"
      using e1 put r(1) False by (auto simp: apply_report_def Task_SetResult_def stored_def)
    moreover have "sound_deps ?E (st ?w1)"
      unfolding st1 using sound_advance [OF w(3) a, of ?b] a_open r(1) False by auto
    moreover have "st ?w1 = spec_report ?E tid ?b (st w)"
      using a r False by (simp add: spec_report_def st1)
    ultimately show ?thesis
      using ev e1(2) plain1 running w(1) evolvesD(1,5,6) [OF ev] t
      by (intro exI [of _ ?w1] exI [of _ e1]) (simp add: dirty_inv_def)
  next
    case True
    have step: "apply_report rng now tid t r w e = snd (cancelDownstream rng now ?w1 tid e1)"
      using e1 put True id by (simp add: apply_report_def Task_SetResult_def stored_def)
    have s0: "st w = (st ?w1)(tid := Some (t_status t))" using a by (auto simp: st1 fun_eq_iff)
    have b: "st ?w1 tid = Some TaskFailed" using True by (simp add: st1)
    have "t_status t \<in> open_statuses" "t_status t \<noteq> TaskPending"
      using a_open by (auto simp: open_statuses_def)
    with kill_task [OF rng _ plain1 _ s0 _ b, of now e1] evolvesD(1) [OF ev] evolvesD(5) [OF ev w(1)] w(3)
    obtain w2 e2 where k: "cancelDownstream rng now ?w1 tid e1 = ([], w2, e2)" "bus_only e1 e2" "evolves ?w1 w2"
      "w_status w2 = w_status ?w1" "plain w2" "st w2 = spec_cancel ?E tid (st ?w1)" "sound_deps ?E (st w2)"
      "map_of (w_Tasks w2) tid = map_of (w_Tasks ?w1) tid"
      by auto
    have ev2: "evolves w w2" using evolves_trans [OF ev k(3)] .
    have "st w2 = spec_report ?E tid ?b (st w)"
      using a r True by (simp add: spec_report_def st1 k(6))
    moreover have "dirty_inv w2"
      using k running evolvesD(1,5,6) [OF ev2] w(1) by (simp add: dirty_inv_def)
    moreover have "map_of (w_Tasks w2) tid = Some (stored r t)" using k(8) t by simp
    ultimately show ?thesis using step k ev2 bus_only_trans [OF e1(2) k(2)] by (intro exI [of _ w2] exI [of _ e2]) simp
  qed
qed

lemma spec_report_pending: "spec_report E i b s k = Some TaskPending \<Longrightarrow> s k = Some TaskPending"
  by (auto simp: spec_report_def spec_cancel_def split: option.splits if_splits)

lemma newly_ready:
  assumes "st w1 = spec_report E i b (st w)" "E = dep_rel (w_Tasks w1)"
  shows "ready_set w1 = {k. st w k = Some TaskPending \<and> spec_ready E (st w1) k = Some TaskReady}"
proof -
  have "spec_report E i b (st w) k \<noteq> Some TaskReady" if "st w k = Some TaskPending" for k
    using that by (auto simp: spec_report_def spec_cancel_def split: option.splits if_splits)
  then show ?thesis
    using assms spec_report_pending [of E i b "st w"] by (auto simp: ready_set_def spec_ready_def split: if_splits)
qed

lemma dirty_clean: "wf_inv w \<Longrightarrow> w_Tasks w \<noteq> [] \<Longrightarrow> dirty_inv w"
  by (simp add: dirty_inv_def wf_inv_def)

lemma OnTaskResponse_char:
  assumes rng: "go_range rng" and inv: "wf_inv w"
    and w: "map_of (e_workflows e) wid = Some w" and t: "map_of (w_Tasks w) tid = Some t"
    and E: "E = dep_rel (w_Tasks w)"
  shows "\<exists>w' ids e'. OnTaskResponse rng now wid tid r e = (None, put_workflow wid w' e')
    \<and> wf_inv w' \<and> evolves w w'
    \<and> st w' = spec_ready E (spec_report E tid (tr_Status r) (st w))
    \<and> w_status w' = (if w_status w = WorkflowRunning then spec_status (st w') else w_status w)
    \<and> set ids = {k. st w k = Some TaskPending \<and> st w' k = Some TaskReady} \<and> distinct ids
    \<and> pushes (jobs_of w ids) e e'
    \<and> map_of (w_Tasks w') tid = Some
        (if tr_Status r \<in> {TaskRunning, TaskSucceeded, TaskFailed} \<and> taskStatusesGraph (t_status t) (tr_Status r)
         then stored r t else t)"
proof -
  let ?ok = "tr_Status r \<in> {TaskRunning, TaskSucceeded, TaskFailed} \<and> taskStatusesGraph (t_status t) (tr_Status r)"
  have nonempty: "w_Tasks w \<noteq> []" using t by auto
  have "\<exists>w1 e1. apply_report rng now tid t r w e = (w1, e1) \<and> bus_only e e1 \<and> evolves w w1 \<and> dirty_inv w1
    \<and> w_status w1 = w_status w \<and> st w1 = spec_report E tid (tr_Status r) (st w)
    \<and> map_of (w_Tasks w1) tid = Some (if ?ok then stored r t else t)"
  proof (cases ?ok)
    case True
    then show ?thesis using report_accepted [OF rng inv t, of r now e] E by auto
  next
    case False
    then show ?thesis using report_rejected(1) [OF t False, of rng now e] report_rejected(2) [OF t False, of E]
        dirty_clean [OF inv nonempty] t by (intro exI [of _ w] exI [of _ e]) auto
  qed
  then obtain w1 e1 where 1: "apply_report rng now tid t r w e = (w1, e1)" "bus_only e e1" "evolves w w1"
    "dirty_inv w1" "w_status w1 = w_status w" "st w1 = spec_report E tid (tr_Status r) (st w)"
    "map_of (w_Tasks w1) tid = Some (if ?ok then stored r t else t)" by blast
  have E1: "E = dep_rel (w_Tasks w1)" using evolvesD(1) [OF 1(3)] E by simp
  let ?w2 = "set_st TaskReady (ready_set w1) w1"
  let ?w' = "?w2\<lparr>w_status := closing_status ?w2\<rparr>"
  from mark_finalize [OF rng 1(4), of now e1] obtain ids e2 where
    2: "(case markReadyTasks rng now w1 e1 of (w', e1) \<Rightarrow> finalizeWorkflowIfDone now w' e1) = (?w', e2)"
    "set ids = ready_set w1" "distinct ids" "pushes (jobs_of w1 ids) e1 e2" by (auto simp: Let_def)
  have res: "OnTaskResponse rng now wid tid r e = (None, put_workflow wid ?w' e2)"
    unfolding OnTaskResponse_unfold [OF w t] 1(1) using 2(1) by simp
  have ev: "evolves w ?w'" using evolves_trans [OF 1(3)] by simp
  have st': "st ?w' = spec_ready E (st w1)" using st_ready [of w1] E1 by simp
  have tid: "tid \<notin> ready_set w1"
  proof (cases ?ok)
    case True
    then have "st w1 tid \<noteq> Some TaskPending" using 1(7) by (auto simp: st_def stored_status)
    then show ?thesis by (simp add: ready_set_def)
  next
    case False
    then have "st w1 = st w" using 1(6) report_rejected(2) [OF t False] by simp
    then show ?thesis using inv E E1 by (auto simp: ready_set_def wf_inv_def settled_def)
  qed
  have "wf_inv ?w'" using wf_inv_marked [OF 1(4)] by (simp add: Let_def)
  moreover have "set ids = {k. st w k = Some TaskPending \<and> st ?w' k = Some TaskReady}"
    using 2(2) newly_ready [OF 1(6) E1] st' by simp
  moreover have "pushes (jobs_of w ids) e e2"
    using bus_pushes [OF 1(2) 2(4)] evolvesD(4) [OF 1(3)] by simp
  moreover have "map_of (w_Tasks ?w') tid = Some (if ?ok then stored r t else t)"
    using tid 1(7) by simp
  moreover have "w_status ?w' = (if w_status w = WorkflowRunning then spec_status (st ?w') else w_status w)"
    using 1(5) by (simp add: closing_status_def)
  moreover have "st ?w' = spec_ready E (spec_report E tid (tr_Status r) (st w))"
    unfolding st' 1(6) ..
  ultimately show ?thesis using res ev 2(3) by blast
qed

section \<open>Submission\<close>

text \<open>A fresh workflow: well formed, pending, all tasks pending.\<close>

definition fresh_workflow :: "Workflow \<Rightarrow> bool" where
  "fresh_workflow w \<longleftrightarrow> wf_static w \<and> w_status w = WorkflowPending
     \<and> (\<forall>k. st w k \<in> {None, Some TaskPending})"

lemma fresh_ready: 
  assumes "fresh_workflow w"
  shows "ready_set w = {k. st w k \<noteq> None \<and> (\<forall>d. (k, d) \<notin> dep_rel (w_Tasks w))}"
proof -
  have "st w k \<noteq> Some TaskSucceeded" "st w k \<noteq> None \<longrightarrow> st w k = Some TaskPending" for k
    using assms by (auto simp: fresh_workflow_def dest: spec [of _ k])
  then show ?thesis by (auto simp: ready_set_def)
qed

text \<open>An acyclic graph of tasks has a task without dependencies.\<close>

lemma fresh_has_root:
  assumes "fresh_workflow w" "w_Tasks w \<noteq> []"
  shows "ready_set w \<noteq> {}"
proof -
  let ?E = "dep_rel (w_Tasks w)"
  have w: "wf_static w" using assms(1) by (simp add: fresh_workflow_def)
  obtain k0 where k0: "st w k0 \<noteq> None" using assms(2) Tasks_Nil_iff by blast
  have "wf (?E\<inverse>)" using finite_acyclic_wf_converse [OF wf_staticD(4,3) [OF w]] .
  then have "st w k \<noteq> None \<Longrightarrow> \<exists>j. j \<in> ready_set w" for k
  proof (induction k rule: wf_induct_rule)
    case (less k)
    show ?case
    proof (cases "\<exists>d. (k, d) \<in> ?E")
      case True
      then show ?thesis using less.IH wf_staticD(6) [OF w] by blast
    next
      case False
      with less.prems show ?thesis by (auto simp: fresh_ready [OF assms(1)])
    qed
  qed
  with k0 show ?thesis by blast
qed

lemma SubmitWorkflow_char:
  assumes rng: "go_range rng" and fresh: "fresh_workflow w"
  shows "\<exists>w' ids e'. SubmitWorkflow rng now w e = (w_ID w, put_workflow (w_ID w) w' e')
    \<and> wf_inv w' \<and> evolves w w' \<and> st w' = spec_ready (dep_rel (w_Tasks w)) (st w)
    \<and> w_status w' = (if w_Tasks w = [] then WorkflowPending else WorkflowRunning)
    \<and> set ids = ready_set w \<and> distinct ids
    \<and> pushes (jobs_of w ids) (put_workflow (w_ID w) w e) e'"
proof -
  let ?E = "dep_rel (w_Tasks w)" and ?e = "put_workflow (w_ID w) w e"
  have w: "wf_static w" and pend: "st w k \<in> {None, Some TaskPending}" "w_status w = WorkflowPending" for k
    using fresh by (auto simp: fresh_workflow_def)
  have plain: "plain w" unfolding plain_def
  proof
    show "st w k \<noteq> Some TaskRetrying \<and> st w k \<noteq> Some TaskStatusUnknown" for k using pend(1) [of k] by auto
  qed
  from markReadyTasks_spec [OF rng wf_staticD(1) [OF w] plain wf_staticD(2) [OF w], of now ?e]
  obtain ids e' where m: "set ids = ready_set w" "distinct ids"
    "markReadyTasks rng now w ?e = (set_st TaskReady (ready_set w) (run_if_ready w), e')"
    "pushes (jobs_of w ids) ?e e'" by blast
  let ?w' = "set_st TaskReady (ready_set w) (run_if_ready w)"
  have same: "w_Tasks (run_if_ready w) = w_Tasks w" "w_ID (run_if_ready w) = w_ID w"
    by (simp_all add: run_if_ready_def)
  have ev: "evolves w ?w'"
    using evolves_trans [of w "run_if_ready w" ?w'] by (simp add: run_if_ready_def)
  have st_run: "st (run_if_ready w) = st w" by (simp add: st_def fun_eq_iff same)
  have st': "st ?w' = spec_ready ?E (st w)"
    by (auto simp: fun_eq_iff spec_ready_def ready_set_def st_run)
  have sound: "sound_deps ?E (st w)" unfolding sound_deps_def
  proof (intro allI impI conjI)
    fix k d assume "(k, d) \<in> ?E"
    show "st w k \<in> Some ` started \<Longrightarrow> st w d = Some TaskSucceeded" using pend(1) [of k] by (auto simp: started_def)
    show "st w d \<notin> {Some TaskFailed, Some TaskCancelled}" using pend(1) [of d] by auto
  qed
  have "sound_deps ?E (st ?w')" "settled ?E (st ?w')"
    using sound_mark [OF sound refl] unfolding st' spec_ready_def by (simp_all cong: if_cong)
  moreover have status: "w_status ?w' = (if w_Tasks w = [] then WorkflowPending else WorkflowRunning)"
    using fresh_has_root [OF fresh] pend(2) Tasks_Nil_iff [of w]
    by (auto simp: run_if_ready_def ready_set_def)
  moreover have "coherent_status (w_status ?w') ?w'"
  proof (cases "w_Tasks w = []")
    case False
    with fresh_has_root [OF fresh] obtain k where "k \<in> ready_set w" by blast
    then have "st ?w' k = Some TaskReady" by (simp add: st_run ready_set_def)
    then have "has_status ?w' open_statuses" by (rule has_statusI) (simp add: open_statuses_def)
    with False show ?thesis unfolding status by simp
  next
    case True
    then show ?thesis unfolding status using evolvesD(6) [OF ev] by simp
  qed
  moreover have "plain ?w'" using plain_ready [of "run_if_ready w"] plain by (simp add: plain_def st_run)
  ultimately have "wf_inv ?w'" using evolvesD(1,5) [OF ev] w by (simp add: wf_inv_def)
  moreover have "SubmitWorkflow rng now w e = (w_ID w, put_workflow (w_ID w) ?w' e')"
    using m(3) by (simp add: SubmitWorkflow_def Let_def)
  ultimately show ?thesis using ev st' status m by blast
qed

section \<open>Dispatch, cancellation and reassignment\<close>

lemma coherent_open:
  assumes "wf_inv w" "st w k \<in> Some ` open_statuses"
  shows "w_status w = WorkflowRunning"
proof -
  have "w_Tasks w \<noteq> []" using assms(2) by (auto simp: st_def)
  then show ?thesis using terminal_coherent [OF assms(1)] assms(2) by blast
qed

text \<open>A change that keeps an open task open keeps the workflow running.\<close>

lemma wf_inv_still_running:
  assumes "wf_inv w" "evolves w w'" "w_status w' = WorkflowRunning" "plain w'"
    and "sound_deps (dep_rel (w_Tasks w)) (st w')" "settled (dep_rel (w_Tasks w)) (st w')"
    and "st w' k \<in> Some ` open_statuses"
  shows "wf_inv w'"
  using assms evolvesD(1,5) [OF assms(2)] by (auto simp: wf_inv_def has_status_iff)

definition dispatched_to :: "string \<Rightarrow> Task \<Rightarrow> Task" where
  "dispatched_to i t = t\<lparr>t_AssignedTo := i, t_status := (if t_status t = TaskReady then TaskDispatched else t_status t)\<rparr>"

lemma OnTaskDispatched_char:
  assumes inv: "wf_inv w" and w: "map_of (e_workflows e) (fst p) = Some w"
    and t: "map_of (w_Tasks w) (snd p) = Some t"
  shows "\<exists>w' e'. OnTaskDispatched now p i e = put_workflow (fst p) w' e' \<and> bus_only e e'
    \<and> wf_inv w' \<and> evolves w w' \<and> w_status w' = w_status w
    \<and> w' = with_tasks (\<lambda>k t. if k = snd p then dispatched_to i t else t) w"
proof -
  let ?k = "snd p" and ?E = "dep_rel (w_Tasks w)"
  let ?w = "with_tasks (\<lambda>k t. if k = ?k then dispatched_to i t else t) w"
  have s: "wf_static w" "plain w" "sound_deps ?E (st w)" "settled ?E (st w)"
    using inv by (simp_all add: wf_inv_def)
  have ev: "evolves w ?w" by (rule evolves_with_tasks) (simp add: keeps_shape_def dispatched_to_def)
  have stw: "st ?w = (if t_status t = TaskReady then (st w)(?k := Some TaskDispatched) else st w)"
  proof
    show "st ?w x = (if t_status t = TaskReady then (st w)(?k := Some TaskDispatched) else st w) x" for x
      using t by (cases "x = ?k") (simp_all add: st_def dispatched_to_def option.map_ident)
  qed
  have put: "put_task ?k (dispatched_to i t) w = ?w"
    using put_task_with_tasks [OF wf_staticD(1) [OF s(1)] t, of "dispatched_to i"] by simp
  have graph: "taskStatusesGraph (t_status t) TaskDispatched \<longleftrightarrow> t_status t = TaskReady"
    using s(2) t by (cases "t_status t") (auto simp: plain_def st_def dest: spec [of _ ?k])
  have "\<exists>e'. OnTaskDispatched now p i e = put_workflow (fst p) ?w e' \<and> bus_only e e'"
  proof (cases "t_status t = TaskReady")
    case True
    then have "dispatched_to i t = t\<lparr>t_AssignedTo := i, t_status := TaskDispatched\<rparr>" by (simp add: dispatched_to_def)
    with True w t put UpdateTaskStatus_ok [of "t\<lparr>t_AssignedTo := i\<rparr>" TaskDispatched now e] show ?thesis
      by (auto simp: OnTaskDispatched_def)
  next
    case False
    then have "dispatched_to i t = t\<lparr>t_AssignedTo := i\<rparr>" by (simp add: dispatched_to_def)
    with False w t put graph UpdateTaskStatus_no [of "t\<lparr>t_AssignedTo := i\<rparr>" TaskDispatched now e] show ?thesis
      by (auto simp: OnTaskDispatched_def)
  qed
  moreover have "wf_inv ?w"
  proof (cases "t_status t = TaskReady")
    case True
    then have k: "st w ?k = Some TaskReady" using t by (simp add: st_def)
    then have "w_status w = WorkflowRunning" using coherent_open [OF inv, of ?k] by (simp add: open_statuses_def)
    then show ?thesis
      using True s(2) sound_advance [OF s(3) k, of TaskDispatched] settled_advance [OF s(4), of TaskDispatched ?k]
      by (intro wf_inv_still_running [OF inv ev, of ?k]) (auto simp: stw plain_def open_statuses_def)
  next
    case False
    then have "st ?w = st w" by (simp add: stw)
    then show ?thesis
      using inv evolvesD(1,5) [OF ev] coherent_cong [of ?w w] by (simp add: wf_inv_def plain_def)
  qed
  ultimately show ?thesis using ev by auto
qed

lemma find_loop_Some:
  "find_loop ws tid ks = Some (k, w, t) \<Longrightarrow> map_of ws k = Some w \<and> map_of (w_Tasks w) tid = Some t"
  by (induction ks) (auto split: option.splits)

lemma find_loop_None:
  "find_loop ws tid ks = None \<longleftrightarrow> (\<forall>k \<in> set ks. \<forall>w. map_of ws k = Some w \<longrightarrow> map_of (w_Tasks w) tid = None)"
  by (induction ks) (auto split: option.splits)

lemma findTask_Some:
  "findTask rng tid e = Some (k, w, t) \<Longrightarrow>
   map_of (e_workflows e) k = Some w \<and> map_of (w_Tasks w) tid = Some t"
  unfolding findTask_def by (rule find_loop_Some)

lemma findTask_None:
  assumes "go_range rng"
  shows "findTask rng tid e = None \<longleftrightarrow>
    (\<forall>k w. map_of (e_workflows e) k = Some w \<longrightarrow> map_of (w_Tasks w) tid = None)"
  unfolding findTask_def find_loop_None go_range.set_rng [OF assms]
  by (blast dest: map_of_Some_keys)

lemma CancelTask_char:
  assumes rng: "go_range rng" and inv: "wf_inv w" and f: "findTask rng tid e = Some (k, w, t)"
    and open_t: "\<not> Task_IsFinished t" and E: "E = dep_rel (w_Tasks w)"
  shows "\<exists>w' e'. CancelTask rng now tid e
      = (None, notifyWorkersOfCancellation (running_ref t) (put_workflow k w' e'))
    \<and> bus_only e e' \<and> wf_inv w' \<and> evolves w w'
    \<and> st w' = spec_cancel E tid ((st w)(tid := Some TaskCancelled)) \<and> w_status w' = spec_status (st w')"
proof -
  note w = conjunct1 [OF findTask_Some [OF f]] and t = conjunct2 [OF findTask_Some [OF f]]
  have s: "wf_static w" "plain w" "sound_deps E (st w)" "settled E (st w)"
    using inv by (simp_all add: wf_inv_def E)
  have id: "t_ID t = tid" using wf_staticD(2) [OF s(1)] t by (simp add: ids_are_keys_def)
  have a: "st w tid = Some (t_status t)" "t_status t \<in> open_statuses"
    using open_task_iff [OF s(2), of tid] t open_t by (auto simp: st_def open_task_def)
  have running: "w_status w = WorkflowRunning" "w_Tasks w \<noteq> []"
    using coherent_open [OF inv, of tid] a t by auto
  let ?w1 = "set_st TaskCancelled {tid} w"
  from UpdateTaskStatus_ok [OF plain_cancel [OF s(2) t open_t], of now e] obtain e1 where
    e1: "UpdateTaskStatus now t TaskCancelled e = (True, t\<lparr>t_status := TaskCancelled\<rparr>, e1)" "bus_only e e1"
    by blast
  have st1: "st ?w1 = (st w)(tid := Some TaskCancelled)" using a by (auto simp: fun_eq_iff)
  have s0: "st w = (st ?w1)(tid := Some (t_status t))" using a by (auto simp: fun_eq_iff)
  have p1: "plain ?w1" by (rule plain_set_st [OF s(2)]) simp
  from kill_task [OF rng wf_static_set_st [OF s(1)] p1 _ s0 a(2), of TaskCancelled now e1] s(3,4) st1
  obtain w2 e2 where k: "cancelDownstream rng now ?w1 tid e1 = ([], w2, e2)" "bus_only e1 e2" "evolves ?w1 w2"
      "w_status w2 = w_status w" "plain w2" "st w2 = spec_cancel E tid (st ?w1)" "sound_deps E (st w2)"
      "settled E (st w2)"
    by (auto simp: E)
  have ev: "evolves w w2" using evolves_trans [OF evolves_set_st k(3)] .
  from finalize_running [OF _ k(5), of now e2] evolvesD(5) [OF ev s(1)] k(4) running(1) obtain e3 where
    f3: "finalizeWorkflowIfDone now w2 e2 = (w2\<lparr>w_status := spec_status (st w2)\<rparr>, e3)" "bus_only e2 e3"
    using wf_staticD(1) by metis
  let ?w' = "w2\<lparr>w_status := spec_status (st w2)\<rparr>"
  have "CancelTask rng now tid e = (None, notifyWorkersOfCancellation (running_ref t) (put_workflow k ?w' e3))"
    using f open_t e1 k(1) f3(1) id put_task_status [OF wf_staticD(1) [OF s(1)] t]
    by (simp add: CancelTask_def)
  moreover have "wf_inv ?w'"
    using k spec_status_coherent [OF k(5)] evolvesD(1,5,6) [OF ev] s(1) running(2)
    by (simp add: wf_inv_def E)
  moreover have "bus_only e e3" using bus_only_trans [OF bus_only_trans [OF e1(2) k(2)] f3(2)] .
  ultimately show ?thesis using ev k(6) st1 by (intro exI [of _ ?w'] exI [of _ e3]) simp
qed

lemma CancelWorkflow_char:
  assumes rng: "go_range rng" and inv: "wf_inv w" and w: "map_of (e_workflows e) wid = Some w"
  shows "\<exists>w' running e'. CancelWorkflow rng now wid e
      = (None, notifyWorkersOfCancellation running (put_workflow wid w' e'))
    \<and> bus_only e e' \<and> wf_inv w' \<and> evolves w w'
    \<and> st w' = (\<lambda>k. if st w k \<in> Some ` open_statuses then Some TaskCancelled else st w k)
    \<and> w_status w' = (if w_status w \<in> {WorkflowPending, WorkflowRunning} then WorkflowCancelled else w_status w)
    \<and> set running = refs_of w {k. st w k \<in> Some ` open_statuses}"
proof -
  let ?E = "dep_rel (w_Tasks w)" and ?C = "{k. st w k \<in> Some ` open_statuses}"
  let ?w1 = "set_st TaskCancelled ?C w"
  have s: "wf_static w" "plain w" "sound_deps ?E (st w)" "coherent_status (w_status w) w"
    using inv by (simp_all add: wf_inv_def)
  have C: "?C = {k \<in> set (rng 0 (keys (w_Tasks w))). open_task w k}"
    unfolding go_range.set_rng [OF rng] open_task_iff [OF s(2)]
    by (auto simp: st_def dest: map_of_Some_keys)
  have "distinct (rng 0 (keys (w_Tasks w)))"
    using wf_staticD(1) [OF s(1)] go_range.distinct_rng [OF rng] by (simp add: gomap_wf_def)
  from cancel_all_spec [OF wf_staticD(1) [OF s(1)] s(2) this C, of now "[]" e]
  obtain running e1 where ca: "cancel_all now (rng 0 (keys (w_Tasks w))) [] w e = (running, ?w1, e1)"
    "bus_only e e1" "set running = refs_of w ?C" by auto
  let ?s = "if w_status w \<in> {WorkflowPending, WorkflowRunning} then WorkflowCancelled else w_status w"
  let ?w' = "?w1\<lparr>w_status := ?s\<rparr>"
  have "\<exists>b e2. UpdateWorkflowStatus now ?w1 WorkflowCancelled e1 = (b, ?w', e2) \<and> bus_only e1 e2"
  proof (cases "w_status w \<in> {WorkflowPending, WorkflowRunning}")
    case True
    then have "workflowStatusesGraph (w_status ?w1) WorkflowCancelled" by auto
    from UpdateWorkflowStatus_ok [OF this, of now e1] True show ?thesis by auto
  next
    case False
    then have "\<not> workflowStatusesGraph (w_status ?w1) WorkflowCancelled" by (cases "w_status w") auto
    moreover have "?w' = ?w1" using False by simp
    ultimately show ?thesis using UpdateWorkflowStatus_no [of ?w1 WorkflowCancelled now e1] by auto
  qed
  then obtain b e2 where u: "UpdateWorkflowStatus now ?w1 WorkflowCancelled e1 = (b, ?w', e2)" "bus_only e1 e2" by blast
  have st1: "st ?w1 = (\<lambda>k. if k \<in> ?C then Some TaskCancelled else st w k)" by (auto simp: fun_eq_iff)
  note sc = sound_cancel_all [OF s(3) refl, folded st1]
  have none_open: "\<not> has_status ?w1 open_statuses"
    unfolding has_status_iff st1 by (auto simp: open_statuses_def split: if_splits)
  have "coherent_status ?s ?w1"
  proof (cases "w_status w \<in> {WorkflowPending, WorkflowRunning}")
    case False
    then have "?C = {}" using s(4) by (cases "w_status w") (auto simp: has_status_iff open_statuses_def)
    then have "?w1 = w" using wf_staticD(1) [OF s(1)] by simp
    then show ?thesis using False s(4) by simp
  next
    case True
    have "has_status ?w1 {TaskCancelled} \<or> w_Tasks ?w1 = []"
    proof (cases "w_status w = WorkflowRunning")
      case True
      then obtain k where "k \<in> ?C" using s(4) by (auto simp: has_status_iff)
      then have "st ?w1 k = Some TaskCancelled" unfolding st1 by (simp only: if_True)
      then show ?thesis by (blast intro: has_statusI)
    next
      case False
      with True s(4) show ?thesis by (simp add: set_st_def with_tasks_def)
    qed
    with True none_open show ?thesis by simp
  qed
  then have "wf_inv ?w'"
    using sc s(1) plain_set_st [OF s(2), of TaskCancelled ?C] by (simp add: wf_inv_def)
  moreover have "CancelWorkflow rng now wid e = (None, notifyWorkersOfCancellation running (put_workflow wid ?w' e2))"
    using w ca(1) u(1) by (simp add: CancelWorkflow_def)
  ultimately show ?thesis
    using st1 ca(3) bus_only_trans [OF ca(2) u(2)]
    by (intro exI [of _ ?w'] exI [of _ running] exI [of _ e2]) (simp cong: if_cong)
qed

text \<open>Reassignment: one workflow, then all of them.\<close>

lemma wf_inv_reclaim:
  assumes inv: "wf_inv w"
  shows "wf_inv (reclaim (held_by i w) w)"
proof (cases "held_by i w = {}")
  case True
  then show ?thesis using inv by (simp add: reclaim_def with_tasks_ident wf_inv_def wf_static_def)
next
  case False
  let ?E = "dep_rel (w_Tasks w)" and ?C = "held_by i w"
  have s: "wf_static w" "plain w" "sound_deps ?E (st w)" "settled ?E (st w)"
    using inv by (simp_all add: wf_inv_def)
  have held: "\<forall>k \<in> ?C. st w k \<in> {Some TaskDispatched, Some TaskRunning}"
    by (auto simp: held_by_def st_def is_running_status_def)
  then have st': "st (reclaim ?C w) = (\<lambda>k. if k \<in> ?C then Some TaskReady else st w k)"
    by (auto simp: fun_eq_iff)
  from False obtain k where k: "k \<in> ?C" by blast
  then have "st w k \<in> Some ` open_statuses" using held by (auto simp: open_statuses_def)
  then have run: "w_status (reclaim ?C w) = WorkflowRunning" using coherent_open [OF inv] by simp
  have plain': "plain (reclaim ?C w)"
    unfolding plain_def st' using s(2) by (simp add: plain_def)
  have "st (reclaim ?C w) k \<in> Some ` open_statuses"
    unfolding st' using k by (simp add: open_statuses_def)
  then show ?thesis
    using wf_inv_still_running [OF inv evolves_reclaim run plain'] sound_reclaim [OF s(3) held] s(4)
    unfolding st' by blast
qed

definition held_tasks :: "string \<Rightarrow> Workflow gomap \<Rightarrow> string set \<Rightarrow> (string \<times> string) set" where
  "held_tasks i ws K = {(k, t). k \<in> K \<and> (\<exists>w. map_of ws k = Some w \<and> t \<in> held_by i w)}"

lemma jobs_of_targets:
  assumes "wf_static w" "set ids \<subseteq> set (keys (w_Tasks w))"
  shows "map j_OnDispatched (jobs_of w ids) = map (\<lambda>t. Some (w_ID w, t)) ids"
proof -
  have "j_OnDispatched (task_job (the (map_of (w_Tasks w) t))) = Some (w_ID w, t)" if "t \<in> set ids" for t
    using assms that keys_map_of_Some [of t "w_Tasks w"]
    by (force simp: wf_static_def ids_are_keys_def task_job_def)
  then show ?thesis by (simp add: jobs_of_def)
qed

text \<open>A job that carries a task of one of the workflows.\<close>

definition job_of :: "Workflow gomap \<Rightarrow> Job \<Rightarrow> bool" where
  "job_of ws j \<longleftrightarrow> (\<exists>k w tid t. map_of ws k = Some w \<and> map_of (w_Tasks w) tid = Some t \<and> j = task_job t)"

lemma job_ofI: "map_of ws k = Some w \<Longrightarrow> map_of (w_Tasks w) tid = Some t \<Longrightarrow> job_of ws (task_job t)"
  by (auto simp: job_of_def)

lemma task_job_shape: "keeps_shape f \<Longrightarrow> task_job (f k t) = task_job t"
  by (simp add: task_job_def keeps_shape_def)

lemma evolves_task:
  assumes "evolves w w'"
  shows "map_of (w_Tasks w') k = Some t' \<Longrightarrow> \<exists>t. map_of (w_Tasks w) k = Some t \<and> task_job t = task_job t'"
    and "map_of (w_Tasks w) k = Some t \<Longrightarrow> \<exists>t'. map_of (w_Tasks w') k = Some t' \<and> task_job t' = task_job t"
  using assms by (auto simp: evolves_def task_job_shape)

lemma job_of_put:
  assumes "evolves w w'" "map_of ws k = Some w" and ws': "\<And>j. map_of ws' j = (if j = k then Some w' else map_of ws j)"
  shows "job_of ws' j = job_of ws j"
proof
  assume "job_of ws' j"
  then obtain i v tid t where "map_of ws' i = Some v" "map_of (w_Tasks v) tid = Some t" "j = task_job t"
    by (auto simp: job_of_def)
  with evolves_task(1) [OF assms(1)] assms(2) show "job_of ws j"
    by (cases "i = k") (auto simp: ws' intro: job_ofI dest!: evolves_task(1) [OF assms(1)], metis job_ofI)
next
  assume "job_of ws j"
  then obtain i v tid t where "map_of ws i = Some v" "map_of (w_Tasks v) tid = Some t" "j = task_job t"
    by (auto simp: job_of_def)
  then show "job_of ws' j"
    using evolves_task(2) [OF assms(1), of tid t] assms(2) ws' [of i] job_ofI [of ws' i]
    by (cases "i = k") (auto, metis)
qed

lemma jobs_of_job_of:
  assumes "map_of ws k = Some w" "set ids \<subseteq> set (keys (w_Tasks w))" "j \<in> set (jobs_of w ids)"
  shows "job_of ws j"
proof -
  from assms(3) obtain i where i: "i \<in> set ids" "j = task_job (the (map_of (w_Tasks w) i))" by (auto simp: jobs_of_def)
  with keys_map_of_Some [of i "w_Tasks w"] assms(2) obtain t where "map_of (w_Tasks w) i = Some t" by blast
  with i(2) assms(1) show ?thesis by (auto intro: job_ofI)
qed

lemma reassign_workflows_char:
  assumes rng: "go_range rng" and "distinct ks"
    and "\<forall>k w. map_of (e_workflows e) k = Some w \<longrightarrow> w_ID w = k \<and> wf_inv w"
  shows "\<exists>js e'. reassign_workflows rng now i ks e = e'
    \<and> (\<forall>k. map_of (e_workflows e') k = (if k \<in> set ks
          then map_option (\<lambda>w. reclaim (held_by i w) w) (map_of (e_workflows e) k) else map_of (e_workflows e) k))
    \<and> keys (e_workflows e') = keys (e_workflows e) \<and> e_queue e' = e_queue e @ js
    \<and> e_notified e' = e_notified e \<and> e_hasNotifier e' = e_hasNotifier e
    \<and> distinct (map j_OnDispatched js)
    \<and> set (map j_OnDispatched js) = Some ` held_tasks i (e_workflows e) (set ks)
    \<and> (\<forall>j \<in> set js. job_of (e_workflows e) j)"
  using assms(2,3)
proof (induction ks arbitrary: e)
  case Nil
  show ?case by (intro exI [of _ "[]"]) (simp add: held_tasks_def)
next
  case (Cons k ks)
  show ?case
  proof (cases "map_of (e_workflows e) k")
    case None
    then have "held_tasks i (e_workflows e) (set (k # ks)) = held_tasks i (e_workflows e) (set ks)"
      by (auto simp: held_tasks_def)
    with None Cons.IH [of e] Cons.prems show ?thesis by auto
  next
    case (Some w)
    have inv: "w_ID w = k" "wf_inv w" "wf_static w"
      using Cons.prems(2) Some by (auto simp: wf_inv_def)
    let ?ks = "rng (Suc (length ks)) (keys (w_Tasks w))"
    have sub: "held_by i w \<subseteq> set (keys (w_Tasks w))"
      by (auto simp: held_by_def dest: map_of_Some_keys)
    have "distinct ?ks" "held_by i w = set ?ks \<inter> held_by i w"
      using wf_staticD(1) [OF inv(3)] go_range.distinct_rng [OF rng] go_range.set_rng [OF rng] sub
      by (auto simp: gomap_wf_def)
    from reassign_tasks_spec [OF wf_staticD(1) [OF inv(3)] this, of now e]
    obtain ids e1 where r: "reassign_tasks now i ?ks w e = (reclaim (held_by i w) w, e1)"
      "set ids = held_by i w" "distinct ids" "pushes (jobs_of w ids) e e1" by blast
    let ?e1 = "put_workflow k (reclaim (held_by i w) w) e1"
    have ws1: "map_of (e_workflows ?e1) j = (if j = k then Some (reclaim (held_by i w) w) else map_of (e_workflows e) j)" for j
      using pushes_fields [OF r(4)] by (simp add: put_workflow_def)
    have "\<forall>j w. map_of (e_workflows ?e1) j = Some w \<longrightarrow> w_ID w = j \<and> wf_inv w"
      unfolding ws1 using Cons.prems(2) inv wf_inv_reclaim [OF inv(2)] by auto
    from Cons.IH [OF _ this] Cons.prems(1) obtain js e2 where 2: "reassign_workflows rng now i ks ?e1 = e2"
      "\<And>j. map_of (e_workflows e2) j = (if j \<in> set ks
          then map_option (\<lambda>w. reclaim (held_by i w) w) (map_of (e_workflows ?e1) j) else map_of (e_workflows ?e1) j)"
      "keys (e_workflows e2) = keys (e_workflows ?e1)" "e_queue e2 = e_queue ?e1 @ js"
      "e_notified e2 = e_notified ?e1" "e_hasNotifier e2 = e_hasNotifier ?e1" "distinct (map j_OnDispatched js)"
      "set (map j_OnDispatched js) = Some ` held_tasks i (e_workflows ?e1) (set ks)"
      "\<forall>j \<in> set js. job_of (e_workflows ?e1) j"
      by auto
    have kks: "k \<notin> set ks" using Cons.prems(1) by simp
    have held1: "held_tasks i (e_workflows ?e1) (set ks) = held_tasks i (e_workflows e) (set ks)"
      unfolding held_tasks_def ws1 using kks by (auto split: if_splits)
    have held: "held_tasks i (e_workflows e) (set (k # ks)) = Pair k ` held_by i w \<union> held_tasks i (e_workflows e) (set ks)"
      using Some by (auto simp: held_tasks_def)
    have tg: "map j_OnDispatched (jobs_of w ids) = map (\<lambda>t. Some (k, t)) ids"
      using jobs_of_targets [OF inv(3)] r(2) sub inv(1) by auto
    have "reassign_workflows rng now i (k # ks) e = e2" using Some r(1) 2(1) by simp
    moreover have "\<forall>j. map_of (e_workflows e2) j = (if j \<in> set (k # ks)
          then map_option (\<lambda>w. reclaim (held_by i w) w) (map_of (e_workflows e) j) else map_of (e_workflows e) j)"
      unfolding 2(2) ws1 using Some kks by auto
    moreover have "keys (e_workflows e2) = keys (e_workflows e)"
      using 2(3) Some pushes_fields [OF r(4)] gomap_keys_update_same [of "e_workflows e" k w]
      by (simp add: put_workflow_def)
    moreover have "e_queue e2 = e_queue e @ (jobs_of w ids @ js)" "e_notified e2 = e_notified e"
      "e_hasNotifier e2 = e_hasNotifier e"
      using 2(4-6) pushes_fields [OF r(4)] by (simp_all add: put_workflow_def)
    moreover have "set (map j_OnDispatched (jobs_of w ids @ js)) = Some ` held_tasks i (e_workflows e) (set (k # ks))"
      unfolding map_append set_append tg held 2(8) held1 using r(2) by auto
    moreover have "\<forall>j \<in> set (jobs_of w ids @ js). job_of (e_workflows e) j"
      using 2(9) job_of_put [OF evolves_reclaim Some ws1] jobs_of_job_of [OF Some, of ids] r(2) sub by auto
    moreover have "distinct (map j_OnDispatched (jobs_of w ids @ js))"
    proof -
      have "distinct (map (\<lambda>t. Some (k, t)) ids)" using r(3) by (simp add: distinct_map inj_on_def)
      moreover have "set (map (\<lambda>t. Some (k, t)) ids) \<inter> set (map j_OnDispatched js) = {}"
        unfolding 2(8) held1 using kks by (auto simp: held_tasks_def)
      ultimately show ?thesis unfolding map_append distinct_append tg using 2(7) by blast
    qed
    ultimately show ?thesis by blast
  qed
qed

end
