(* ===== verification/Engine_Theorems.thy ===== *)
theory Engine_Theorems
  imports Engine_Correct
begin

text \<open>
  The engine as a transition system: its public methods in any order and with any arguments,
  interleaved with everything the scheduler, the bus and the notifier do to the state the
  engine shares with them (\<open>step_env\<close>). A submitted workflow comes from \<open>NewWorkflow\<close>, all
  its tasks are PENDING (the zero value), and its ID, a fresh UUID, is not in use. The
  properties of the engine hold in every reachable state.
\<close>

section \<open>Reachable states\<close>

inductive engine_step :: "'h Engine \<Rightarrow> 'h Engine \<Rightarrow> bool" where
  step_submit: "go_range rng \<Longrightarrow> go_range rng' \<Longrightarrow> \<forall>t \<in> set tasks. t_status t = TaskPending \<Longrightarrow>
    NewWorkflow rng' uuid created tenantID name tasks = Ok w \<Longrightarrow>
    map_of (e_workflows e) (w_ID w) = None \<Longrightarrow>
    engine_step e (snd (SubmitWorkflow rng now w e))"
| step_response: "go_range rng \<Longrightarrow> engine_step e (snd (OnTaskResponse rng now wid tid r e))"
| step_dispatched: "engine_step e (OnTaskDispatched now p i e)"
| step_cancel_workflow: "go_range rng \<Longrightarrow> engine_step e (snd (CancelWorkflow rng now wid e))"
| step_cancel_task: "go_range rng \<Longrightarrow> engine_step e (snd (CancelTask rng now tid e))"
| step_reassign: "go_range rng \<Longrightarrow> engine_step e (ReassignDeadWorkerTasks rng now i e)"
| step_env: "e_workflows e' = e_workflows e \<Longrightarrow> engine_step e e'"

inductive engine_reachable :: "'h Engine \<Rightarrow> bool" where
  engine_start: "engine_reachable (NewWorkflowEngine bus)"
| engine_next: "engine_reachable e \<Longrightarrow> engine_step e e' \<Longrightarrow> engine_reachable e'"

inductive_cases engine_stepE: "engine_step e e'"

section \<open>Every step keeps the invariant\<close>

lemma engine_inv_put:
  assumes "engine_inv e" "map_of (e_workflows e) k = Some w" "evolves w w'" "wf_inv w'"
    and "e_workflows e' = e_workflows e"
  shows "engine_inv (put_workflow k w' e')"
  using assms evolvesD(3) [OF assms(3)] by (simp add: engine_inv_def put_workflow_def)

lemma engine_invD:
  "engine_inv e \<Longrightarrow> map_of (e_workflows e) k = Some w \<Longrightarrow> w_ID w = k \<and> wf_inv w"
  by (simp add: engine_inv_def)

lemma engine_inv_notify: "engine_inv (notifyWorkersOfCancellation refs e) = engine_inv e"
  by (simp add: engine_inv_def notifyWorkersOfCancellation_def)

lemma map_of_All: "(\<forall>x \<in> set xs. P (g x)) \<Longrightarrow> map_of (map (\<lambda>x. (f x, g x)) xs) k = Some v \<Longrightarrow> P v"
  by (drule map_of_SomeD) auto

lemma NewWorkflow_fresh:
  assumes rng: "go_range rng" and pend: "\<forall>t \<in> set tasks. t_status t = TaskPending"
    and ok: "NewWorkflow rng uuid created tenantID name tasks = Ok w"
  shows "fresh_workflow w"
proof -
  have valid: "valid_submission uuid tasks"
    using NewWorkflow_invalid [OF rng, of uuid tasks created tenantID name] ok by auto
  then have w: "w = built_workflow uuid created tenantID name tasks"
    using NewWorkflow_valid [OF rng] ok by simp
  have "t_status ` set (assigned uuid 0 tasks) = t_status ` set tasks"
    by (metis assigned_fields(3) list.set_map)
  with pend have "t_status t = TaskPending" if "t \<in> set (assigned uuid 0 tasks)" for t
    using that by (metis imageE imageI)
  then have "\<forall>t \<in> set (assigned uuid 0 tasks). t_status (resolved_task (name_index (assigned uuid 0 tasks)) t) = TaskPending"
    by (simp add: resolved_task_def)
  then have "t_status t = TaskPending" if "map_of (resolved_tasks (assigned uuid 0 tasks)) k = Some t" for k t
    using that unfolding resolved_tasks_def by (rule map_of_All [where P = "\<lambda>t. t_status t = TaskPending"])
  then have "st w k \<in> {None, Some TaskPending}" for k
    unfolding w built_workflow_def st_def
    by (cases "map_of (resolved_tasks (assigned uuid 0 tasks)) k") (auto simp: map_of_map_snd)
  then show ?thesis
    using built_workflow_static [OF valid] unfolding fresh_workflow_def w by (simp add: built_workflow_def)
qed

lemma submit_inv:
  assumes "engine_inv e" "go_range rng" "fresh_workflow w"
  shows "engine_inv (snd (SubmitWorkflow rng now w e))"
proof -
  from SubmitWorkflow_char [OF assms(2,3), of now e] obtain w' ids e' where
    s: "SubmitWorkflow rng now w e = (w_ID w, put_workflow (w_ID w) w' e')" "wf_inv w'" "evolves w w'"
      "pushes (jobs_of w ids) (put_workflow (w_ID w) w e) e'" by blast
  have ws: "e_workflows e' = AList.update (w_ID w) w (e_workflows e)"
    using pushes_fields [OF s(4)] by (simp add: put_workflow_def)
  have "w_ID w' = w_ID w" using evolvesD(3) [OF s(3)] .
  with assms(1) s(2) show ?thesis
    unfolding s(1) by (auto simp: engine_inv_def put_workflow_def ws)
qed

lemma response_inv:
  assumes "engine_inv e" "go_range rng"
  shows "engine_inv (snd (OnTaskResponse rng now wid tid r e))"
proof (cases "map_of (e_workflows e) wid")
  case None
  then show ?thesis using assms by (simp add: OnTaskResponse_def)
next
  case (Some w)
  note inv = engine_invD [OF assms(1) Some]
  show ?thesis
  proof (cases "map_of (w_Tasks w) tid")
    case None
    then show ?thesis using assms Some by (simp add: OnTaskResponse_def)
  next
    case t: (Some t)
    from OnTaskResponse_char [OF assms(2) conjunct2 [OF inv] Some t refl, of now r] obtain w' ids e' where
      o: "OnTaskResponse rng now wid tid r e = (None, put_workflow wid w' e')" "wf_inv w'" "evolves w w'"
        "pushes (jobs_of w ids) e e'" by blast
    show ?thesis
      unfolding o(1) using engine_inv_put [OF assms(1) Some o(3,2) conjunct1 [OF pushes_fields [OF o(4)]]] by simp
  qed
qed

lemma dispatched_inv:
  assumes "engine_inv e"
  shows "engine_inv (OnTaskDispatched now p i e)"
proof (cases "map_of (e_workflows e) (fst p)")
  case None
  then show ?thesis using assms by (simp add: OnTaskDispatched_def)
next
  case (Some w)
  note inv = engine_invD [OF assms Some]
  show ?thesis
  proof (cases "map_of (w_Tasks w) (snd p)")
    case None
    then show ?thesis using assms Some by (simp add: OnTaskDispatched_def)
  next
    case t: (Some t)
    from OnTaskDispatched_char [OF conjunct2 [OF inv] Some t, of now i] obtain w' e' where
      o: "OnTaskDispatched now p i e = put_workflow (fst p) w' e'" "bus_only e e'" "wf_inv w'" "evolves w w'" by blast
    show ?thesis
      unfolding o(1) using engine_inv_put [OF assms Some o(4,3) conjunct1 [OF bus_only_fields [OF o(2)]]] by simp
  qed
qed

lemma cancel_workflow_inv:
  assumes "engine_inv e" "go_range rng"
  shows "engine_inv (snd (CancelWorkflow rng now wid e))"
proof (cases "map_of (e_workflows e) wid")
  case None
  then show ?thesis using assms by (simp add: CancelWorkflow_def)
next
  case (Some w)
  note inv = engine_invD [OF assms(1) Some]
  from CancelWorkflow_char [OF assms(2) conjunct2 [OF inv] Some, of now] obtain w' running e' where
    o: "CancelWorkflow rng now wid e = (None, notifyWorkersOfCancellation running (put_workflow wid w' e'))"
      "bus_only e e'" "wf_inv w'" "evolves w w'" by blast
  show ?thesis
    unfolding o(1) using engine_inv_put [OF assms(1) Some o(4,3) conjunct1 [OF bus_only_fields [OF o(2)]]]
    by (simp add: engine_inv_notify)
qed

lemma cancel_task_inv:
  assumes "engine_inv e" "go_range rng"
  shows "engine_inv (snd (CancelTask rng now tid e))"
proof (cases "findTask rng tid e")
  case None
  then show ?thesis using assms by (simp add: CancelTask_def)
next
  case (Some kwt)
  then obtain k w t where f: "findTask rng tid e = Some (k, w, t)" by (cases kwt) auto
  note inv = engine_invD [OF assms(1) conjunct1 [OF findTask_Some [OF f]]]
  show ?thesis
  proof (cases "Task_IsFinished t")
    case True
    then show ?thesis using assms f by (simp add: CancelTask_def)
  next
    case False
    from CancelTask_char [OF assms(2) conjunct2 [OF inv] f False refl, of now] obtain w' e' where
      o: "CancelTask rng now tid e = (None, notifyWorkersOfCancellation (running_ref t) (put_workflow k w' e'))"
        "bus_only e e'" "wf_inv w'" "evolves w w'" by blast
    show ?thesis
      unfolding o(1) using engine_inv_put [OF assms(1) conjunct1 [OF findTask_Some [OF f]] o(4,3)
        conjunct1 [OF bus_only_fields [OF o(2)]]] by (simp add: engine_inv_notify)
  qed
qed

lemma engine_keys_distinct: "engine_inv e \<Longrightarrow> go_range rng \<Longrightarrow> distinct (rng 0 (keys (e_workflows e)))"
  using go_range.distinct_rng [of rng 0 "keys (e_workflows e)"] by (simp add: engine_inv_def gomap_wf_def)

lemma reassign_inv:
  assumes "engine_inv e" "go_range rng"
  shows "engine_inv (ReassignDeadWorkerTasks rng now i e)"
proof -
  have ws: "\<forall>k w. map_of (e_workflows e) k = Some w \<longrightarrow> w_ID w = k \<and> wf_inv w"
    using assms(1) by (simp add: engine_inv_def)
  let ?e = "ReassignDeadWorkerTasks rng now i e"
  from reassign_workflows_char [OF assms(2) engine_keys_distinct [OF assms] ws, of now i]
  have r: "\<forall>k. map_of (e_workflows ?e) k = (if k \<in> set (rng 0 (keys (e_workflows e)))
      then map_option (\<lambda>w. reclaim (held_by i w) w) (map_of (e_workflows e) k) else map_of (e_workflows e) k)"
    "keys (e_workflows ?e) = keys (e_workflows e)"
    by (auto simp: ReassignDeadWorkerTasks_def)
  show ?thesis unfolding engine_inv_def
  proof (intro conjI allI impI)
    show "gomap_wf (e_workflows ?e)" using assms(1) r(2) by (simp add: engine_inv_def gomap_wf_def)
    fix k w assume "map_of (e_workflows ?e) k = Some w"
    then show "w_ID w = k" "wf_inv w"
      using r(1) ws wf_inv_reclaim by (auto split: if_splits)
  qed
qed

lemma engine_step_inv: "engine_step e e' \<Longrightarrow> engine_inv e \<Longrightarrow> engine_inv e'"
proof (induction rule: engine_step.induct)
  case (step_submit rng rng' tasks uuid created tenantID name w e now)
  then show ?case using submit_inv NewWorkflow_fresh by blast
next
  case (step_env e' e)
  then show ?case by (simp add: engine_inv_def)
qed (simp_all add: response_inv dispatched_inv cancel_workflow_inv cancel_task_inv reassign_inv)

lemma engine_reachable_inv: "engine_reachable e \<Longrightarrow> engine_inv e"
proof (induction rule: engine_reachable.induct)
  case (engine_start bus)
  show ?case by (simp add: engine_inv_def NewWorkflowEngine_def)
qed (rule engine_step_inv)

section \<open>Steps follow the status automata\<close>

definition legal_move :: "TaskStatus option \<Rightarrow> TaskStatus option \<Rightarrow> bool" where
  "legal_move x y \<longleftrightarrow> x = y \<or> (\<exists>a b. x = Some a \<and> y = Some b \<and> TaskStatus_CanTransitTo a b = None)"

definition legal_step :: "Workflow \<Rightarrow> Workflow \<Rightarrow> bool" where
  "legal_step w w' \<longleftrightarrow> keys (w_Tasks w') = keys (w_Tasks w) \<and> (\<forall>k. legal_move (st w k) (st w' k))
     \<and> (w_status w' = w_status w \<or> WorkflowStatus_CanTransitTo (w_status w) (w_status w') = None)
     \<and> (Workflow_IsFinished w \<longrightarrow> st w' = st w)"

lemma legal_move_refl [simp]: "legal_move x x"
  by (simp add: legal_move_def)

lemma legal_moveI: "taskStatusesGraph a b \<Longrightarrow> legal_move (Some a) (Some b)"
  by (auto simp: legal_move_def CanTransitTo_None_iff)

lemma legal_step_refl [simp]: "legal_step w w"
  by (simp add: legal_step_def)

lemma legal_report: "legal_move (s k) (spec_ready E (spec_report E i b s) k)"
proof -
  have pend: "legal_move (Some TaskPending) (Some TaskReady)" "legal_move (Some TaskPending) (Some TaskCancelled)"
    by (auto intro!: legal_moveI)
  show ?thesis
  proof (cases "k = i")
    case True
    then show ?thesis
      using pend legal_moveI by (auto simp: spec_ready_def spec_report_def spec_cancel_def split: option.splits)
  next
    case False
    then show ?thesis
      using pend by (auto simp: spec_ready_def spec_report_def spec_cancel_def split: option.splits)
  qed
qed

lemma finished_no_open:
  assumes "wf_inv w" "Workflow_IsFinished w"
  shows "st w k \<notin> Some ` open_statuses" "w_status w \<notin> {WorkflowPending, WorkflowRunning}"
  using assms coherent_open [OF assms(1), of k] by (auto simp: Workflow_IsFinished_def)

lemma report_finished:
  assumes inv: "wf_inv w" and fin: "Workflow_IsFinished w" and E: "E = dep_rel (w_Tasks w)"
  shows "spec_ready E (spec_report E i b (st w)) = st w"
proof -
  have no: "st w k \<notin> Some ` open_statuses" for k using finished_no_open(1) [OF inv fin] .
  have "\<not> (b \<in> {TaskRunning, TaskSucceeded, TaskFailed} \<and> taskStatusesGraph a b)" if "st w i = Some a" for a
    using no [of i] that inv
    by (cases a) (auto simp: open_statuses_def wf_inv_def plain_def dest: spec [of _ i])
  then have "spec_report E i b (st w) = st w" by (auto simp: spec_report_def split: option.splits)
  moreover have "st w k \<noteq> Some TaskPending" for k using no [of k] by (auto simp: open_statuses_def)
  ultimately show ?thesis by (simp add: spec_ready_def)
qed

lemma spec_status_legal: "workflowStatusesGraph WorkflowRunning (spec_status s) \<or> spec_status s = WorkflowRunning"
  by (simp add: spec_status_def)

lemma workflow_legalI:
  "w_status w = WorkflowRunning \<Longrightarrow> w_status w' = spec_status s \<Longrightarrow>
   w_status w' = w_status w \<or> WorkflowStatus_CanTransitTo (w_status w) (w_status w') = None"
  using spec_status_legal [of s] by (auto simp: WorkflowStatus_CanTransitTo_None_iff)

lemma response_legal:
  assumes inv: "engine_inv e" and rng: "go_range rng" and w: "map_of (e_workflows e) k = Some w"
  shows "\<exists>w'. map_of (e_workflows (snd (OnTaskResponse rng now wid tid r e))) k = Some w' \<and> legal_step w w'"
proof (cases "k = wid \<and> map_of (w_Tasks w) tid \<noteq> None")
  case True
  then obtain t where t: "map_of (w_Tasks w) tid = Some t" by blast
  note wi = conjunct2 [OF engine_invD [OF inv w]]
  from OnTaskResponse_char [OF rng wi _ t refl, of e wid now r] True w obtain w' e' where
    o: "OnTaskResponse rng now wid tid r e = (None, put_workflow wid w' e')" "evolves w w'"
      "st w' = spec_ready (dep_rel (w_Tasks w)) (spec_report (dep_rel (w_Tasks w)) tid (tr_Status r) (st w))"
      "w_status w' = (if w_status w = WorkflowRunning then spec_status (st w') else w_status w)" by blast
  have "legal_step w w'"
    unfolding legal_step_def using evolvesD(2) [OF o(2)] o(3,4) legal_report report_finished [OF wi _ refl]
      workflow_legalI [of w w' "st w'"] by (auto split: if_splits)
  then show ?thesis using True o(1) by (simp add: put_workflow_def)
next
  case False
  show ?thesis
  proof (cases "map_of (e_workflows e) wid")
    case None
    then show ?thesis using w by (simp add: OnTaskResponse_def)
  next
    case w1: (Some w1)
    show ?thesis
    proof (cases "map_of (w_Tasks w1) tid")
      case None
      then show ?thesis using w w1 by (simp add: OnTaskResponse_def)
    next
      case (Some t)
      with False w w1 have "k \<noteq> wid" by auto
      from OnTaskResponse_char [OF rng conjunct2 [OF engine_invD [OF inv w1]] w1 Some refl, of now r] obtain w' ids e' where
        o: "OnTaskResponse rng now wid tid r e = (None, put_workflow wid w' e')" "pushes (jobs_of w1 ids) e e'" by blast
      then show ?thesis using \<open>k \<noteq> wid\<close> w pushes_fields [OF o(2)] by (simp add: put_workflow_def)
    qed
  qed
qed

lemma dispatched_legal:
  assumes inv: "engine_inv e" and w: "map_of (e_workflows e) k = Some w"
  shows "\<exists>w'. map_of (e_workflows (OnTaskDispatched now p i e)) k = Some w' \<and> legal_step w w'"
proof (cases "map_of (e_workflows e) (fst p)")
  case None
  then show ?thesis using w by (simp add: OnTaskDispatched_def)
next
  case w1: (Some w1)
  show ?thesis
  proof (cases "map_of (w_Tasks w1) (snd p)")
    case None
    then show ?thesis using w w1 by (simp add: OnTaskDispatched_def)
  next
    case t: (Some t)
    note wi = conjunct2 [OF engine_invD [OF inv w1]]
    from OnTaskDispatched_char [OF wi w1 t, of now i] obtain w' e' where
      o: "OnTaskDispatched now p i e = put_workflow (fst p) w' e'" "bus_only e e'" "evolves w1 w'"
        "w_status w' = w_status w1" "w' = with_tasks (\<lambda>k t. if k = snd p then dispatched_to i t else t) w1" by blast
    have move: "st w' j = st w1 j \<or> st w1 j = Some TaskReady \<and> st w' j = Some TaskDispatched" for j
      unfolding o(5) by (cases "map_of (w_Tasks w1) j") (auto simp: st_def dispatched_to_def)
    have ready: "legal_move (Some TaskReady) (Some TaskDispatched)" by (rule legal_moveI) simp
    have "legal_move (st w1 j) (st w' j)" for j using move [of j] ready by auto
    moreover have "st w' = st w1" if "Workflow_IsFinished w1"
    proof
      show "st w' j = st w1 j" for j
        using move [of j] finished_no_open(1) [OF wi that, of j] by (auto simp: open_statuses_def)
    qed
    ultimately have "legal_step w1 w'" unfolding legal_step_def using evolvesD(2) [OF o(3)] o(4) by blast
    then show ?thesis
      using o(1) w w1 bus_only_fields [OF o(2)] by (cases "k = fst p") (simp_all add: put_workflow_def)
  qed
qed

lemma notify_workflows [simp]: "e_workflows (notifyWorkersOfCancellation refs e) = e_workflows e"
  by (simp add: notifyWorkersOfCancellation_def)

lemma open_to_cancelled: "x \<in> Some ` open_statuses \<Longrightarrow> legal_move x (Some TaskCancelled)"
  by (auto simp: open_statuses_def intro!: legal_moveI)

lemma cancel_workflow_legal:
  assumes inv: "engine_inv e" and rng: "go_range rng" and w: "map_of (e_workflows e) k = Some w"
  shows "\<exists>w'. map_of (e_workflows (snd (CancelWorkflow rng now wid e))) k = Some w' \<and> legal_step w w'"
proof (cases "map_of (e_workflows e) wid")
  case None
  then show ?thesis using w by (simp add: CancelWorkflow_def)
next
  case w1: (Some w1)
  note wi = conjunct2 [OF engine_invD [OF inv w1]]
  from CancelWorkflow_char [OF rng wi w1, of now] obtain w' running e' where
    o: "CancelWorkflow rng now wid e = (None, notifyWorkersOfCancellation running (put_workflow wid w' e'))"
      "bus_only e e'" "evolves w1 w'"
      "st w' = (\<lambda>k. if st w1 k \<in> Some ` open_statuses then Some TaskCancelled else st w1 k)"
      "w_status w' = (if w_status w1 \<in> {WorkflowPending, WorkflowRunning} then WorkflowCancelled else w_status w1)"
    by blast
  have "legal_step w1 w'"
    unfolding legal_step_def using evolvesD(2) [OF o(3)] open_to_cancelled finished_no_open(1) [OF wi] o(4,5)
    by (auto simp: WorkflowStatus_CanTransitTo_None_iff)
  then show ?thesis
    using o(1) w w1 bus_only_fields [OF o(2)] by (cases "k = wid") (simp_all add: put_workflow_def)
qed

lemma cancel_task_legal:
  assumes inv: "engine_inv e" and rng: "go_range rng" and w: "map_of (e_workflows e) k = Some w"
  shows "\<exists>w'. map_of (e_workflows (snd (CancelTask rng now tid e))) k = Some w' \<and> legal_step w w'"
proof (cases "\<exists>j w1 t. findTask rng tid e = Some (j, w1, t) \<and> \<not> Task_IsFinished t")
  case False
  then have "snd (CancelTask rng now tid e) = e" by (auto simp: CancelTask_def split: option.splits)
  then show ?thesis using w by simp
next
  case True
  then obtain j w1 t where f: "findTask rng tid e = Some (j, w1, t)" "\<not> Task_IsFinished t" by blast
  note w1 = conjunct1 [OF findTask_Some [OF f(1)]] and t = conjunct2 [OF findTask_Some [OF f(1)]]
  note wi = conjunct2 [OF engine_invD [OF inv w1]]
  from CancelTask_char [OF rng wi f refl, of now] obtain w' e' where
    o: "CancelTask rng now tid e = (None, notifyWorkersOfCancellation (running_ref t) (put_workflow j w' e'))"
      "bus_only e e'" "evolves w1 w'"
      "st w' = spec_cancel (dep_rel (w_Tasks w1)) tid ((st w1)(tid := Some TaskCancelled))"
      "w_status w' = spec_status (st w')" by blast
  have "plain w1" using wi by (simp add: wf_inv_def)
  then have tid: "st w1 tid \<in> Some ` open_statuses"
    using open_task_iff t f(2) by (auto simp: open_task_def)
  have "legal_move (st w1 i) (st w' i)" for i
    unfolding o(4) spec_cancel_def using open_to_cancelled [OF tid] legal_moveI [of TaskPending TaskCancelled]
    by auto
  moreover have "\<not> Workflow_IsFinished w1" using finished_no_open(1) [OF wi] tid by blast
  ultimately have "legal_step w1 w'"
    unfolding legal_step_def using evolvesD(2) [OF o(3)] workflow_legalI [OF coherent_open [OF wi tid] o(5)] by blast
  then show ?thesis
    using o(1) w w1 bus_only_fields [OF o(2)] by (cases "k = j") (simp_all add: put_workflow_def)
qed

lemma reassign_legal:
  assumes inv: "engine_inv e" and rng: "go_range rng" and w: "map_of (e_workflows e) k = Some w"
  shows "\<exists>w'. map_of (e_workflows (ReassignDeadWorkerTasks rng now i e)) k = Some w' \<and> legal_step w w'"
proof -
  have ws: "\<forall>k w. map_of (e_workflows e) k = Some w \<longrightarrow> w_ID w = k \<and> wf_inv w"
    using inv by (simp add: engine_inv_def)
  note wi = conjunct2 [OF engine_invD [OF inv w]]
  let ?w = "reclaim (held_by i w) w"
  from reassign_workflows_char [OF rng engine_keys_distinct [OF inv rng] ws, of now i]
  have "map_of (e_workflows (ReassignDeadWorkerTasks rng now i e)) k = Some ?w"
    using w map_of_Some_keys [OF w] go_range.set_rng [OF rng] by (auto simp: ReassignDeadWorkerTasks_def)
  moreover have held: "st w j \<in> {Some TaskDispatched, Some TaskRunning}" if "j \<in> held_by i w" for j
    using that by (auto simp: held_by_def st_def is_running_status_def)
  moreover have "legal_move (st w j) (st ?w j)" for j
    using held [of j] by (auto intro!: legal_moveI)
  moreover have "st ?w = st w" if "Workflow_IsFinished w"
  proof
    show "st ?w j = st w j" for j
      using held [of j] finished_no_open(1) [OF wi that, of j] by (auto simp: open_statuses_def)
  qed
  ultimately show ?thesis by (auto simp: legal_step_def)
qed

lemma engine_step_legal:
  assumes "engine_step e e'" "engine_inv e" "map_of (e_workflows e) k = Some w"
  shows "\<exists>w'. map_of (e_workflows e') k = Some w' \<and> legal_step w w'"
  using assms
proof (induction rule: engine_step.induct)
  case (step_submit rng rng' tasks uuid created tenantID name w1 e now)
  note fresh = NewWorkflow_fresh [OF step_submit(2-4)]
  from SubmitWorkflow_char [OF step_submit(1) fresh, of now e] obtain w' ids e' where
    s: "SubmitWorkflow rng now w1 e = (w_ID w1, put_workflow (w_ID w1) w' e')"
      "pushes (jobs_of w1 ids) (put_workflow (w_ID w1) w1 e) e'" by blast
  have "k \<noteq> w_ID w1" using step_submit by auto
  then show ?case using s(1) pushes_fields [OF s(2)] step_submit by (simp add: put_workflow_def)
qed (simp_all add: response_legal dispatched_legal cancel_workflow_legal cancel_task_legal reassign_legal)

section \<open>The calls to the worker notifier\<close>

definition batch :: "string list gomap \<Rightarrow> string \<Rightarrow> string list" where
  "batch calls i = (case map_of calls i of None \<Rightarrow> [] | Some ts \<Rightarrow> ts)"

lemma group_refs_batch:
  "batch (group_refs refs m) i = batch m i @ map r_TaskID (filter (\<lambda>r. r_WorkerID r = i) refs)"
  by (induction refs m rule: group_refs.induct) (auto simp: batch_def)

lemma group_refs_keys:
  "gomap_wf m \<Longrightarrow> gomap_wf (group_refs refs m)
     \<and> set (keys (group_refs refs m)) = set (keys m) \<union> r_WorkerID ` set refs"
proof (induction refs m rule: group_refs.induct)
  case (2 ref refs byWorker)
  then show ?case by (simp add: gomap_keys_update [simplified] Un_assoc)
qed simp

lemma running_refs_held:
  assumes "wf_static w" and C: "\<And>k. st w k \<in> {Some TaskDispatched, Some TaskRunning} \<Longrightarrow> k \<in> C"
  shows "{r_TaskID r |r. r \<in> refs_of w C \<and> r_WorkerID r = i} = held_by i w" (is "?L = ?R")
proof (intro equalityI subsetI)
  have ids: "t_ID t = k" if "map_of (w_Tasks w) k = Some t" for k t
    using wf_staticD(2) [OF assms(1)] that by (simp add: ids_are_keys_def)
  show "x \<in> ?R" if "x \<in> ?L" for x
    using that ids by (auto simp: refs_of_def running_ref_def held_by_def split: if_splits)
  show "x \<in> ?L" if "x \<in> ?R" for x
  proof -
    from that obtain t where t: "map_of (w_Tasks w) x = Some t" "t_AssignedTo t = i" "is_running_status (t_status t)"
      by (auto simp: held_by_def)
    then have "x \<in> C" using C [of x] by (auto simp: st_def is_running_status_def)
    then have "\<lparr>r_TaskID = t_ID t, r_WorkerID = i\<rparr> \<in> refs_of w C"
      using t by (auto simp: refs_of_def running_ref_def)
    then show ?thesis using ids [OF t(1)] by force
  qed
qed

lemma notify_fields:
  "e_queue (notifyWorkersOfCancellation refs e) = e_queue e"
  "e_bus (notifyWorkersOfCancellation refs e) = e_bus e"
  "e_notified (notifyWorkersOfCancellation refs e)
     = e_notified e @ (if e_hasNotifier e then group_refs refs [] else [])"
  by (simp_all add: notifyWorkersOfCancellation_def)

lemma put_workflow_fields [simp]:
  "e_queue (put_workflow k w e) = e_queue e" "e_bus (put_workflow k w e) = e_bus e"
  "e_notified (put_workflow k w e) = e_notified e" "e_hasNotifier (put_workflow k w e) = e_hasNotifier e"
  "map_of (e_workflows (put_workflow k w e)) j = (if j = k then Some w else map_of (e_workflows e) j)"
  by (simp_all add: put_workflow_def)

section \<open>A running example\<close>

definition example_bus :: "(Event, unit) Bus" where
  "example_bus = \<lparr>b_objs = [], b_subscribers = [], b_running = [], b_capacity = 8, b_ch = [],
     b_done = False, b_stopped = False, b_dispatching = True\<rparr>"

definition example_tasks :: "Task list" where
  "example_tasks = [example_task ''a'' [], example_task ''b'' [''a''], example_task ''c'' [''b'']]"

definition example_workflow :: Workflow where
  "example_workflow = built_workflow example_uuid 5 ''admin'' ''w'' example_tasks"

text \<open>Submitted, then task \<^verbatim>\<open>a\<close> dispatched; its ID is \<open>uuid 0\<close>, the workflow's is \<open>uuid 3\<close>.\<close>

definition submitted_engine :: "unit Engine" where
  "submitted_engine = snd (SubmitWorkflow offset_order 7 example_workflow (NewWorkflowEngine example_bus))"

definition dispatched_engine :: "unit Engine" where
  "dispatched_engine = OnTaskDispatched 8 (''uuuu'', ''u'') ''w1'' submitted_engine"

definition example_result :: "TaskStatus \<Rightarrow> TaskResult" where
  "example_result s = \<lparr>tr_Status = s, tr_ExitCode = 0, tr_Stdout = ''out'', tr_Stderr = '''',
     tr_Error = '''', tr_Duration = 0\<rparr>"

lemma example_NewWorkflow:
  "NewWorkflow offset_order example_uuid 5 ''admin'' ''w'' example_tasks = Ok example_workflow"
  by code_simp

lemma submitted_reachable: "engine_reachable submitted_engine"
proof -
  have "\<forall>t \<in> set example_tasks. t_status t = TaskPending"
    by (simp add: example_tasks_def example_task_def)
  then have "engine_step (NewWorkflowEngine example_bus) submitted_engine"
    unfolding submitted_engine_def
    by (intro step_submit [OF offset.go_range_axioms offset.go_range_axioms _ example_NewWorkflow])
       (simp_all add: NewWorkflowEngine_def)
  then show ?thesis by (rule engine_next [OF engine_start])
qed

lemma dispatched_reachable: "engine_reachable dispatched_engine"
  unfolding dispatched_engine_def by (rule engine_next [OF submitted_reachable step_dispatched])

definition built_task :: "string \<Rightarrow> string \<Rightarrow> string list \<Rightarrow> TaskStatus \<Rightarrow> string \<Rightarrow> Task" where
  "built_task i n deps s worker = (example_task n deps)\<lparr>t_ID := i, t_WorkflowID := ''uuuu'', t_status := s,
     t_AssignedTo := worker, t_RetryBackoff := 200000000, t_Timeout := 30000000000,
     t_CreatedAt := 5, t_UpdatedAt := 5\<rparr>"

definition dispatched_workflow :: Workflow where
  "dispatched_workflow = \<lparr>w_ID = ''uuuu'', w_TenantID = ''admin'', w_Name = ''w'',
     w_Tasks = [(''u'', built_task ''u'' ''a'' [] TaskDispatched ''w1''),
                (''uu'', built_task ''uu'' ''b'' [''u''] TaskPending ''''),
                (''uuu'', built_task ''uuu'' ''c'' [''uu''] TaskPending '''')],
     w_status = WorkflowRunning, w_CreatedAt = 5, w_UpdatedAt = 5\<rparr>"

lemma dispatched_state:
  "e_workflows dispatched_engine = [(''uuuu'', dispatched_workflow)] \<and> e_hasNotifier dispatched_engine
   \<and> e_notified dispatched_engine = []"
  by code_simp

lemma dispatched_example:
  "map_of (e_workflows dispatched_engine) ''uuuu'' = Some dispatched_workflow"
  "map_of (w_Tasks dispatched_workflow) ''u'' = Some (built_task ''u'' ''a'' [] TaskDispatched ''w1'')"
  "w_status dispatched_workflow = WorkflowRunning" "w_Tasks dispatched_workflow \<noteq> []"
  by (simp_all add: dispatched_state dispatched_workflow_def)

section \<open>Properties\<close>

text \<open>
  C1. In every state the engine can reach, every workflow it holds satisfies the engine
  invariant: the task map is well formed and acyclic; no task is ever RETRYING; a task that
  became READY or later has only SUCCEEDED dependencies; an unfinished task has no FAILED or
  CANCELLED dependency; a PENDING task has an unfinished dependency; and the workflow status
  agrees with the statuses of the tasks (\<open>coherent_status\<close>).
\<close>

theorem engine_safe:
  assumes "engine_reachable e"
  shows "engine_inv e"
  using engine_reachable_inv [OF assms] .

theorem engine_safe_witness: "engine_inv dispatched_engine"
  by (rule engine_safe [OF dispatched_reachable])

text \<open>
  C2. The engine never stalls: in every reachable state a RUNNING workflow has a task that is
  READY, DISPATCHED or RUNNING, i.e. one the scheduler or a worker will report about; and a
  workflow with tasks is in a terminal status exactly when all its tasks are.
\<close>

theorem engine_never_stalls:
  assumes reach: "engine_reachable e" and w: "map_of (e_workflows e) k = Some w" "w_Tasks w \<noteq> []"
  shows "(w_status w = WorkflowRunning \<longrightarrow>
      (\<exists>i t. map_of (w_Tasks w) i = Some t \<and> t_status t \<in> {TaskReady, TaskDispatched, TaskRunning}))
    \<and> (Workflow_IsFinished w \<longleftrightarrow> Workflow_AllTasksFinished w)"
proof -
  have inv: "wf_inv w" using engine_invD [OF engine_reachable_inv [OF reach] w(1)] by simp
  then have s: "wf_static w" "plain w" "sound_deps (dep_rel (w_Tasks w)) (st w)"
    "settled (dep_rel (w_Tasks w)) (st w)" "coherent_status (w_status w) w" by (simp_all add: wf_inv_def)
  have "\<exists>i t. map_of (w_Tasks w) i = Some t \<and> t_status t \<in> {TaskReady, TaskDispatched, TaskRunning}"
    if run: "w_status w = WorkflowRunning"
  proof -
    from run s(5) obtain i where i: "st w i \<in> Some ` open_statuses" by (auto simp: has_status_iff)
    have "plain_st (st w)" using s(2) by (simp add: plain_st_iff)
    from wf_staticD(4,3) [OF s(1)] this s(3,4)
    have "\<exists>j. st w j \<in> {Some TaskReady, Some TaskDispatched, Some TaskRunning}"
      by (rule not_stuck) (use wf_staticD(6) [OF s(1)] i in blast)+
    then show ?thesis by (auto simp: st_def)
  qed
  moreover have "Workflow_IsFinished w \<longleftrightarrow> Workflow_AllTasksFinished w"
    unfolding task_loops(1) [OF wf_staticD(1) [OF s(1)] s(2)] has_status_iff
    using finished_no_open(1) [OF inv] s(5) w(2)
    by (cases "w_status w") (auto simp: Workflow_IsFinished_def has_status_iff)
  ultimately show ?thesis by blast
qed

theorem engine_never_stalls_witness:
  "w_status dispatched_workflow = WorkflowRunning \<and>
   (\<exists>i t. map_of (w_Tasks dispatched_workflow) i = Some t \<and>
      t_status t \<in> {TaskReady, TaskDispatched, TaskRunning})"
  using engine_never_stalls [OF dispatched_reachable dispatched_example(1,4)] dispatched_example(3) by simp

text \<open>
  C4. A worker's report on a task of a reachable state is handled as specified: the new
  statuses are \<open>spec_ready\<close> after \<open>spec_report\<close> (a legal RUNNING, SUCCEEDED or FAILED
  is applied, a failure cancels exactly the pending tasks that depend on the task, directly
  or not, and every pending task whose dependencies have all succeeded becomes READY), a
  running workflow takes the status the tasks imply, each newly READY task is pushed to the
  ready queue exactly once and nothing else is, no other workflow changes, and the result is
  stored exactly when a final status was accepted.
\<close>

theorem response_refines:
  assumes reach: "engine_reachable e" and rng: "go_range rng"
    and w: "map_of (e_workflows e) wid = Some w" and t: "map_of (w_Tasks w) tid = Some t"
  shows "\<exists>e' w' ids. OnTaskResponse rng now wid tid r e = (None, e')
    \<and> map_of (e_workflows e') wid = Some w' \<and> (\<forall>k. k \<noteq> wid \<longrightarrow> map_of (e_workflows e') k = map_of (e_workflows e) k)
    \<and> st w' = spec_ready (dep_rel (w_Tasks w)) (spec_report (dep_rel (w_Tasks w)) tid (tr_Status r) (st w))
    \<and> w_status w' = (if w_status w = WorkflowRunning then spec_status (st w') else w_status w)
    \<and> distinct ids \<and> set ids = {k. st w k = Some TaskPending \<and> st w' k = Some TaskReady}
    \<and> e_queue e' = e_queue e @ jobs_of w ids
    \<and> map_option t_result (map_of (w_Tasks w') tid) = Some
        (if tr_Status r \<in> {TaskSucceeded, TaskFailed} \<and> taskStatusesGraph (t_status t) (tr_Status r)
         then Some r else t_result t)"
proof -
  have inv: "wf_inv w" using engine_invD [OF engine_reachable_inv [OF reach] w] by simp
  from OnTaskResponse_char [OF rng inv w t refl, of now r] obtain w' ids e' where
    o: "OnTaskResponse rng now wid tid r e = (None, put_workflow wid w' e')"
      "st w' = spec_ready (dep_rel (w_Tasks w)) (spec_report (dep_rel (w_Tasks w)) tid (tr_Status r) (st w))"
      "w_status w' = (if w_status w = WorkflowRunning then spec_status (st w') else w_status w)"
      "set ids = {k. st w k = Some TaskPending \<and> st w' k = Some TaskReady}" "distinct ids"
      "pushes (jobs_of w ids) e e'"
      "map_of (w_Tasks w') tid = Some
        (if tr_Status r \<in> {TaskRunning, TaskSucceeded, TaskFailed} \<and> taskStatusesGraph (t_status t) (tr_Status r)
         then stored r t else t)" by blast
  have res: "map_option t_result (map_of (w_Tasks w') tid) = Some
        (if tr_Status r \<in> {TaskSucceeded, TaskFailed} \<and> taskStatusesGraph (t_status t) (tr_Status r)
         then Some r else t_result t)"
    unfolding o(7) by (auto simp: stored_def)
  show ?thesis
    using o(1-5) pushes_fields [OF o(6)] res
    by (intro exI [of _ "put_workflow wid w' e'"] exI [of _ w'] exI [of _ ids]) simp
qed

theorem response_refines_witness:
  "\<exists>e' w' ids. OnTaskResponse offset_order 9 ''uuuu'' ''u'' (example_result TaskSucceeded) dispatched_engine = (None, e')
    \<and> map_of (e_workflows e') ''uuuu'' = Some w' \<and> set ids = {k. st dispatched_workflow k = Some TaskPending \<and> st w' k = Some TaskReady}
    \<and> e_queue e' = e_queue dispatched_engine @ jobs_of dispatched_workflow ids"
proof -
  from response_refines [OF dispatched_reachable offset.go_range_axioms dispatched_example(1,2),
      of 9 "example_result TaskSucceeded"] show ?thesis by blast
qed

text \<open>
  Submitting a workflow that \<open>NewWorkflow\<close> built starts it: it becomes RUNNING (an empty
  one stays PENDING), exactly the tasks without dependencies become READY, each of them is
  pushed to the ready queue exactly once, and no other workflow changes.
\<close>

theorem submit_effect:
  assumes rng: "go_range rng" "go_range rng'" and pend: "\<forall>t \<in> set tasks. t_status t = TaskPending"
    and ok: "NewWorkflow rng' uuid created tenantID name tasks = Ok w"
  shows "\<exists>e' w' ids. SubmitWorkflow rng now w e = (w_ID w, e')
    \<and> map_of (e_workflows e') (w_ID w) = Some w'
    \<and> (\<forall>k. k \<noteq> w_ID w \<longrightarrow> map_of (e_workflows e') k = map_of (e_workflows e) k)
    \<and> w_status w' = (if tasks = [] then WorkflowPending else WorkflowRunning)
    \<and> distinct ids \<and> set ids = {k. \<exists>t. map_of (w_Tasks w) k = Some t \<and> t_DependsOn t = []}
    \<and> (\<forall>k. st w' k = (if k \<in> set ids then Some TaskReady else st w k))
    \<and> e_queue e' = e_queue e @ jobs_of w ids"
proof -
  note fresh = NewWorkflow_fresh [OF rng(2) pend ok]
  have valid: "valid_submission uuid tasks"
    using NewWorkflow_invalid [OF rng(2), of uuid tasks created tenantID name] ok by auto
  then have "w = built_workflow uuid created tenantID name tasks"
    using NewWorkflow_valid [OF rng(2)] ok by simp
  moreover have "length (assigned uuid 0 tasks) = length tasks" by (metis assigned_fields(1) length_map)
  ultimately have "length (w_Tasks w) = length tasks"
    by (simp add: built_workflow_def resolved_tasks_def)
  then have empty: "w_Tasks w = [] \<longleftrightarrow> tasks = []" by (metis length_0_conv)
  from SubmitWorkflow_char [OF rng(1) fresh, of now e] obtain w' ids e' where
    s: "SubmitWorkflow rng now w e = (w_ID w, put_workflow (w_ID w) w' e')"
      "st w' = spec_ready (dep_rel (w_Tasks w)) (st w)"
      "w_status w' = (if w_Tasks w = [] then WorkflowPending else WorkflowRunning)"
      "set ids = ready_set w" "distinct ids" "pushes (jobs_of w ids) (put_workflow (w_ID w) w e) e'" by blast
  have ids: "set ids = {k. \<exists>t. map_of (w_Tasks w) k = Some t \<and> t_DependsOn t = []}"
  proof -
    have "(\<forall>d. (k, d) \<notin> dep_rel (w_Tasks w)) \<longleftrightarrow> t_DependsOn t = []" if "map_of (w_Tasks w) k = Some t" for k t
      using that by (auto simp: dep_rel_def)
    then show ?thesis unfolding s(4) fresh_ready [OF fresh] by (auto simp: st_def)
  qed
  have "st w' k = (if k \<in> set ids then Some TaskReady else st w k)" for k
    unfolding s(2,4) by (simp add: spec_ready_def ready_set_def)
  then show ?thesis
    using s ids empty pushes_fields [OF s(6)]
    by (intro exI [of _ "put_workflow (w_ID w) w' e'"] exI [of _ w'] exI [of _ ids]) simp
qed

theorem submit_effect_witness:
  "\<exists>e' w' ids. SubmitWorkflow offset_order 7 example_workflow (NewWorkflowEngine example_bus) = (w_ID example_workflow, e')
    \<and> map_of (e_workflows e') (w_ID example_workflow) = Some w' \<and> w_status w' = WorkflowRunning
    \<and> e_queue e' = jobs_of example_workflow ids"
proof -
  have "\<forall>t \<in> set example_tasks. t_status t = TaskPending"
    by (simp add: example_tasks_def example_task_def)
  from submit_effect [OF offset.go_range_axioms offset.go_range_axioms this example_NewWorkflow,
      of 7 "NewWorkflowEngine example_bus"]
  show ?thesis by (auto simp: NewWorkflowEngine_def NewReadyQueue_def example_tasks_def)
qed

text \<open>
  C13. \<open>CancelTask\<close> on a reachable state: an unknown task and a task that is already in a
  terminal status are refused and nothing changes. Otherwise the task and exactly the pending
  tasks that depend on it, directly or not, become CANCELLED, the workflow takes the status
  the tasks imply, nothing is queued, and only the worker of the cancelled task itself is
  notified: no dependent task is ever at a worker.
\<close>

theorem cancel_task_effect:
  assumes reach: "engine_reachable e" and rng: "go_range rng"
  shows "case findTask rng tid e of
      None \<Rightarrow> CancelTask rng now tid e = (Some (TaskNotFound tid), e)
        \<and> (\<forall>k w. map_of (e_workflows e) k = Some w \<longrightarrow> map_of (w_Tasks w) tid = None)
    | Some (k, w, t) \<Rightarrow>
        if Task_IsFinished t then CancelTask rng now tid e = (Some (TaskAlreadyTerminal tid (t_status t)), e)
        else \<exists>e' w'. CancelTask rng now tid e = (None, e') \<and> map_of (e_workflows e') k = Some w'
          \<and> (\<forall>j. j \<noteq> k \<longrightarrow> map_of (e_workflows e') j = map_of (e_workflows e) j)
          \<and> (\<forall>i. st w' i = (if i = tid \<or> (i, tid) \<in> (dep_rel (w_Tasks w))\<^sup>+ \<and> st w i = Some TaskPending
                            then Some TaskCancelled else st w i))
          \<and> w_status w' = spec_status (st w') \<and> e_queue e' = e_queue e
          \<and> e_notified e' = e_notified e @
              (if e_hasNotifier e \<and> is_running_status (t_status t) then [(t_AssignedTo t, [tid])] else [])"
proof (cases "findTask rng tid e")
  case None
  then show ?thesis using findTask_None [OF rng, of tid e] by (simp add: CancelTask_def)
next
  case (Some kwt)
  then obtain k w t where f: "findTask rng tid e = Some (k, w, t)" by (cases kwt) auto
  have inv: "wf_inv w"
    using engine_invD [OF engine_reachable_inv [OF reach] conjunct1 [OF findTask_Some [OF f]]] by simp
  show ?thesis
  proof (cases "Task_IsFinished t")
    case True
    then show ?thesis using f by (simp add: CancelTask_def)
  next
    case False
    from CancelTask_char [OF rng inv f False refl, of now] obtain w' e' where
      o: "CancelTask rng now tid e = (None, notifyWorkersOfCancellation (running_ref t) (put_workflow k w' e'))"
        "bus_only e e'" "st w' = spec_cancel (dep_rel (w_Tasks w)) tid ((st w)(tid := Some TaskCancelled))"
        "w_status w' = spec_status (st w')" by blast
    have "wf_static w" using inv by (simp add: wf_inv_def)
    from wf_staticD(2) [OF this] have id: "t_ID t = tid"
      using findTask_Some [OF f] by (simp add: ids_are_keys_def)
    have "(i = tid \<or> (i, tid) \<in> (dep_rel (w_Tasks w))\<^sup>+ \<and> st w i = Some TaskPending \<longrightarrow> st w' i = Some TaskCancelled)
      \<and> (\<not> (i = tid \<or> (i, tid) \<in> (dep_rel (w_Tasks w))\<^sup>+ \<and> st w i = Some TaskPending) \<longrightarrow> st w' i = st w i)" for i
      unfolding o(3) spec_cancel_def by auto
    then have st': "\<forall>i. st w' i = (if i = tid \<or> (i, tid) \<in> (dep_rel (w_Tasks w))\<^sup>+ \<and> st w i = Some TaskPending
                            then Some TaskCancelled else st w i)" by auto
    let ?e = "notifyWorkersOfCancellation (running_ref t) (put_workflow k w' e')"
    have "group_refs (running_ref t) [] = (if is_running_status (t_status t) then [(t_AssignedTo t, [tid])] else [])"
      using id by (simp add: running_ref_def)
    then have "e_notified ?e = e_notified e @
        (if e_hasNotifier e \<and> is_running_status (t_status t) then [(t_AssignedTo t, [tid])] else [])"
      using bus_only_fields [OF o(2)] by (auto simp: notify_fields)
    moreover have "map_of (e_workflows ?e) k = Some w'" "\<forall>j. j \<noteq> k \<longrightarrow> map_of (e_workflows ?e) j = map_of (e_workflows e) j"
      "e_queue ?e = e_queue e"
      using bus_only_fields [OF o(2)] by (simp_all add: notify_fields)
    ultimately show ?thesis using f False o(1,4) st' by (simp only: option.case prod.case if_False) blast
  qed
qed

theorem cancel_task_effect_witness:
  "\<exists>e' w'. CancelTask offset_order 9 ''u'' dispatched_engine = (None, e')
    \<and> map_of (e_workflows e') ''uuuu'' = Some w' \<and> st w' ''u'' = Some TaskCancelled
    \<and> w_status w' = spec_status (st w') \<and> e_notified e' = [(''w1'', [''u''])]"
proof -
  have "findTask offset_order ''u'' dispatched_engine
      = Some (''uuuu'', dispatched_workflow, built_task ''u'' ''a'' [] TaskDispatched ''w1'')"
    using dispatched_state dispatched_example by (simp add: findTask_def offset_order_def)
  with cancel_task_effect [OF dispatched_reachable offset.go_range_axioms, where tid = "''u''" and now = 9]
    dispatched_state
  show ?thesis by (auto simp: Task_IsFinished_def is_running_status_def built_task_def)
qed

text \<open>
  C14. \<open>CancelWorkflow\<close> on a reachable state: an unknown workflow is refused and nothing
  changes. Otherwise every unfinished task becomes CANCELLED and no finished task changes, an
  unfinished workflow becomes CANCELLED and a finished one keeps its status, and each worker
  that holds DISPATCHED or RUNNING tasks of the workflow gets exactly one call, with exactly
  those tasks.
\<close>

theorem cancel_workflow_effect:
  assumes reach: "engine_reachable e" and rng: "go_range rng"
  shows "case map_of (e_workflows e) wid of
      None \<Rightarrow> CancelWorkflow rng now wid e = (Some (WorkflowNotFound wid), e)
    | Some w \<Rightarrow> \<exists>e' w' calls. CancelWorkflow rng now wid e = (None, e') \<and> map_of (e_workflows e') wid = Some w'
        \<and> (\<forall>k. k \<noteq> wid \<longrightarrow> map_of (e_workflows e') k = map_of (e_workflows e) k)
        \<and> (\<forall>i. st w' i = (if st w i \<in> Some ` open_statuses then Some TaskCancelled else st w i))
        \<and> w_status w' = (if Workflow_IsFinished w then w_status w else WorkflowCancelled)
        \<and> e_queue e' = e_queue e \<and> e_notified e' = e_notified e @ calls \<and> gomap_wf calls
        \<and> (e_hasNotifier e \<longrightarrow> (\<forall>i. set (batch calls i) = held_by i w))"
proof (cases "map_of (e_workflows e) wid")
  case None
  then show ?thesis by (simp add: CancelWorkflow_def)
next
  case (Some w)
  have inv: "wf_inv w" using engine_invD [OF engine_reachable_inv [OF reach] Some] by simp
  from CancelWorkflow_char [OF rng inv Some, of now] obtain w' running e' where
    o: "CancelWorkflow rng now wid e = (None, notifyWorkersOfCancellation running (put_workflow wid w' e'))"
      "bus_only e e'" "st w' = (\<lambda>k. if st w k \<in> Some ` open_statuses then Some TaskCancelled else st w k)"
      "w_status w' = (if w_status w \<in> {WorkflowPending, WorkflowRunning} then WorkflowCancelled else w_status w)"
      "set running = refs_of w {k. st w k \<in> Some ` open_statuses}" by blast
  let ?e = "notifyWorkersOfCancellation running (put_workflow wid w' e')"
  let ?calls = "if e_hasNotifier e then group_refs running [] else []"
  have "set (batch (group_refs running []) i) = {r_TaskID r |r. r \<in> set running \<and> r_WorkerID r = i}" for i
    unfolding group_refs_batch by (auto simp: batch_def)
  also have "\<dots> i = held_by i w" for i
    unfolding o(5) using inv by (intro running_refs_held) (auto simp: wf_inv_def open_statuses_def)
  finally have held: "set (batch (group_refs running []) i) = held_by i w" for i .
  have "gomap_wf ?calls" using group_refs_keys [of "[]" running] by simp
  moreover have "w_status w' = (if Workflow_IsFinished w then w_status w else WorkflowCancelled)"
    unfolding o(4) by (cases "w_status w") (simp_all add: Workflow_IsFinished_def)
  moreover have "e_notified ?e = e_notified e @ ?calls" "e_queue ?e = e_queue e"
    "map_of (e_workflows ?e) wid = Some w'" "\<forall>k. k \<noteq> wid \<longrightarrow> map_of (e_workflows ?e) k = map_of (e_workflows e) k"
    using bus_only_fields [OF o(2)] by (simp_all add: notify_fields)
  moreover have "\<forall>i. st w' i = (if st w i \<in> Some ` open_statuses then Some TaskCancelled else st w i)"
    unfolding o(3) by simp
  moreover have "e_hasNotifier e \<longrightarrow> (\<forall>i. set (batch ?calls i) = held_by i w)" using held by simp
  ultimately show ?thesis unfolding Some option.case using o(1) by blast
qed

theorem cancel_workflow_effect_witness:
  "\<exists>e' w' calls. CancelWorkflow offset_order 9 ''uuuu'' dispatched_engine = (None, e')
    \<and> map_of (e_workflows e') ''uuuu'' = Some w' \<and> w_status w' = WorkflowCancelled
    \<and> st w' ''u'' = Some TaskCancelled \<and> e_notified e' = calls \<and> set (batch calls ''w1'') = {''u''}"
proof -
  have "held_by ''w1'' dispatched_workflow = {''u''}"
    by (auto simp: held_by_def is_running_status_def dispatched_workflow_def built_task_def split: if_splits)
  moreover from cancel_workflow_effect [OF dispatched_reachable offset.go_range_axioms, where wid = "''uuuu''" and now = 9]
  obtain e' w' calls where c: "CancelWorkflow offset_order 9 ''uuuu'' dispatched_engine = (None, e')"
    "map_of (e_workflows e') ''uuuu'' = Some w'"
    "\<forall>i. st w' i = (if st dispatched_workflow i \<in> Some ` open_statuses then Some TaskCancelled else st dispatched_workflow i)"
    "w_status w' = (if Workflow_IsFinished dispatched_workflow then w_status dispatched_workflow else WorkflowCancelled)"
    "e_notified e' = e_notified dispatched_engine @ calls"
    "e_hasNotifier dispatched_engine \<longrightarrow> (\<forall>i. set (batch calls i) = held_by i dispatched_workflow)"
    unfolding dispatched_example(1) option.case by blast
  moreover have "st dispatched_workflow ''u'' = Some TaskDispatched"
    by (simp add: st_def dispatched_example(2) built_task_def)
  ultimately show ?thesis
    using dispatched_example(3) dispatched_state
    by (intro exI [of _ e'] exI [of _ w'] exI [of _ calls]) (simp add: Workflow_IsFinished_def open_statuses_def)
qed

text \<open>
  C15. \<open>ReassignDeadWorkerTasks\<close> on a reachable state returns exactly the tasks that were
  DISPATCHED to or RUNNING at the dead worker, in all workflows, to READY with no worker
  assigned, and pushes each of them to the ready queue exactly once; all other tasks and all
  workflow statuses stay as they are.
\<close>

theorem reassign_effect:
  assumes reach: "engine_reachable e" and rng: "go_range rng"
    and e': "e' = ReassignDeadWorkerTasks rng now i e"
  shows "keys (e_workflows e') = keys (e_workflows e)
    \<and> (\<forall>k w. map_of (e_workflows e) k = Some w \<longrightarrow> (\<exists>w'. map_of (e_workflows e') k = Some w' \<and> w_status w' = w_status w
        \<and> (\<forall>j. map_of (w_Tasks w') j = map_option
              (\<lambda>t. if t_AssignedTo t = i \<and> is_running_status (t_status t)
                    then t\<lparr>t_AssignedTo := '''', t_status := TaskReady\<rparr> else t) (map_of (w_Tasks w) j))))
    \<and> (\<exists>js. e_queue e' = e_queue e @ js \<and> distinct (map j_OnDispatched js)
        \<and> set (map j_OnDispatched js) = {Some (k, j) |k j. \<exists>w. map_of (e_workflows e) k = Some w \<and> j \<in> held_by i w})"
proof (intro conjI allI impI)
  note inv = engine_reachable_inv [OF reach]
  have ws: "\<forall>k w. map_of (e_workflows e) k = Some w \<longrightarrow> w_ID w = k \<and> wf_inv w"
    using inv by (simp add: engine_inv_def)
  let ?ks = "rng 0 (keys (e_workflows e))"
  from reassign_workflows_char [OF rng engine_keys_distinct [OF inv rng] ws, of now i]
  obtain js where r: "\<And>k. map_of (e_workflows e') k = (if k \<in> set ?ks
      then map_option (\<lambda>w. reclaim (held_by i w) w) (map_of (e_workflows e) k) else map_of (e_workflows e) k)"
    "keys (e_workflows e') = keys (e_workflows e)" "e_queue e' = e_queue e @ js" "distinct (map j_OnDispatched js)"
    "set (map j_OnDispatched js) = Some ` held_tasks i (e_workflows e) (set ?ks)"
    by (auto simp: e' ReassignDeadWorkerTasks_def)
  show "keys (e_workflows e') = keys (e_workflows e)" by (rule r(2))
  show "\<exists>w'. map_of (e_workflows e') k = Some w' \<and> w_status w' = w_status w
        \<and> (\<forall>j. map_of (w_Tasks w') j = map_option
              (\<lambda>t. if t_AssignedTo t = i \<and> is_running_status (t_status t)
                    then t\<lparr>t_AssignedTo := '''', t_status := TaskReady\<rparr> else t) (map_of (w_Tasks w) j))"
    if w: "map_of (e_workflows e) k = Some w" for k w
  proof -
    have "map_of (e_workflows e') k = Some (reclaim (held_by i w) w)"
      using w r(1) [of k] map_of_Some_keys [OF w] go_range.set_rng [OF rng] by simp
    moreover have "map_of (w_Tasks (reclaim (held_by i w) w)) j = map_option
              (\<lambda>t. if t_AssignedTo t = i \<and> is_running_status (t_status t)
                    then t\<lparr>t_AssignedTo := '''', t_status := TaskReady\<rparr> else t) (map_of (w_Tasks w) j)" for j
      by (cases "map_of (w_Tasks w) j") (simp_all add: held_by_def)
    ultimately show ?thesis
      by (intro exI [of _ "reclaim (held_by i w) w"]) (simp del: reclaim_simps(5))
  qed
  have "Some ` held_tasks i (e_workflows e) (set ?ks)
      = {Some (k, j) |k j. \<exists>w. map_of (e_workflows e) k = Some w \<and> j \<in> held_by i w}"
    unfolding held_tasks_def go_range.set_rng [OF rng] using map_of_Some_keys [of "e_workflows e"] by blast
  with r show "\<exists>js. e_queue e' = e_queue e @ js \<and> distinct (map j_OnDispatched js)
        \<and> set (map j_OnDispatched js) = {Some (k, j) |k j. \<exists>w. map_of (e_workflows e) k = Some w \<and> j \<in> held_by i w}"
    by auto
qed

theorem reassign_effect_witness:
  "\<exists>w'. map_of (e_workflows (ReassignDeadWorkerTasks offset_order 9 ''w1'' dispatched_engine)) ''uuuu'' = Some w'
    \<and> map_option t_status (map_of (w_Tasks w') ''u'') = Some TaskReady"
proof -
  from reassign_effect [OF dispatched_reachable offset.go_range_axioms refl, where i = "''w1''" and now = 9]
    dispatched_example(1)
  obtain w' where "map_of (e_workflows (ReassignDeadWorkerTasks offset_order 9 ''w1'' dispatched_engine)) ''uuuu'' = Some w'"
    "\<forall>j. map_of (w_Tasks w') j = map_option
              (\<lambda>t. if t_AssignedTo t = ''w1'' \<and> is_running_status (t_status t)
                    then t\<lparr>t_AssignedTo := '''', t_status := TaskReady\<rparr> else t) (map_of (w_Tasks dispatched_workflow) j)"
    by blast
  then show ?thesis using dispatched_example(2) by (simp add: is_running_status_def built_task_def)
qed

text \<open>
  C16. Whatever the engine does next in a reachable state, no workflow disappears, each task
  moves by at most one transition of the task automaton and each workflow by at most one
  transition of the workflow automaton, and in a finished workflow no status changes again.
\<close>

theorem engine_steps_legal:
  assumes "engine_reachable e" and "engine_step e e'" and "map_of (e_workflows e) k = Some w"
  shows "\<exists>w'. map_of (e_workflows e') k = Some w' \<and> legal_step w w'
    \<and> (Workflow_IsFinished w \<longrightarrow> w_status w' = w_status w \<and> st w' = st w)"
proof -
  from engine_step_legal [OF assms(2) engine_reachable_inv [OF assms(1)] assms(3)]
  obtain w' where w': "map_of (e_workflows e') k = Some w'" "legal_step w w'" by blast
  have "w_status w' = w_status w" if "Workflow_IsFinished w"
    using w'(2) that by (cases "w_status w") (auto simp: legal_step_def Workflow_IsFinished_def WorkflowStatus_CanTransitTo_None_iff)
  with w' show ?thesis by (auto simp: legal_step_def)
qed

theorem engine_steps_legal_witness:
  "\<exists>w'. map_of (e_workflows (snd (CancelWorkflow offset_order 9 ''uuuu'' dispatched_engine))) ''uuuu'' = Some w'
    \<and> legal_step dispatched_workflow w'"
  using engine_steps_legal [OF dispatched_reachable step_cancel_workflow [OF offset.go_range_axioms] dispatched_example(1),
    of 9 "''uuuu''"] by blast

end
