(* ===== verification/Engine_Progress.thy ===== *)
theory Engine_Progress
  imports Engine_Theorems
begin

text \<open>
  Workflows come to an end. A run of a workflow consists of dispatches of its READY tasks and of
  accepted reports RUNNING, SUCCEEDED and FAILED for its tasks, in any order, interleaved with
  whatever the engine does for other workflows. Each such step uses up a part of a budget of
  three steps per task.
\<close>

section \<open>Runs\<close>

inductive workflow_run :: "string \<Rightarrow> 'h Engine \<Rightarrow> nat \<Rightarrow> 'h Engine \<Rightarrow> bool" for wid e where
  run_start: "workflow_run wid e 0 e"
| run_dispatched: "workflow_run wid e n e1 \<Longrightarrow> map_of (e_workflows e1) wid = Some w \<Longrightarrow>
    map_of (w_Tasks w) tid = Some t \<Longrightarrow> t_status t = TaskReady \<Longrightarrow>
    workflow_run wid e (Suc n) (OnTaskDispatched now (wid, tid) worker e1)"
| run_reported: "workflow_run wid e n e1 \<Longrightarrow> map_of (e_workflows e1) wid = Some w \<Longrightarrow>
    map_of (w_Tasks w) tid = Some t \<Longrightarrow> go_range rng \<Longrightarrow>
    tr_Status r \<in> {TaskRunning, TaskSucceeded, TaskFailed} \<Longrightarrow> taskStatusesGraph (t_status t) (tr_Status r) \<Longrightarrow>
    workflow_run wid e (Suc n) (snd (OnTaskResponse rng now wid tid r e1))"
| run_other: "workflow_run wid e n e1 \<Longrightarrow> engine_step e1 e2 \<Longrightarrow>
    map_of (e_workflows e2) wid = map_of (e_workflows e1) wid \<Longrightarrow> workflow_run wid e n e2"

section \<open>The budget\<close>

fun steps_left :: "TaskStatus option \<Rightarrow> nat" where
  "steps_left (Some TaskPending) = 3"
| "steps_left (Some TaskReady) = 3"
| "steps_left (Some TaskDispatched) = 2"
| "steps_left (Some TaskRunning) = 1"
| "steps_left _ = 0"

definition budget :: "Workflow \<Rightarrow> nat" where
  "budget w = (\<Sum>k \<in> set (keys (w_Tasks w)). steps_left (st w k))"

lemma steps_left_le: "steps_left x \<le> 3"
  by (induction x rule: steps_left.induct) simp_all

lemma budget_bound: "budget w \<le> 3 * length (w_Tasks w)"
proof -
  have "budget w \<le> card (set (keys (w_Tasks w))) * 3"
    unfolding budget_def using sum_bounded_above [of "set (keys (w_Tasks w))" "\<lambda>k. steps_left (st w k)" 3] steps_left_le by simp
  also have "\<dots> \<le> length (w_Tasks w) * 3" using card_length [of "keys (w_Tasks w)"] by simp
  finally show ?thesis by simp
qed

lemma budget_decreases:
  assumes "keys (w_Tasks w') = keys (w_Tasks w)" "\<And>k. steps_left (st w' k) \<le> steps_left (st w k)"
    and "steps_left (st w' i) < steps_left (st w i)"
  shows "budget w' < budget w"
proof -
  have "i \<in> set (keys (w_Tasks w))"
    using assms(3) by (cases "map_of (w_Tasks w) i") (auto simp: st_def image_iff dest!: map_of_SomeD intro: bexI [rotated])
  then show ?thesis unfolding budget_def assms(1) using assms(2,3) by (intro sum_strict_mono_ex1) auto
qed

lemma report_steps_left:
  assumes "s i = Some a" "b \<in> {TaskRunning, TaskSucceeded, TaskFailed}" "taskStatusesGraph a b" "a \<noteq> TaskRetrying"
  shows "steps_left (spec_ready E (spec_report E i b s) k) \<le> steps_left (s k)"
    and "steps_left (spec_ready E (spec_report E i b s) i) < steps_left (s i)"
  using assms by (cases a; auto simp: spec_ready_def spec_report_def spec_cancel_def)+

section \<open>Every step of a run\<close>

text \<open>The workflow has the status its tasks imply.\<close>

definition on_course :: "Workflow \<Rightarrow> bool" where
  "on_course w \<longleftrightarrow> wf_inv w \<and> w_status w = spec_status (st w)"

lemma on_course_running: "wf_inv w \<Longrightarrow> w_status w = WorkflowRunning \<Longrightarrow> on_course w"
  by (auto simp: on_course_def wf_inv_def has_status_iff spec_status_def)

lemma on_course_open: "on_course w \<Longrightarrow> st w k \<in> Some ` open_statuses \<Longrightarrow> w_status w = WorkflowRunning"
  by (auto simp: on_course_def spec_status_def)

lemma dispatched_step:
  assumes w: "on_course w" "map_of (e_workflows e) wid = Some w"
    and t: "map_of (w_Tasks w) tid = Some t" "t_status t = TaskReady"
  shows "\<exists>w'. map_of (e_workflows (OnTaskDispatched now (wid, tid) worker e)) wid = Some w' \<and> on_course w'
    \<and> keys (w_Tasks w') = keys (w_Tasks w) \<and> budget w' < budget w"
proof -
  have inv: "wf_inv w" using w(1) by (simp add: on_course_def)
  have "\<exists>w' e'. OnTaskDispatched now (wid, tid) worker e = put_workflow wid w' e' \<and> bus_only e e'
    \<and> wf_inv w' \<and> evolves w w' \<and> w_status w' = w_status w
    \<and> w' = with_tasks (\<lambda>k t. if k = tid then dispatched_to worker t else t) w"
    using OnTaskDispatched_char [OF inv, of e "(wid, tid)" t now worker] w(2) t(1) by simp
  then obtain w' e' where d: "OnTaskDispatched now (wid, tid) worker e = put_workflow wid w' e'"
    "wf_inv w'" "evolves w w'" "w_status w' = w_status w"
    "w' = with_tasks (\<lambda>k t. if k = tid then dispatched_to worker t else t) w" by blast
  have st': "st w' = (st w)(tid := Some TaskDispatched)"
    using t by (auto simp: d(5) st_def dispatched_to_def fun_eq_iff option.map_comp comp_def option.map_ident)
  have old: "st w tid = Some TaskReady" using t by (simp add: st_def)
  then have "w_status w' = WorkflowRunning"
    using on_course_open [OF w(1), of tid] by (simp add: d(4) open_statuses_def)
  then have "on_course w'" by (rule on_course_running [OF d(2)])
  moreover have "budget w' < budget w"
    by (rule budget_decreases [OF evolvesD(2) [OF d(3)], of tid]) (auto simp: st' old)
  ultimately show ?thesis using evolvesD(2) [OF d(3)] by (auto simp: d(1) put_workflow_def)
qed

lemma reported_step:
  assumes w: "on_course w" "map_of (e_workflows e) wid = Some w" and rng: "go_range rng"
    and t: "map_of (w_Tasks w) tid = Some t" "taskStatusesGraph (t_status t) (tr_Status r)"
    and b: "tr_Status r \<in> {TaskRunning, TaskSucceeded, TaskFailed}"
  shows "\<exists>w'. map_of (e_workflows (snd (OnTaskResponse rng now wid tid r e))) wid = Some w' \<and> on_course w'
    \<and> keys (w_Tasks w') = keys (w_Tasks w) \<and> budget w' < budget w"
proof -
  have inv: "wf_inv w" using w(1) by (simp add: on_course_def)
  from OnTaskResponse_char [OF rng inv w(2) t(1) refl, of now r] obtain w' e' where
    o: "OnTaskResponse rng now wid tid r e = (None, put_workflow wid w' e')" "wf_inv w'" "evolves w w'"
      "st w' = spec_ready (dep_rel (w_Tasks w)) (spec_report (dep_rel (w_Tasks w)) tid (tr_Status r) (st w))"
      "w_status w' = (if w_status w = WorkflowRunning then spec_status (st w') else w_status w)" by blast
  have s: "st w tid = Some (t_status t)" using t(1) by (simp add: st_def)
  have nr: "t_status t \<noteq> TaskRetrying" using inv s by (auto simp: wf_inv_def plain_def)
  then have "t_status t \<in> open_statuses" using t(2) b by (cases "t_status t") (auto simp: open_statuses_def)
  then have "on_course w'"
    using on_course_open [OF w(1), of tid] o(2,5) s by (simp add: on_course_def)
  moreover have "budget w' < budget w"
    by (rule budget_decreases [OF evolvesD(2) [OF o(3)], of tid])
       (simp_all only: o(4) report_steps_left [of "st w" tid, OF s b t(2) nr])
  ultimately show ?thesis using evolvesD(2) [OF o(3)] by (auto simp: o(1) put_workflow_def)
qed

lemma run_bounded:
  assumes "workflow_run wid e n e'" "engine_inv e" "map_of (e_workflows e) wid = Some w" "w_status w = WorkflowRunning"
  shows "engine_inv e' \<and> (\<exists>w'. map_of (e_workflows e') wid = Some w' \<and> on_course w'
    \<and> keys (w_Tasks w') = keys (w_Tasks w) \<and> n + budget w' \<le> budget w)"
  using assms(1)
proof (induction rule: workflow_run.induct)
  case run_start
  then show ?case using assms(2-4) on_course_running engine_invD by fastforce
next
  case (run_dispatched n e1 w1 tid t now worker)
  then show ?case
    using dispatched_step [of w1 e1 wid tid t now worker] dispatched_inv [of e1 now "(wid, tid)" worker] by fastforce
next
  case (run_reported n e1 w1 tid t rng r now)
  then show ?case
    using reported_step [of w1 e1 wid rng tid t r now] response_inv [of e1 rng now wid tid r] by fastforce
next
  case (run_other n e1 e2)
  then show ?case using engine_step_inv by auto
qed

lemma run_goes_on:
  assumes run: "workflow_run wid e n e'" and w: "map_of (e_workflows e') wid = Some w" "wf_inv w" "w_status w = WorkflowRunning"
  shows "\<exists>e''. workflow_run wid e (Suc n) e''"
proof -
  have s: "wf_static w" "plain w" "sound_deps (dep_rel (w_Tasks w)) (st w)"
    "settled (dep_rel (w_Tasks w)) (st w)" "has_status w open_statuses" using w by (simp_all add: wf_inv_def)
  from s(5) obtain i where i: "st w i \<in> Some ` open_statuses" by (auto simp: has_status_iff)
  have "plain_st (st w)" using s(2) by (simp add: plain_st_iff)
  from wf_staticD(4,3) [OF s(1)] this s(3,4)
  have "\<exists>j. st w j \<in> {Some TaskReady, Some TaskDispatched, Some TaskRunning}"
    by (rule not_stuck) (use wf_staticD(6) [OF s(1)] i in blast)+
  then obtain j t where j: "map_of (w_Tasks w) j = Some t" "t_status t \<in> {TaskReady, TaskDispatched, TaskRunning}"
    by (auto simp: st_def)
  have "workflow_run wid e (Suc n) (snd (OnTaskResponse offset_order 0 wid j (example_result TaskSucceeded) e'))"
    if "t_status t \<in> {TaskDispatched, TaskRunning}"
    by (rule run_reported [OF run w(1) j(1) offset.go_range_axioms]) (use that in \<open>auto simp: example_result_def\<close>)
  with j(2) run_dispatched [OF run w(1) j(1)] show ?thesis by blast
qed

section \<open>Properties\<close>

text \<open>
  C3. A running workflow comes to an end: however its tasks are dispatched and whatever the
  workers report, in any order and interleaved with any other work of the engine, at most three
  dispatches and accepted reports per task are possible. As long as the workflow is RUNNING one
  more is possible, and when it has left RUNNING it is FAILED if one of its tasks is, otherwise
  CANCELLED if one of its tasks is, and otherwise SUCCEEDED.
\<close>

theorem every_run_completes:
  assumes "engine_reachable e" and "map_of (e_workflows e) wid = Some w" and "w_status w = WorkflowRunning"
    and "workflow_run wid e n e'"
  shows "\<exists>w'. map_of (e_workflows e') wid = Some w' \<and> n \<le> 3 * length (w_Tasks w)
    \<and> (if w_status w' = WorkflowRunning then \<exists>e''. workflow_run wid e (Suc n) e''
       else Workflow_AllTasksFinished w'
         \<and> w_status w' = (if Workflow_HasFailedTask w' then WorkflowFailed
             else if Workflow_HasCancelledTask w' then WorkflowCancelled else WorkflowSucceeded))"
proof -
  from run_bounded [OF assms(4) engine_reachable_inv [OF assms(1)] assms(2,3)] obtain w' where
    w': "map_of (e_workflows e') wid = Some w'" "on_course w'" "n + budget w' \<le> budget w" by blast
  have inv: "wf_inv w'" "plain w'" "gomap_wf (w_Tasks w')" "w_status w' = spec_status (st w')"
    using w'(2) wf_staticD(1) by (auto simp: on_course_def wf_inv_def)
  show ?thesis
  proof (cases "w_status w' = WorkflowRunning")
    case True
    then show ?thesis using w'(1,3) run_goes_on [OF assms(4) w'(1) inv(1)] budget_bound [of w] by auto
  next
    case False
    then show ?thesis
      using w'(1,3) inv(4) budget_bound [of w] task_loops [OF inv(3,2)]
      by (auto simp: spec_status_def has_status_iff split: if_splits)
  qed
qed

theorem every_run_completes_witness:
  "\<exists>e' w'. workflow_run ''uuuu'' dispatched_engine 1 e' \<and> map_of (e_workflows e') ''uuuu'' = Some w'
    \<and> 1 \<le> 3 * length (w_Tasks dispatched_workflow)
    \<and> (if w_status w' = WorkflowRunning then \<exists>e''. workflow_run ''uuuu'' dispatched_engine 2 e''
       else Workflow_AllTasksFinished w')"
proof -
  have run: "workflow_run ''uuuu'' dispatched_engine (Suc 0)
      (snd (OnTaskResponse offset_order 9 ''uuuu'' ''u'' (example_result TaskSucceeded) dispatched_engine))"
    by (rule run_reported [OF run_start dispatched_example(1,2) offset.go_range_axioms])
       (simp_all add: example_result_def built_task_def)
  from every_run_completes [OF dispatched_reachable dispatched_example(1,3) run] run show ?thesis
    by (auto simp: numeral_2_eq_2 split: if_splits)
qed

end
