(* ===== verification/Worker_Client.thy ===== *)
theory Worker_Client
  imports Scheduler_Queue
begin

text \<open>
  \<^verbatim>\<open>control-plane/client/worker_client.go\<close>: the connections of the control plane to its
  workers. \<^verbatim>\<open>grpc.NewClient\<close> (\<open>dial\<close>) and the calls on a connection (\<open>rpc\<close>) are
  parameters: they return an error text or a value. A connection is a value of type
  \<open>'c\<close>; \<^verbatim>\<open>AddressOf\<close> is the interface \<^verbatim>\<open>AddressResolver\<close>.
\<close>

record 'c WorkerClient =
  wc_conns :: "'c gomap"

definition NewWorkerClient :: "'c WorkerClient" where
  "NewWorkerClient = \<lparr>wc_conns = []\<rparr>"

datatype client_error = DialWorker string string | DispatchToWorker string string | CancelTasksOnWorker string string

fun client_error_msg :: "client_error \<Rightarrow> string" where
  "client_error_msg (DialWorker w err) = ''dial worker '' @ w @ '': '' @ err"
| "client_error_msg (DispatchToWorker w err) = ''dispatch to worker '' @ w @ '': '' @ err"
| "client_error_msg (CancelTasksOnWorker w err) = ''cancel tasks on worker '' @ w @ '': '' @ err"

definition WorkerClient_getOrDial ::
  "(string \<Rightarrow> string + 'c) \<Rightarrow> (string \<Rightarrow> string) \<Rightarrow> string \<Rightarrow> 'c WorkerClient \<Rightarrow> (client_error + 'c) \<times> 'c WorkerClient" where
  "WorkerClient_getOrDial dial addressOf workerID c =
     (case map_of (wc_conns c) workerID of
        Some conn \<Rightarrow> (Inr conn, c)
      | None \<Rightarrow>
          (case dial (addressOf workerID) of
             Inl err \<Rightarrow> (Inl (DialWorker workerID err), c)
           | Inr conn \<Rightarrow> (Inr conn, c\<lparr>wc_conns := AList.update workerID conn (wc_conns c)\<rparr>)))"

record DispatchResponse =
  dres_Accepted :: bool
  dres_Reason :: string

definition WorkerClient_Dispatch ::
  "(string \<Rightarrow> string + 'c) \<Rightarrow> ('c \<Rightarrow> DispatchRequest \<Rightarrow> string + DispatchResponse) \<Rightarrow> (string \<Rightarrow> string) \<Rightarrow>
   string \<Rightarrow> DispatchRequest \<Rightarrow> 'c WorkerClient \<Rightarrow> (client_error + DispatchResponse) \<times> 'c WorkerClient" where
  "WorkerClient_Dispatch dial rpc addressOf workerID req c =
     (case WorkerClient_getOrDial dial addressOf workerID c of
        (Inl err, c') \<Rightarrow> (Inl err, c')
      | (Inr conn, c') \<Rightarrow>
          (case rpc conn req of
             Inl err \<Rightarrow> (Inl (DispatchToWorker workerID err), c')
           | Inr resp \<Rightarrow> (Inr resp, c')))"

definition WorkerClient_CancelTasks ::
  "(string \<Rightarrow> string + 'c) \<Rightarrow> ('c \<Rightarrow> string list \<Rightarrow> string + bool gomap) \<Rightarrow> (string \<Rightarrow> string) \<Rightarrow>
   string \<Rightarrow> string list \<Rightarrow> 'c WorkerClient \<Rightarrow> (client_error + bool gomap) \<times> 'c WorkerClient" where
  "WorkerClient_CancelTasks dial rpc addressOf workerID taskIDs c =
     (case WorkerClient_getOrDial dial addressOf workerID c of
        (Inl err, c') \<Rightarrow> (Inl err, c')
      | (Inr conn, c') \<Rightarrow>
          (case rpc conn taskIDs of
             Inl err \<Rightarrow> (Inl (CancelTasksOnWorker workerID err), c')
           | Inr resp \<Rightarrow> (Inr resp, c')))"

definition WorkerClient_CloseConn :: "string \<Rightarrow> 'c WorkerClient \<Rightarrow> 'c WorkerClient" where
  "WorkerClient_CloseConn workerID c =
     (if map_of (wc_conns c) workerID \<noteq> None
      then c\<lparr>wc_conns := AList.delete workerID (wc_conns c)\<rparr> else c)"

section \<open>One connection per worker\<close>

lemma getOrDial_again:
  "WorkerClient_getOrDial dial addressOf w c = (Inr conn, c') \<Longrightarrow>
   WorkerClient_getOrDial dial' addressOf' w c' = (Inr conn, c')"
  by (auto simp: WorkerClient_getOrDial_def split: option.splits sum.splits)

lemma getOrDial_other:
  "WorkerClient_getOrDial dial addressOf w c = (r, c') \<Longrightarrow> v \<noteq> w \<Longrightarrow> map_of (wc_conns c') v = map_of (wc_conns c) v"
  by (auto simp: WorkerClient_getOrDial_def split: option.splits sum.splits)

lemma CloseConn_lookup:
  "map_of (wc_conns (WorkerClient_CloseConn w c)) v = (if v = w then None else map_of (wc_conns c) v)"
  by (auto simp: WorkerClient_CloseConn_def)

text \<open>
  The client dials a worker once: a successful \<open>getOrDial\<close> stores the connection, every
  later call for that worker returns it without dialing (whatever the dialer and the resolver
  would now say), a failed dial stores nothing and is reported with the worker's ID, and after
  \<open>CloseConn\<close> the next call dials the address the resolver gives then.
\<close>

theorem one_connection_per_worker:
  "case WorkerClient_getOrDial dial addressOf w c of
     (Inl err, c') \<Rightarrow> c' = c \<and> (\<exists>e. dial (addressOf w) = Inl e \<and> err = DialWorker w e)
   | (Inr conn, c') \<Rightarrow> WorkerClient_getOrDial dial' addressOf' w c' = (Inr conn, c')
       \<and> fst (WorkerClient_getOrDial dial' addressOf' w (WorkerClient_CloseConn w c'))
         = map_sum (DialWorker w) id (dial' (addressOf' w))"
proof (cases "WorkerClient_getOrDial dial addressOf w c")
  case (Pair r c')
  show ?thesis
  proof (cases r)
    case (Inl err)
    then show ?thesis using Pair by (auto simp: WorkerClient_getOrDial_def split: option.splits sum.splits)
  next
    case (Inr conn)
    have "fst (WorkerClient_getOrDial dial' addressOf' w (WorkerClient_CloseConn w c'))
        = map_sum (DialWorker w) id (dial' (addressOf' w))"
      by (simp add: WorkerClient_getOrDial_def CloseConn_lookup split: sum.split)
    then show ?thesis using getOrDial_again Pair Inr by auto
  qed
qed

end
