(* ===== verification/Linked_Queue.thy ===== *)
theory Linked_Queue
  imports Queue_Spec
begin

text \<open>
  The singly linked queue of \<^verbatim>\<open>pkg/worker_pool/linked_queue.go\<close>; the node list of
  \<^verbatim>\<open>pkg/retry_queue/retry_queue.go\<close> (\<^verbatim>\<open>enqueue\<close>, \<^verbatim>\<open>dequeue\<close>, \<^verbatim>\<open>head\<close>,
  \<^verbatim>\<open>tail\<close>, \<^verbatim>\<open>len\<close>) is the same structure. Nodes live in a store: a pointer is an
  index into \<open>lq_store\<close>, allocation appends a node, and \<open>None\<close> is the nil pointer.
  Dereferencing nil makes an operation return \<open>None\<close>.
\<close>

section \<open>The code\<close>

record 'a Item =
  i_value :: 'a
  i_next :: "nat option"

record 'a LinkedQueue =
  lq_store :: "'a Item list"
  lq_head :: "nat option"
  lq_tail :: "nat option"
  lq_size :: int

definition NewLinkedQueue :: "'a LinkedQueue" where
  "NewLinkedQueue = \<lparr>lq_store = [], lq_head = None, lq_tail = None, lq_size = 0\<rparr>"

definition LinkedQueue_Queue :: "'a \<Rightarrow> 'a LinkedQueue \<Rightarrow> 'a LinkedQueue option" where
  "LinkedQueue_Queue v q =
     (let item = length (lq_store q);
          store = lq_store q @ [\<lparr>i_value = v, i_next = None\<rparr>]
      in if lq_head q = None
         then Some (q\<lparr>lq_store := store, lq_head := Some item, lq_tail := Some item, lq_size := lq_size q + 1\<rparr>)
         else (case lq_tail q of
                 None \<Rightarrow> None
               | Some t \<Rightarrow>
                   Some (q\<lparr>lq_store := store[t := (store ! t)\<lparr>i_next := Some item\<rparr>],
                           lq_tail := Some item, lq_size := lq_size q + 1\<rparr>)))"

definition LinkedQueue_Dequeue :: "'a LinkedQueue \<Rightarrow> 'a option \<times> 'a LinkedQueue" where
  "LinkedQueue_Dequeue q =
     (case lq_head q of
        None \<Rightarrow> (None, q)
      | Some h \<Rightarrow>
          (let next = i_next (lq_store q ! h)
           in (Some (i_value (lq_store q ! h)),
               q\<lparr>lq_head := next,
                 lq_tail := (if next = None then None else lq_tail q),
                 lq_store := (lq_store q)[h := (lq_store q ! h)\<lparr>i_next := None\<rparr>],
                 lq_size := lq_size q - 1\<rparr>)))"

definition LinkedQueue_Size :: "'a LinkedQueue \<Rightarrow> int" where
  "LinkedQueue_Size q = lq_size q"

section \<open>The list a queue represents\<close>

fun chain :: "'a Item list \<Rightarrow> nat list \<Rightarrow> bool" where
  "chain s [] = True"
| "chain s [a] = (i_next (s ! a) = None)"
| "chain s (a # b # as) = (i_next (s ! a) = Some b \<and> chain s (b # as))"

definition last_of :: "nat list \<Rightarrow> nat option" where
  "last_of as = (if as = [] then None else Some (last as))"

definition head_of :: "nat list \<Rightarrow> nat option" where
  "head_of as = (if as = [] then None else Some (hd as))"

definition cells :: "'a LinkedQueue \<Rightarrow> nat list \<Rightarrow> bool" where
  "cells q as \<longleftrightarrow> distinct as \<and> (\<forall>a \<in> set as. a < length (lq_store q)) \<and> chain (lq_store q) as
     \<and> lq_head q = head_of as \<and> lq_tail q = last_of as \<and> lq_size q = int (length as)"

definition lq_rep :: "'a LinkedQueue \<Rightarrow> 'a list \<Rightarrow> bool" where
  "lq_rep q xs \<longleftrightarrow> (\<exists>as. cells q as \<and> xs = map (\<lambda>a. i_value (lq_store q ! a)) as)"

lemma chain_cong:
  "(\<And>a. a \<in> set as \<Longrightarrow> s ! a = s' ! a) \<Longrightarrow> chain s as = chain s' as"
  by (induction s as rule: chain.induct) auto

lemma chain_tl: "chain s (a # as) \<Longrightarrow> chain s as \<and> i_next (s ! a) = head_of as"
  by (cases as) (simp_all add: head_of_def)

text \<open>Linking a fresh cell behind the last one.\<close>

lemma chain_snoc:
  assumes "chain s as" "as \<noteq> []" "distinct as" "b \<notin> set as" "\<forall>a \<in> set as. a < length s" "b < length s"
    and "i_next (s ! b) = None"
  shows "chain (s[last as := (s ! last as)\<lparr>i_next := Some b\<rparr>]) (as @ [b])"
  using assms
proof (induction s as rule: chain.induct)
  case (2 s a)
  then show ?case by (auto simp: nth_list_update)
next
  case (3 s a a' as)
  then have "a \<noteq> last (a' # as)" by (metis distinct.simps(2) last_in_set list.discI)
  with 3 show ?case by (simp add: nth_list_update)
qed simp

lemma cells_enqueue:
  assumes "cells q as"
  shows "\<exists>q'. LinkedQueue_Queue v q = Some q' \<and> cells q' (as @ [length (lq_store q)])
    \<and> map (\<lambda>a. i_value (lq_store q' ! a)) (as @ [length (lq_store q)])
      = map (\<lambda>a. i_value (lq_store q ! a)) as @ [v]"
proof (cases "as = []")
  case True
  with assms show ?thesis
    by (auto simp: LinkedQueue_Queue_def cells_def head_of_def last_of_def Let_def)
next
  case False
  let ?n = "length (lq_store q)" and ?s = "lq_store q @ [\<lparr>i_value = v, i_next = None\<rparr>]"
  let ?s' = "?s[last as := (?s ! last as)\<lparr>i_next := Some ?n\<rparr>]"
  have c: "distinct as" "\<forall>a \<in> set as. a < ?n" "chain (lq_store q) as" "lq_head q = head_of as"
    "lq_tail q = last_of as" "lq_size q = int (length as)" using assms by (simp_all add: cells_def)
  have "chain ?s as" using c(2,3) chain_cong [of as ?s "lq_store q"] by (simp add: nth_append)
  then have ch: "chain ?s' (as @ [?n])"
    using chain_snoc [of ?s as ?n] False c(1,2) by (force simp: nth_append)
  have "last as < ?n" using c(2) False by simp
  then have vals: "i_value (?s' ! a) = i_value (?s ! a)" for a
    by (cases "a = last as") simp_all
  have "map (\<lambda>a. i_value (?s' ! a)) (as @ [?n]) = map (\<lambda>a. i_value (lq_store q ! a)) as @ [v]"
    unfolding vals using c(2) by (simp add: nth_append)
  moreover have "LinkedQueue_Queue v q = Some (q\<lparr>lq_store := ?s', lq_tail := Some ?n, lq_size := lq_size q + 1\<rparr>)"
    using c(4,5) False by (simp add: LinkedQueue_Queue_def head_of_def last_of_def Let_def)
  ultimately show ?thesis
    using ch c False by (force simp: cells_def head_of_def last_of_def)
qed

lemma cells_dequeue:
  assumes "cells q (a # as)"
  shows "\<exists>q'. LinkedQueue_Dequeue q = (Some (i_value (lq_store q ! a)), q') \<and> cells q' as
    \<and> map (\<lambda>a. i_value (lq_store q' ! a)) as = map (\<lambda>a. i_value (lq_store q ! a)) as"
proof -
  have c: "distinct (a # as)" "\<forall>x \<in> set (a # as). x < length (lq_store q)" "chain (lq_store q) (a # as)"
    "lq_head q = Some a" "lq_tail q = last_of (a # as)" "lq_size q = int (length (a # as))"
    using assms by (simp_all add: cells_def head_of_def)
  let ?s = "(lq_store q)[a := (lq_store q ! a)\<lparr>i_next := None\<rparr>]"
  have same: "?s ! x = lq_store q ! x" if "x \<in> set as" for x
    using that c(1) by (metis distinct.simps(2) nth_list_update_neq)
  have "chain ?s as" using chain_tl [OF c(3)] chain_cong [of as ?s "lq_store q"] same by simp
  moreover have "(if head_of as = None then None else lq_tail q) = last_of as"
    using c(5) by (simp add: head_of_def last_of_def)
  ultimately show ?thesis
    using c chain_tl [OF c(3)] same
    by (auto simp: LinkedQueue_Dequeue_def cells_def Let_def)
qed

interpretation linked: fifo_queue NewLinkedQueue LinkedQueue_Queue "\<lambda>q. Some (LinkedQueue_Dequeue q)" lq_rep
proof
  show "lq_rep NewLinkedQueue []"
    by (auto simp: lq_rep_def cells_def NewLinkedQueue_def head_of_def last_of_def)
  show "\<exists>q'. LinkedQueue_Queue x q = Some q' \<and> lq_rep q' (xs @ [x])" if "lq_rep q xs" for q xs and x :: 'a
    using that cells_enqueue [of q _ x] unfolding lq_rep_def by metis
  show "Some (LinkedQueue_Dequeue q) = Some (None, q)" if "lq_rep q []" for q :: "'a LinkedQueue"
    using that by (auto simp: lq_rep_def cells_def head_of_def LinkedQueue_Dequeue_def)
  show "\<exists>q'. Some (LinkedQueue_Dequeue q) = Some (Some x, q') \<and> lq_rep q' xs" if "lq_rep q (x # xs)" for q x and xs :: "'a list"
  proof -
    from that obtain a as where "cells q (a # as)" "x = i_value (lq_store q ! a)"
      "xs = map (\<lambda>a. i_value (lq_store q ! a)) as"
      by (auto simp: lq_rep_def Cons_eq_map_conv)
    with cells_dequeue [of q a as] show ?thesis unfolding lq_rep_def by metis
  qed
qed

lemma lq_rep_size: "lq_rep q xs \<Longrightarrow> LinkedQueue_Size q = int (length xs)"
  by (auto simp: lq_rep_def cells_def LinkedQueue_Size_def)

section \<open>Properties\<close>

text \<open>
  C29. The linked queue is first-in first-out: no sequence of \<open>Queue\<close> and \<open>Dequeue\<close> calls on
  a new queue dereferences nil, the dequeued values followed by the values still in the queue
  are the queued values in order, and \<open>Size\<close> is the number of values still in it.
\<close>

theorem linked_queue_fifo:
  "\<exists>out q rest. queue_run LinkedQueue_Queue (\<lambda>q. Some (LinkedQueue_Dequeue q)) ops NewLinkedQueue = Some (out, q)
     \<and> pushed ops = out @ rest \<and> lq_rep q rest \<and> LinkedQueue_Size q = int (length rest)"
  using linked.run_from_empty [of ops] lq_rep_size by blast

end
