(* ===== verification/Retry_Queue.thy ===== *)
theory Retry_Queue
  imports Linked_Queue
begin

text \<open>
  \<^verbatim>\<open>pkg/retry_queue\<close>: a queue of triggers that are run again and again until they say stop
  or are cancelled. \<^verbatim>\<open>head\<close>, \<^verbatim>\<open>tail\<close> and \<^verbatim>\<open>len\<close> with \<^verbatim>\<open>enqueue\<close> and
  \<^verbatim>\<open>dequeue\<close> are a linked queue; \<open>rq_active\<close> maps the key of an active trigger to the
  second it is due. What a trigger does is its closure \<open>rt_do\<close>; its result and the clock
  are arguments. \<^verbatim>\<open>RunLoop\<close> takes the lock twice per round and runs the trigger between,
  so its position is a phase and calls of \<^verbatim>\<open>Push\<close> and \<^verbatim>\<open>Cancel\<close> may come in between.
\<close>

section \<open>The code\<close>

record 'd CommonRetryTrigger =
  rt_key :: string
  rt_timeout :: int
  rt_do :: 'd

definition NewCommonRetryTrigger :: "string \<Rightarrow> int \<Rightarrow> 'd \<Rightarrow> 'd CommonRetryTrigger" where
  "NewCommonRetryTrigger key timeout do = \<lparr>rt_key = key, rt_timeout = timeout, rt_do = do\<rparr>"

datatype 'd loop_phase =
    LoopSelect
  | LoopHave "'d CommonRetryTrigger" int
  | LoopPut "'d CommonRetryTrigger" int
  | LoopExited

record 'd RetryQueue =
  rq_nodes :: "'d CommonRetryTrigger LinkedQueue"
  rq_active :: "int gomap"
  rq_stopChan :: bool
  rq_loop :: "'d loop_phase"

definition NewRetryQueue :: "'d RetryQueue" where
  "NewRetryQueue = \<lparr>rq_nodes = NewLinkedQueue, rq_active = [], rq_stopChan = False, rq_loop = LoopSelect\<rparr>"

definition rq_enqueue :: "'d CommonRetryTrigger \<Rightarrow> 'd RetryQueue \<Rightarrow> 'd RetryQueue option" where
  "rq_enqueue trigger q =
     (case LinkedQueue_Queue trigger (rq_nodes q) of None \<Rightarrow> None | Some n \<Rightarrow> Some (q\<lparr>rq_nodes := n\<rparr>))"

definition rq_dequeue :: "'d RetryQueue \<Rightarrow> 'd CommonRetryTrigger option \<times> 'd RetryQueue" where
  "rq_dequeue q = (case LinkedQueue_Dequeue (rq_nodes q) of (trigger, n) \<Rightarrow> (trigger, q\<lparr>rq_nodes := n\<rparr>))"

definition RetryQueue_Push :: "int \<Rightarrow> 'd CommonRetryTrigger \<Rightarrow> 'd RetryQueue \<Rightarrow> 'd RetryQueue option" where
  "RetryQueue_Push now trigger q =
     (if map_of (rq_active q) (rt_key trigger) = None
      then rq_enqueue trigger
             (q\<lparr>rq_active := AList.update (rt_key trigger) (Unix (now + rt_timeout trigger)) (rq_active q)\<rparr>)
      else Some q)"

definition RetryQueue_Cancel :: "string \<Rightarrow> 'd RetryQueue \<Rightarrow> 'd RetryQueue" where
  "RetryQueue_Cancel key q = q\<lparr>rq_active := AList.delete key (rq_active q)\<rparr>"

text \<open>\<^verbatim>\<open>StopLoop\<close> hands a value to the loop; the loop leaves at its next \<^verbatim>\<open>select\<close>.\<close>

definition RetryQueue_StopLoop :: "'d RetryQueue \<Rightarrow> 'd RetryQueue" where
  "RetryQueue_StopLoop q = q\<lparr>rq_stopChan := True\<rparr>"

text \<open>One step of \<^verbatim>\<open>RunLoop\<close>; \<open>again\<close> is the result of \<^verbatim>\<open>trigger.Do\<close>.\<close>

fun loop_step :: "int \<Rightarrow> bool \<Rightarrow> 'd loop_phase \<Rightarrow> 'd RetryQueue \<Rightarrow> 'd RetryQueue option" where
  "loop_step now again LoopSelect q =
     (if rq_stopChan q then Some (q\<lparr>rq_loop := LoopExited\<rparr>)
      else (case rq_dequeue q of
              (None, q') \<Rightarrow> Some q'
            | (Some trigger, q') \<Rightarrow>
                (case map_of (rq_active q') (rt_key trigger) of
                   None \<Rightarrow> Some q'
                 | Some t \<Rightarrow> Some (q'\<lparr>rq_loop := LoopHave trigger t\<rparr>))))"
| "loop_step now again (LoopHave trigger t) q =
     (if Unix now \<ge> t then
        (if again then Some (q\<lparr>rq_loop := LoopPut trigger (Unix (now + rt_timeout trigger))\<rparr>)
         else Some ((RetryQueue_Cancel (rt_key trigger) q)\<lparr>rq_loop := LoopPut trigger t\<rparr>))
      else Some (q\<lparr>rq_loop := LoopPut trigger t\<rparr>))"
| "loop_step now again (LoopPut trigger t) q =
     (if map_of (rq_active q) (rt_key trigger) \<noteq> None
      then rq_enqueue trigger
             (q\<lparr>rq_active := AList.update (rt_key trigger) t (rq_active q), rq_loop := LoopSelect\<rparr>)
      else Some (q\<lparr>rq_loop := LoopSelect\<rparr>))"
| "loop_step now again LoopExited q = None"

definition RetryQueue_Len :: "'d RetryQueue \<Rightarrow> int" where
  "RetryQueue_Len q = lq_size (rq_nodes q)"

definition RetryQueue_ActiveLen :: "'d RetryQueue \<Rightarrow> nat" where
  "RetryQueue_ActiveLen q = length (rq_active q)"

definition RetryQueue_ActiveExists :: "string \<Rightarrow> 'd RetryQueue \<Rightarrow> bool" where
  "RetryQueue_ActiveExists key q \<longleftrightarrow> map_of (rq_active q) key \<noteq> None"

text \<open>The walk over the nodes; one unit of fuel per allocated node is enough (\<open>walk_cells\<close>).\<close>

fun active_walk :: "nat \<Rightarrow> 'd CommonRetryTrigger Item list \<Rightarrow> int gomap \<Rightarrow> nat option \<Rightarrow> string list \<Rightarrow> string list option" where
  "active_walk fuel store active None s = Some s"
| "active_walk 0 store active (Some a) s = None"
| "active_walk (Suc fuel) store active (Some a) s =
     (if length s < 100 then
        (let key = rt_key (i_value (store ! a))
         in active_walk fuel store active (i_next (store ! a))
              (if map_of active key \<noteq> None then s @ [key] else s))
      else Some s)"

definition RetryQueue_ActiveKeys :: "'d RetryQueue \<Rightarrow> string list option" where
  "RetryQueue_ActiveKeys q =
     active_walk (length (lq_store (rq_nodes q))) (lq_store (rq_nodes q)) (rq_active q) (lq_head (rq_nodes q)) []"

section \<open>Runs\<close>

datatype 'd rq_action = RqPush int "'d CommonRetryTrigger" | RqCancel string | RqLoop int bool | RqStop

definition rq_act :: "'d rq_action \<Rightarrow> 'd RetryQueue \<Rightarrow> 'd RetryQueue option" where
  "rq_act act q =
     (case act of
        RqPush now trigger \<Rightarrow> RetryQueue_Push now trigger q
      | RqCancel key \<Rightarrow> Some (RetryQueue_Cancel key q)
      | RqLoop now again \<Rightarrow> loop_step now again (rq_loop q) q
      | RqStop \<Rightarrow> Some (RetryQueue_StopLoop q))"

fun rq_run :: "'d rq_action list \<Rightarrow> 'd RetryQueue \<Rightarrow> 'd RetryQueue option" where
  "rq_run [] q = Some q"
| "rq_run (act # acts) q = (case rq_act act q of None \<Rightarrow> None | Some q' \<Rightarrow> rq_run acts q')"

section \<open>Active triggers are never lost\<close>

fun in_hand :: "'d loop_phase \<Rightarrow> string list" where
  "in_hand (LoopHave trigger t) = [rt_key trigger]"
| "in_hand (LoopPut trigger t) = [rt_key trigger]"
| "in_hand _ = []"

definition rq_rep :: "'d RetryQueue \<Rightarrow> 'd CommonRetryTrigger list \<Rightarrow> bool" where
  "rq_rep q ts \<longleftrightarrow> lq_rep (rq_nodes q) ts \<and> gomap_wf (rq_active q)
     \<and> set (keys (rq_active q)) \<subseteq> rt_key ` set ts \<union> set (in_hand (rq_loop q))"

lemma rq_dequeue_eq:
  "LinkedQueue_Dequeue (rq_nodes q) = (x, n) \<Longrightarrow> rq_dequeue q = (x, q\<lparr>rq_nodes := n\<rparr>)"
  by (simp add: rq_dequeue_def)

lemma enqueue_ok:
  "lq_rep (rq_nodes q) ts \<Longrightarrow> \<exists>n. rq_enqueue t q = Some (q\<lparr>rq_nodes := n\<rparr>) \<and> lq_rep n (ts @ [t])"
  using linked.rep_enq [of "rq_nodes q" ts t] by (auto simp: rq_enqueue_def)

lemma push_ok:
  assumes "rq_rep q ts"
  shows "\<exists>q' ts'. RetryQueue_Push now t q = Some q' \<and> rq_rep q' ts' \<and> rq_loop q' = rq_loop q
    \<and> ts' = (if map_of (rq_active q) (rt_key t) = None then ts @ [t] else ts)
    \<and> rq_active q' = (if map_of (rq_active q) (rt_key t) = None
        then AList.update (rt_key t) (Unix (now + rt_timeout t)) (rq_active q) else rq_active q)"
proof (cases "map_of (rq_active q) (rt_key t)")
  case None
  let ?q = "q\<lparr>rq_active := AList.update (rt_key t) (Unix (now + rt_timeout t)) (rq_active q)\<rparr>"
  from assms have "lq_rep (rq_nodes ?q) ts" by (simp add: rq_rep_def)
  from enqueue_ok [OF this, of t] obtain n where n: "rq_enqueue t ?q = Some (?q\<lparr>rq_nodes := n\<rparr>)" "lq_rep n (ts @ [t])" by blast
  have "set (keys (AList.update (rt_key t) (Unix (now + rt_timeout t)) (rq_active q))) = insert (rt_key t) (set (keys (rq_active q)))"
    by (rule gomap_keys_update)
  then have "rq_rep (?q\<lparr>rq_nodes := n\<rparr>) (ts @ [t])" using assms n(2) by (auto simp: rq_rep_def)
  then show ?thesis using None n(1) by (auto simp: RetryQueue_Push_def)
next
  case (Some d)
  then show ?thesis using assms by (auto simp: RetryQueue_Push_def)
qed

lemma cancel_ok: "rq_rep q ts \<Longrightarrow> rq_rep (RetryQueue_Cancel k q) ts"
  by (auto simp: rq_rep_def RetryQueue_Cancel_def delete_keys)

lemma loop_ok:
  assumes rep: "rq_rep q ts" and live: "rq_loop q \<noteq> LoopExited"
  shows "\<exists>q' ts'. loop_step now again (rq_loop q) q = Some q' \<and> rq_rep q' ts'"
proof (cases "rq_loop q")
  case LoopSelect
  show ?thesis
  proof (cases "rq_stopChan q")
    case True
    then show ?thesis using rep LoopSelect by (intro exI [of _ "q\<lparr>rq_loop := LoopExited\<rparr>"] exI [of _ ts]) (simp add: rq_rep_def)
  next
    case False
    have rq: "lq_rep (rq_nodes q) ts" using rep by (simp add: rq_rep_def)
    show ?thesis
    proof (cases ts)
      case Nil
      then have "LinkedQueue_Dequeue (rq_nodes q) = (None, rq_nodes q)" using linked.rep_deq_Nil rq by blast
      from rq_dequeue_eq [OF this] show ?thesis using rep LoopSelect False by (intro exI [of _ q] exI [of _ ts]) simp
    next
      case (Cons t us)
      then obtain n where n: "LinkedQueue_Dequeue (rq_nodes q) = (Some t, n)" "lq_rep n us"
        using linked.rep_deq_Cons [of "rq_nodes q" t us] rq by auto
      show ?thesis
      proof (cases "map_of (rq_active q) (rt_key t)")
        case None
        then have "rt_key t \<notin> set (keys (rq_active q))" using map_of_None_keys by blast
        moreover have "set (keys (rq_active q)) \<subseteq> insert (rt_key t) (rt_key ` set us)"
          using rep Cons LoopSelect by (simp add: rq_rep_def)
        ultimately have "set (keys (rq_active q)) \<subseteq> rt_key ` set us" by (metis subset_insert)
        then have "rq_rep (q\<lparr>rq_nodes := n\<rparr>) us" using rep n(2) LoopSelect by (simp add: rq_rep_def)
        then show ?thesis using rq_dequeue_eq [OF n(1)] None LoopSelect False by auto
      next
        case (Some d)
        have "rq_rep (q\<lparr>rq_nodes := n, rq_loop := LoopHave t d\<rparr>) us" using rep n(2) Cons LoopSelect by (auto simp: rq_rep_def)
        then show ?thesis using rq_dequeue_eq [OF n(1)] Some LoopSelect False by auto
      qed
    qed
  qed
next
  case (LoopHave t d)
  have keep: "rq_rep (r\<lparr>rq_loop := LoopPut t d'\<rparr>) ts" if "rq_rep r ts" "rq_loop r = LoopHave t d" for r d'
    using that by (auto simp: rq_rep_def)
  have "rq_rep (RetryQueue_Cancel (rt_key t) q) ts" "rq_loop (RetryQueue_Cancel (rt_key t) q) = LoopHave t d"
    using cancel_ok [OF rep] LoopHave by (simp_all add: RetryQueue_Cancel_def)
  from keep [OF this] keep [OF rep LoopHave] show ?thesis using LoopHave by auto
next
  case (LoopPut t d)
  show ?thesis
  proof (cases "map_of (rq_active q) (rt_key t)")
    case None
    then have "rt_key t \<notin> set (keys (rq_active q))" using map_of_None_keys by blast
    moreover have "set (keys (rq_active q)) \<subseteq> insert (rt_key t) (rt_key ` set ts)"
      using rep LoopPut by (simp add: rq_rep_def)
    ultimately have "set (keys (rq_active q)) \<subseteq> rt_key ` set ts" by (metis subset_insert)
    then have "rq_rep (q\<lparr>rq_loop := LoopSelect\<rparr>) ts" using rep by (simp add: rq_rep_def)
    then show ?thesis using LoopPut None by auto
  next
    case (Some d0)
    let ?q = "q\<lparr>rq_active := AList.update (rt_key t) d (rq_active q), rq_loop := LoopSelect\<rparr>"
    from rep have "lq_rep (rq_nodes ?q) ts" by (simp add: rq_rep_def)
    from enqueue_ok [OF this, of t] obtain n where n: "rq_enqueue t ?q = Some (?q\<lparr>rq_nodes := n\<rparr>)" "lq_rep n (ts @ [t])" by blast
    have "keys (AList.update (rt_key t) d (rq_active q)) = keys (rq_active q)" by (rule gomap_keys_update_same [OF Some])
    then have "rq_rep (?q\<lparr>rq_nodes := n\<rparr>) (ts @ [t])" using rep n(2) LoopPut by (auto simp: rq_rep_def)
    then show ?thesis using LoopPut Some n(1) by auto
  qed
qed (use live in simp)

lemma rq_act_ok:
  assumes "rq_rep q ts" "rq_act act q = Some q'"
  shows "\<exists>ts'. rq_rep q' ts'"
proof (cases act)
  case (RqPush now t)
  then show ?thesis using push_ok [OF assms(1), of now t] assms(2) by (auto simp: rq_act_def)
next
  case (RqCancel k)
  then show ?thesis using cancel_ok [OF assms(1)] assms(2) by (auto simp: rq_act_def)
next
  case (RqLoop now again)
  have "rq_loop q \<noteq> LoopExited" using RqLoop assms(2) by (auto simp: rq_act_def)
  from loop_ok [OF assms(1) this, of now again] RqLoop assms(2) show ?thesis by (auto simp: rq_act_def)
next
  case RqStop
  then show ?thesis using assms by (auto simp: rq_act_def rq_rep_def RetryQueue_StopLoop_def)
qed

lemma rq_run_ok: "rq_rep q ts \<Longrightarrow> rq_run acts q = Some q' \<Longrightarrow> \<exists>ts'. rq_rep q' ts'"
  by (induction acts arbitrary: q ts) (fastforce split: option.splits dest: rq_act_ok)+

lemma new_rq_rep: "rq_rep NewRetryQueue []"
  using linked.rep_empty by (simp add: rq_rep_def NewRetryQueue_def)

text \<open>The walk of \<^verbatim>\<open>ActiveKeys\<close> follows the chain of nodes.\<close>

lemma walk_cells:
  "chain store as \<Longrightarrow> length as \<le> fuel \<Longrightarrow> length s \<le> 100 \<Longrightarrow>
   active_walk fuel store active (head_of as) s =
     Some (take 100 (s @ filter (\<lambda>k. map_of active k \<noteq> None) (map (\<lambda>a. rt_key (i_value (store ! a))) as)))"
proof (induction as arbitrary: fuel s)
  case Nil
  then show ?case by (simp add: head_of_def)
next
  case (Cons a as)
  then obtain f where f: "fuel = Suc f" by (cases fuel) auto
  note tl = chain_tl [OF Cons.prems(1)]
  have walk: "active_walk fuel store active (head_of (a # as)) s =
     (if length s < 100 then active_walk f store active (head_of as)
        (if map_of active (rt_key (i_value (store ! a))) \<noteq> None then s @ [rt_key (i_value (store ! a))] else s)
      else Some s)"
    using tl by (simp add: f head_of_def [of "a # as"] Let_def)
  show ?case
  proof (cases "length s < 100")
    case False
    then show ?thesis using walk Cons.prems(3) by simp
  next
    case True
    let ?s = "if map_of active (rt_key (i_value (store ! a))) \<noteq> None then s @ [rt_key (i_value (store ! a))] else s"
    have "active_walk f store active (head_of as) ?s =
       Some (take 100 (?s @ filter (\<lambda>k. map_of active k \<noteq> None) (map (\<lambda>a. rt_key (i_value (store ! a))) as)))"
      using Cons.IH [of f ?s] tl Cons.prems f True by simp
    moreover have "s @ filter (\<lambda>k. map_of active k \<noteq> None) (map (\<lambda>a. rt_key (i_value (store ! a))) (a # as))
        = ?s @ filter (\<lambda>k. map_of active k \<noteq> None) (map (\<lambda>a. rt_key (i_value (store ! a))) as)" by simp
    ultimately show ?thesis using True unfolding walk by (simp only: if_True)
  qed
qed

lemma ActiveKeys_spec:
  assumes "rq_rep q ts"
  shows "RetryQueue_ActiveKeys q = Some (take 100 (filter (\<lambda>k. RetryQueue_ActiveExists k q) (map rt_key ts)))"
proof -
  from assms obtain as where c: "cells (rq_nodes q) as" "ts = map (\<lambda>a. i_value (lq_store (rq_nodes q) ! a)) as"
    by (auto simp: rq_rep_def lq_rep_def)
  have "card (set as) \<le> card {..< length (lq_store (rq_nodes q))}"
    using c(1) by (intro card_mono) (auto simp: cells_def)
  then have "length as \<le> length (lq_store (rq_nodes q))" using c(1) by (simp add: cells_def distinct_card)
  with walk_cells [of "lq_store (rq_nodes q)" as _ "[]" "rq_active q"] c show ?thesis
    by (simp add: RetryQueue_ActiveKeys_def cells_def RetryQueue_ActiveExists_def comp_def)
qed

section \<open>Properties\<close>

text \<open>
  C27. In every interleaving of \<open>Push\<close>, \<open>Cancel\<close>, \<open>StopLoop\<close> and the loop, no operation
  dereferences nil, \<open>Len\<close> counts the queued triggers, and no active trigger is lost: each
  key that \<open>ActiveExists\<close> reports is queued or in the hands of the loop; and \<open>ActiveKeys\<close>
  returns the active keys of the first queued triggers, at most 100, in queue order.
\<close>

theorem retry_queue_keeps_active:
  assumes "rq_run acts NewRetryQueue = Some q"
  shows "\<exists>ts. lq_rep (rq_nodes q) ts \<and> RetryQueue_Len q = int (length ts)
     \<and> (\<forall>k. RetryQueue_ActiveExists k q \<longrightarrow> k \<in> rt_key ` set ts \<union> set (in_hand (rq_loop q)))
     \<and> RetryQueue_ActiveKeys q = Some (take 100 (filter (\<lambda>k. RetryQueue_ActiveExists k q) (map rt_key ts)))"
proof -
  from rq_run_ok [OF new_rq_rep assms] obtain ts where ts: "rq_rep q ts" by blast
  then have "lq_rep (rq_nodes q) ts" by (simp add: rq_rep_def)
  moreover from lq_rep_size [OF this] have "RetryQueue_Len q = int (length ts)"
    by (simp add: RetryQueue_Len_def LinkedQueue_Size_def)
  moreover have "k \<in> rt_key ` set ts \<union> set (in_hand (rq_loop q))" if "RetryQueue_ActiveExists k q" for k
  proof -
    have "k \<in> set (keys (rq_active q))"
      using that map_of_None_keys [of "rq_active q" k] unfolding RetryQueue_ActiveExists_def by metis
    moreover have "set (keys (rq_active q)) \<subseteq> rt_key ` set ts \<union> set (in_hand (rq_loop q))"
      using ts unfolding rq_rep_def by (elim conjE)
    ultimately show ?thesis by (rule rev_subsetD)
  qed
  ultimately show ?thesis using ActiveKeys_spec [OF ts] by blast
qed

definition example_trigger :: "string \<Rightarrow> unit CommonRetryTrigger" where
  "example_trigger k = NewCommonRetryTrigger k (15 * Second) ()"

theorem retry_queue_keeps_active_witness:
  "\<exists>q ts. rq_run [RqPush 0 (example_trigger ''a''), RqLoop 0 True] NewRetryQueue = Some q
     \<and> lq_rep (rq_nodes q) ts \<and> ''a'' \<in> rt_key ` set ts \<union> set (in_hand (rq_loop q))"
proof -
  let ?r = "rq_run [RqPush 0 (example_trigger ''a''), RqLoop 0 True] NewRetryQueue"
  have a: "map_option (RetryQueue_ActiveExists ''a'') ?r = Some True" by code_simp
  then obtain q where q: "?r = Some q" "RetryQueue_ActiveExists ''a'' q" by (auto simp: map_option_eq_Some)
  from retry_queue_keeps_active [OF q(1)] q show ?thesis by blast
qed

text \<open>
  \<open>Push\<close> is not idempotent by key while the loop finishes a round: when a trigger has
  just asked to stop and the same key is pushed before the loop takes its lock again, the
  loop queues the old trigger as well, with its old due time, and one key has two nodes.
\<close>

theorem push_can_duplicate:
  "\<exists>acts q ts. rq_run acts NewRetryQueue = Some (q :: unit RetryQueue) \<and> rq_rep q ts
     \<and> map rt_key ts = [''a'', ''a''] \<and> RetryQueue_ActiveExists ''a'' q"
proof -
  let ?acts = "[RqPush 0 (example_trigger ''a''), RqLoop (20 * Second) False, RqLoop (20 * Second) False,
    RqPush (20 * Second) (example_trigger ''a''), RqLoop (20 * Second) False]"
  have e: "map_option (\<lambda>q. (RetryQueue_ActiveExists ''a'' q, RetryQueue_ActiveKeys q, RetryQueue_Len q, rq_loop q))
      (rq_run ?acts NewRetryQueue) = Some (True, Some [''a'', ''a''], 2, LoopSelect)"
    by code_simp
  then obtain q where q: "rq_run ?acts NewRetryQueue = Some q" "RetryQueue_ActiveExists ''a'' q"
    "RetryQueue_ActiveKeys q = Some [''a'', ''a'']" "RetryQueue_Len q = 2" by (auto simp: map_option_eq_Some)
  from rq_run_ok [OF new_rq_rep q(1)] obtain ts where ts: "rq_rep q ts" by blast
  have "length ts = 2"
    using lq_rep_size [of "rq_nodes q" ts] ts q(4) by (simp add: rq_rep_def RetryQueue_Len_def LinkedQueue_Size_def)
  then obtain t u where tu: "ts = [t, u]" by (auto simp: length_Suc_conv numeral_2_eq_2)
  have keys: "map rt_key ts = [''a'', ''a'']"
    using ActiveKeys_spec [OF ts] q(3) by (auto simp: tu split: if_splits)
  show ?thesis
    by (rule exI [of _ ?acts], rule exI [of _ q], rule exI [of _ ts], intro conjI)
       (fact q(1), fact ts, fact keys, fact q(2))
qed

end
