(* ===== verification/Worker_Registry.thy ===== *)
theory Worker_Registry
  imports Retry_Queue Domain_Status Go_Num
begin

text \<open>
  The workers of the cluster (\<^verbatim>\<open>common/domain/wokrer.go\<close>) and their registry in the control
  plane (\<^verbatim>\<open>orchestration/registry.go\<close>): registration, heartbeats and the dead man's switch
  that runs on the retry queue.

  The hooks of \<^verbatim>\<open>OnWorkerDead\<close> change state outside the registry; that state is the type
  parameter \<open>'s\<close>, and what a hook call reads from outside the program (the clock, the order
  of a range loop) is its argument of type \<open>'i\<close>. The closure of a trigger is \<^verbatim>\<open>checkHeartbeat(w.ID)\<close>, represented by
  the worker ID it captures. \<^verbatim>\<open>Register\<close> takes its locks twice (node, then retry queue) and
  \<^verbatim>\<open>checkHeartbeat\<close> decides before it takes the write lock, so in the runs of
  \<open>reg_act\<close> these are separate steps and other calls may come in between.
\<close>

section \<open>Worker nodes\<close>

record WorkerNode =
  n_ID :: string
  n_Address :: string
  n_Labels :: "string gomap"
  n_Capabilities :: "string list"
  n_Capacity :: int
  n_RunningTasks :: int
  n_LastHeartbeat :: int
  n_status :: WorkerStatus

definition WorkerNode_GetStatus :: "WorkerNode \<Rightarrow> WorkerStatus" where
  "WorkerNode_GetStatus n = n_status n"

definition WorkerNode_IsReady :: "WorkerNode \<Rightarrow> bool" where
  "WorkerNode_IsReady n \<longleftrightarrow> n_status n = WorkerAlive"

definition WorkerNode_SetAlive :: "WorkerNode \<Rightarrow> WorkerNode" where
  "WorkerNode_SetAlive n = n\<lparr>n_status := WorkerAlive\<rparr>"

definition WorkerNode_SetSuspect :: "WorkerNode \<Rightarrow> WorkerNode" where
  "WorkerNode_SetSuspect n = n\<lparr>n_status := WorkerSuspect\<rparr>"

definition WorkerNode_SetDead :: "WorkerNode \<Rightarrow> WorkerNode" where
  "WorkerNode_SetDead n = n\<lparr>n_status := WorkerDead\<rparr>"

lemmas node_defs = WorkerNode_GetStatus_def WorkerNode_IsReady_def WorkerNode_SetAlive_def
  WorkerNode_SetSuspect_def WorkerNode_SetDead_def

section \<open>The registry\<close>

definition heartbeatGracePeriod :: int where
  "heartbeatGracePeriod = 15 * Second"

record ('i, 's) WorkerRegistry =
  r_workers :: "WorkerNode gomap"
  r_retryQueue :: "string RetryQueue"
  r_onDeadHooks :: "('i \<Rightarrow> string \<Rightarrow> 's \<Rightarrow> 's) list"

definition NewWorkerRegistry :: "('i, 's) WorkerRegistry" where
  "NewWorkerRegistry = \<lparr>r_workers = [], r_retryQueue = NewRetryQueue, r_onDeadHooks = []\<rparr>"

text \<open>\<^verbatim>\<open>Register\<close>: the node under the lock, then the trigger.\<close>

definition register_node :: "int \<Rightarrow> WorkerNode \<Rightarrow> ('i, 's) WorkerRegistry \<Rightarrow> ('i, 's) WorkerRegistry" where
  "register_node now w r =
     (case map_of (r_workers r) (n_ID w) of
        Some existing \<Rightarrow>
          r\<lparr>r_workers := AList.update (n_ID w)
             (WorkerNode_SetAlive (existing\<lparr>n_Address := n_Address w, n_Labels := n_Labels w,
                n_Capacity := n_Capacity w, n_Capabilities := n_Capabilities w, n_LastHeartbeat := now\<rparr>))
             (r_workers r)\<rparr>
      | None \<Rightarrow> r\<lparr>r_workers := AList.update (n_ID w) (w\<lparr>n_LastHeartbeat := now\<rparr>) (r_workers r)\<rparr>)"

definition push_trigger :: "int \<Rightarrow> string \<Rightarrow> ('i, 's) WorkerRegistry \<Rightarrow> ('i, 's) WorkerRegistry option" where
  "push_trigger now wid r =
     (case RetryQueue_Push now (NewCommonRetryTrigger wid heartbeatGracePeriod wid) (r_retryQueue r) of
        None \<Rightarrow> None
      | Some q \<Rightarrow> Some (r\<lparr>r_retryQueue := q\<rparr>))"

definition Registry_Register :: "int \<Rightarrow> WorkerNode \<Rightarrow> ('i, 's) WorkerRegistry \<Rightarrow> ('i, 's) WorkerRegistry option" where
  "Registry_Register now w r = push_trigger now (n_ID w) (register_node now w r)"

definition OnWorkerDead :: "('i \<Rightarrow> string \<Rightarrow> 's \<Rightarrow> 's) \<Rightarrow> ('i, 's) WorkerRegistry \<Rightarrow> ('i, 's) WorkerRegistry" where
  "OnWorkerDead hook r = r\<lparr>r_onDeadHooks := r_onDeadHooks r @ [hook]\<rparr>"

datatype registry_error = WorkerNotFound string

definition Registry_Heartbeat ::
  "int \<Rightarrow> string \<Rightarrow> int \<Rightarrow> ('i, 's) WorkerRegistry \<Rightarrow> registry_error option \<times> ('i, 's) WorkerRegistry" where
  "Registry_Heartbeat now workerID runningTasks r =
     (case map_of (r_workers r) workerID of
        None \<Rightarrow> (Some (WorkerNotFound workerID), r)
      | Some wnode \<Rightarrow>
          (None, r\<lparr>r_workers := AList.update workerID
             (WorkerNode_SetAlive (wnode\<lparr>n_RunningTasks := runningTasks, n_LastHeartbeat := now\<rparr>)) (r_workers r)\<rparr>))"

fun alive_loop :: "WorkerNode gomap \<Rightarrow> string list \<Rightarrow> WorkerNode list" where
  "alive_loop ws [] = []"
| "alive_loop ws (k # ks) =
     (case map_of ws k of
        None \<Rightarrow> alive_loop ws ks
      | Some w \<Rightarrow> if \<not> WorkerNode_IsReady w then alive_loop ws ks else w # alive_loop ws ks)"

definition AliveWorkers :: "rng \<Rightarrow> ('i, 's) WorkerRegistry \<Rightarrow> WorkerNode list" where
  "AliveWorkers rng r = alive_loop (r_workers r) (rng 0 (keys (r_workers r)))"

definition IncrementRunning :: "string \<Rightarrow> ('i, 's) WorkerRegistry \<Rightarrow> ('i, 's) WorkerRegistry" where
  "IncrementRunning workerID r =
     (case map_of (r_workers r) workerID of
        None \<Rightarrow> r
      | Some wnode \<Rightarrow>
          r\<lparr>r_workers := AList.update workerID
             (wnode\<lparr>n_RunningTasks := int64 (n_RunningTasks wnode + 1)\<rparr>) (r_workers r)\<rparr>)"

definition AddressOf :: "string \<Rightarrow> ('i, 's) WorkerRegistry \<Rightarrow> string" where
  "AddressOf workerID r =
     (case map_of (r_workers r) workerID of None \<Rightarrow> [] | Some wnode \<Rightarrow> n_Address wnode)"

definition updateWorkerStatus ::
  "'i \<Rightarrow> string \<Rightarrow> WorkerStatus \<Rightarrow> ('i, 's) WorkerRegistry \<Rightarrow> 's \<Rightarrow> ('i, 's) WorkerRegistry \<times> 's" where
  "updateWorkerStatus i workerID status r env =
     (case map_of (r_workers r) workerID of
        None \<Rightarrow> (r, env)
      | Some wnode \<Rightarrow>
          (case status of
             WorkerAlive \<Rightarrow> (r\<lparr>r_workers := AList.update workerID (WorkerNode_SetAlive wnode) (r_workers r)\<rparr>, env)
           | WorkerSuspect \<Rightarrow> (r\<lparr>r_workers := AList.update workerID (WorkerNode_SetSuspect wnode) (r_workers r)\<rparr>, env)
           | WorkerDead \<Rightarrow> (r\<lparr>r_workers := AList.update workerID (WorkerNode_SetDead wnode) (r_workers r)\<rparr>,
                            fold (\<lambda>hook. hook i workerID) (r_onDeadHooks r) env)))"

text \<open>
  \<^verbatim>\<open>checkHeartbeat\<close>: what it reads and decides (the result and the status to set, if
  any), and the whole function.
\<close>

definition check_decide :: "int \<Rightarrow> string \<Rightarrow> ('i, 's) WorkerRegistry \<Rightarrow> bool \<times> WorkerStatus option" where
  "check_decide now workerID r =
     (case map_of (r_workers r) workerID of
        None \<Rightarrow> (False, None)
      | Some worker \<Rightarrow>
          if WorkerNode_GetStatus worker = WorkerDead then (False, None)
          else if now - n_LastHeartbeat worker > heartbeatGracePeriod then
            (if WorkerNode_GetStatus worker = WorkerAlive then (True, Some WorkerSuspect)
             else (False, Some WorkerDead))
          else (True, Some WorkerAlive))"

definition checkHeartbeat ::
  "int \<Rightarrow> 'i \<Rightarrow> string \<Rightarrow> ('i, 's) WorkerRegistry \<Rightarrow> 's \<Rightarrow> bool \<times> ('i, 's) WorkerRegistry \<times> 's" where
  "checkHeartbeat now i workerID r env =
     (case check_decide now workerID r of
        (again, None) \<Rightarrow> (again, r, env)
      | (again, Some status) \<Rightarrow> (again, updateWorkerStatus i workerID status r env))"

text \<open>The node that \<^verbatim>\<open>ClusterService.Register\<close> builds from a request.\<close>

record RegisterRequest =
  rr_WorkerId :: string
  rr_Address :: string
  rr_Labels :: "string gomap"
  rr_Capabilities :: "string list"
  rr_Capacity :: int

definition request_node :: "RegisterRequest \<Rightarrow> WorkerNode" where
  "request_node request =
     \<lparr>n_ID = rr_WorkerId request, n_Address = rr_Address request, n_Labels = rr_Labels request,
      n_Capabilities = rr_Capabilities request, n_Capacity = rr_Capacity request,
      n_RunningTasks = 0, n_LastHeartbeat = 0, n_status = WorkerAlive\<rparr>"

section \<open>Runs\<close>

text \<open>
  \<open>rs_check\<close> is the position of the loop goroutine inside \<^verbatim>\<open>checkHeartbeat\<close>;
  \<open>rs_pushing\<close> lists the registrations that have stored the node and not yet pushed the
  trigger. Two fields record history: \<open>rs_now\<close> is the time of the last step and
  \<open>rs_reads\<close> lists the reads of a live worker's heartbeat, newest first, with the time and
  whether the heartbeat was overdue.
\<close>

datatype check_phase = CheckNone | CheckUpdate bool WorkerStatus | CheckDone bool

record ('i, 's) reg_state =
  rs_reg :: "('i, 's) WorkerRegistry"
  rs_env :: 's
  rs_pushing :: "string list"
  rs_check :: check_phase
  rs_now :: int
  rs_reads :: "(string \<times> int \<times> bool) list"

definition reg_start :: "('i \<Rightarrow> string \<Rightarrow> 's \<Rightarrow> 's) list \<Rightarrow> 's \<Rightarrow> ('i, 's) reg_state" where
  "reg_start hooks env =
     \<lparr>rs_reg = fold OnWorkerDead hooks NewWorkerRegistry, rs_env = env, rs_pushing = [],
      rs_check = CheckNone, rs_now = 0, rs_reads = []\<rparr>"

datatype reg_action =
    RaRegister RegisterRequest
  | RaPush string
  | RaHeartbeat string int
  | RaIncrement string
  | RaLoop

definition overdue :: "int \<Rightarrow> WorkerNode \<Rightarrow> bool" where
  "overdue now w \<longleftrightarrow> now - n_LastHeartbeat w > heartbeatGracePeriod"

definition note_read :: "int \<Rightarrow> string \<Rightarrow> ('i, 's) reg_state \<Rightarrow> ('i, 's) reg_state" where
  "note_read now wid s =
     (case map_of (r_workers (rs_reg s)) wid of
        None \<Rightarrow> s
      | Some w \<Rightarrow> if n_status w = WorkerDead then s
                   else s\<lparr>rs_reads := (wid, now, overdue now w) # rs_reads s\<rparr>)"

definition reg_loop_step :: "int \<Rightarrow> bool \<Rightarrow> ('i, 's) reg_state \<Rightarrow> ('i, 's) reg_state option" where
  "reg_loop_step now again s =
     (let r = rs_reg s; q = r_retryQueue r
      in map_option (\<lambda>q'. s\<lparr>rs_reg := r\<lparr>r_retryQueue := q'\<rparr>, rs_check := CheckNone\<rparr>)
           (loop_step now again (rq_loop q) q))"

definition reg_loop :: "int \<Rightarrow> 'i \<Rightarrow> ('i, 's) reg_state \<Rightarrow> ('i, 's) reg_state option" where
  "reg_loop now i s =
     (case rs_check s of
        CheckNone \<Rightarrow>
          (case rq_loop (r_retryQueue (rs_reg s)) of
             LoopHave trigger t \<Rightarrow>
               if Unix now \<ge> t then
                 (case check_decide now (rt_do trigger) (rs_reg s) of
                    (again, None) \<Rightarrow> Some (s\<lparr>rs_check := CheckDone again\<rparr>)
                  | (again, Some status) \<Rightarrow>
                      Some ((note_read now (rt_do trigger) s)\<lparr>rs_check := CheckUpdate again status\<rparr>))
               else reg_loop_step now True s
           | _ \<Rightarrow> reg_loop_step now True s)
      | CheckUpdate again status \<Rightarrow>
          (case rq_loop (r_retryQueue (rs_reg s)) of
             LoopHave trigger t \<Rightarrow>
               (case updateWorkerStatus i (rt_do trigger) status (rs_reg s) (rs_env s) of
                  (r, env) \<Rightarrow> Some (s\<lparr>rs_reg := r, rs_env := env, rs_check := CheckDone again\<rparr>))
           | _ \<Rightarrow> None)
      | CheckDone again \<Rightarrow> reg_loop_step now again s)"

text \<open>A step at time \<open>now\<close>; the clock does not run backwards.\<close>

definition reg_do :: "reg_action \<Rightarrow> int \<Rightarrow> 'i \<Rightarrow> ('i, 's) reg_state \<Rightarrow> ('i, 's) reg_state option" where
  "reg_do act now i s =
     (case act of
        RaRegister request \<Rightarrow>
          Some (s\<lparr>rs_reg := register_node now (request_node request) (rs_reg s),
                  rs_pushing := rr_WorkerId request # rs_pushing s\<rparr>)
      | RaPush wid \<Rightarrow>
          if wid \<in> set (rs_pushing s)
          then map_option (\<lambda>r. s\<lparr>rs_reg := r, rs_pushing := remove1 wid (rs_pushing s)\<rparr>) (push_trigger now wid (rs_reg s))
          else None
      | RaHeartbeat wid running \<Rightarrow> Some (s\<lparr>rs_reg := snd (Registry_Heartbeat now wid running (rs_reg s))\<rparr>)
      | RaIncrement wid \<Rightarrow> Some (s\<lparr>rs_reg := IncrementRunning wid (rs_reg s)\<rparr>)
      | RaLoop \<Rightarrow> reg_loop now i s)"

definition reg_act :: "reg_action \<times> int \<times> 'i \<Rightarrow> ('i, 's) reg_state \<Rightarrow> ('i, 's) reg_state option" where
  "reg_act an s = (case an of (act, now, i) \<Rightarrow>
     if now < rs_now s then None else map_option (\<lambda>s'. s'\<lparr>rs_now := now\<rparr>) (reg_do act now i s))"

fun reg_run :: "(reg_action \<times> int \<times> 'i) list \<Rightarrow> ('i, 's) reg_state \<Rightarrow> ('i, 's) reg_state option" where
  "reg_run [] s = Some s"
| "reg_run (a # as) s = (case reg_act a s of None \<Rightarrow> None | Some s' \<Rightarrow> reg_run as s')"

section \<open>Lookups\<close>

definition wstatus :: "('i, 's) WorkerRegistry \<Rightarrow> string \<Rightarrow> WorkerStatus option" where
  "wstatus r w = map_option n_status (map_of (r_workers r) w)"

lemma wstatus_register:
  "wstatus (register_node now (request_node request) r) w =
     (if w = rr_WorkerId request then Some WorkerAlive else wstatus r w)"
  by (simp add: wstatus_def register_node_def request_node_def node_defs split: option.split)

lemma wstatus_heartbeat:
  "wstatus (snd (Registry_Heartbeat now wid n r)) w =
     (if w = wid \<and> wstatus r w \<noteq> None then Some WorkerAlive else wstatus r w)"
  by (simp add: wstatus_def Registry_Heartbeat_def node_defs split: option.split)

lemma wstatus_increment: "wstatus (IncrementRunning wid r) w = wstatus r w"
  by (simp add: wstatus_def IncrementRunning_def split: option.split)

lemma wstatus_update:
  "wstatus (fst (updateWorkerStatus i wid st r env)) w =
     (if w = wid \<and> wstatus r w \<noteq> None then Some st else wstatus r w)"
  by (simp add: wstatus_def updateWorkerStatus_def node_defs split: option.split WorkerStatus.split)

lemma queue_frame [simp]:
  "r_retryQueue (register_node now w r) = r_retryQueue r"
  "r_retryQueue (snd (Registry_Heartbeat now wid n r)) = r_retryQueue r"
  "r_retryQueue (IncrementRunning wid r) = r_retryQueue r"
  "r_retryQueue (fst (updateWorkerStatus i wid st r env)) = r_retryQueue r"
  by (simp_all add: register_node_def Registry_Heartbeat_def IncrementRunning_def updateWorkerStatus_def
        split: option.split WorkerStatus.split)

lemma hooks_frame [simp]:
  "r_onDeadHooks (register_node now w r) = r_onDeadHooks r"
  "r_onDeadHooks (snd (Registry_Heartbeat now wid n r)) = r_onDeadHooks r"
  "r_onDeadHooks (IncrementRunning wid r) = r_onDeadHooks r"
  "r_onDeadHooks (fst (updateWorkerStatus i wid st r env)) = r_onDeadHooks r"
  by (simp_all add: register_node_def Registry_Heartbeat_def IncrementRunning_def updateWorkerStatus_def
        split: option.split WorkerStatus.split)

lemma update_env:
  "snd (updateWorkerStatus i wid st r env) =
     (if st = WorkerDead \<and> wstatus r wid \<noteq> None then fold (\<lambda>hook. hook i wid) (r_onDeadHooks r) env else env)"
  by (simp add: wstatus_def updateWorkerStatus_def split: option.split WorkerStatus.split)

lemma check_decide_cases:
  "check_decide now wid r = (again, None) \<Longrightarrow> \<not> again \<and> wstatus r wid \<in> {None, Some WorkerDead}"
  "check_decide now wid r = (again, Some st) \<Longrightarrow>
     \<exists>w. map_of (r_workers r) wid = Some w \<and> n_status w \<noteq> WorkerDead
       \<and> (again, st) = (if overdue now w then if n_status w = WorkerAlive then (True, WorkerSuspect) else (False, WorkerDead)
                        else (True, WorkerAlive))"
  by (auto simp: check_decide_def wstatus_def node_defs overdue_def split: option.splits if_splits)

section \<open>The dead man's switch\<close>

text \<open>The triggers of the queue are those of \<^verbatim>\<open>Register\<close>.\<close>

definition good_trigger :: "string CommonRetryTrigger \<Rightarrow> bool" where
  "good_trigger t \<longleftrightarrow> rt_do t = rt_key t \<and> rt_timeout t = heartbeatGracePeriod"

definition good_queue :: "string RetryQueue \<Rightarrow> bool" where
  "good_queue q \<longleftrightarrow> (\<exists>ts. rq_rep q ts) \<and> (\<forall>it \<in> set (lq_store (rq_nodes q)). good_trigger (i_value it))
     \<and> (\<forall>t d. rq_loop q = LoopHave t d \<or> rq_loop q = LoopPut t d \<longrightarrow> good_trigger t)"

text \<open>
  The next time the switch of \<open>w\<close> may fire is not before \<open>t\<close>: the due time of the loop
  while it holds \<open>w\<close>'s trigger, the due time in the map otherwise.
\<close>

definition due_from :: "string \<Rightarrow> int \<Rightarrow> string RetryQueue \<Rightarrow> check_phase \<Rightarrow> bool" where
  "due_from w t q chk =
     (case rq_loop q of
        LoopHave trigger d \<Rightarrow>
          if rt_key trigger = w
          then (case chk of CheckNone \<Rightarrow> t \<le> d | CheckDone again \<Rightarrow> again | CheckUpdate again st \<Rightarrow> False)
          else (\<forall>d. map_of (rq_active q) w = Some d \<longrightarrow> t \<le> d)
      | LoopPut trigger d \<Rightarrow>
          if rt_key trigger = w then t \<le> d else (\<forall>d. map_of (rq_active q) w = Some d \<longrightarrow> t \<le> d)
      | _ \<Rightarrow> (\<forall>d. map_of (rq_active q) w = Some d \<longrightarrow> t \<le> d))"

definition two_missed :: "(int \<times> bool) list \<Rightarrow> bool" where
  "two_missed rd \<longleftrightarrow> (\<exists>t2 t1 rest. rd = (t2, True) # (t1, True) # rest \<and> t2 - t1 > 14 * Second)"

definition pending :: "string \<Rightarrow> string RetryQueue \<Rightarrow> check_phase \<Rightarrow> bool" where
  "pending w q chk \<longleftrightarrow> (\<exists>again st trigger d. chk = CheckUpdate again st \<and> rq_loop q = LoopHave trigger d \<and> rt_key trigger = w)"

definition verdict_ok :: "WorkerStatus option \<Rightarrow> (int \<times> bool) list \<Rightarrow> int \<Rightarrow> bool \<Rightarrow> WorkerStatus \<Rightarrow> bool" where
  "verdict_ok now_st rd now again st \<longleftrightarrow> now_st \<noteq> None \<and> now_st \<noteq> Some WorkerDead
     \<and> (case st of WorkerAlive \<Rightarrow> again
        | WorkerSuspect \<Rightarrow> again \<and> (\<exists>t1 rest. rd = (t1, True) # rest \<and> t1 \<le> now)
        | WorkerDead \<Rightarrow> \<not> again \<and> two_missed rd)"

definition monitor ::
  "(string \<Rightarrow> WorkerStatus option) \<Rightarrow> (string \<Rightarrow> (int \<times> bool) list) \<Rightarrow> string RetryQueue \<Rightarrow> check_phase \<Rightarrow> int \<Rightarrow> bool" where
  "monitor st rd q chk now \<longleftrightarrow> good_queue q
     \<and> (\<forall>w. st w = Some WorkerSuspect \<and> \<not> pending w q chk \<longrightarrow>
          (\<exists>t1 rest. rd w = (t1, True) # rest \<and> t1 \<le> now \<and> due_from w (Unix (t1 + heartbeatGracePeriod)) q chk))
     \<and> (chk \<noteq> CheckNone \<longrightarrow> (\<exists>trigger d. rq_loop q = LoopHave trigger d \<and> d \<le> Unix now))
     \<and> (\<forall>again v trigger d. chk = CheckUpdate again v \<and> rq_loop q = LoopHave trigger d \<longrightarrow>
          verdict_ok (st (rt_key trigger)) (rd (rt_key trigger)) now again v)"

lemma monitor_good: "monitor st rd q chk now \<Longrightarrow> good_queue q"
  by (simp add: monitor_def)

lemma monitor_suspect:
  "monitor st rd q chk now \<Longrightarrow> st w = Some WorkerSuspect \<Longrightarrow> \<not> pending w q chk \<Longrightarrow>
   \<exists>t1 rest. rd w = (t1, True) # rest \<and> t1 \<le> now \<and> due_from w (Unix (t1 + heartbeatGracePeriod)) q chk"
  by (simp add: monitor_def)

lemma monitor_chk:
  "monitor st rd q chk now \<Longrightarrow> chk \<noteq> CheckNone \<Longrightarrow> \<exists>trigger d. rq_loop q = LoopHave trigger d \<and> d \<le> Unix now"
  by (simp add: monitor_def)

lemma monitor_verdict:
  "monitor st rd q chk now \<Longrightarrow> chk = CheckUpdate again v \<Longrightarrow> rq_loop q = LoopHave trigger d \<Longrightarrow>
   verdict_ok (st (rt_key trigger)) (rd (rt_key trigger)) now again v"
  by (simp add: monitor_def)

lemma monitorI:
  assumes "good_queue q"
    and "\<And>w. st w = Some WorkerSuspect \<Longrightarrow> \<not> pending w q chk \<Longrightarrow>
           \<exists>t1 rest. rd w = (t1, True) # rest \<and> t1 \<le> now \<and> due_from w (Unix (t1 + heartbeatGracePeriod)) q chk"
    and "chk \<noteq> CheckNone \<Longrightarrow> \<exists>trigger d. rq_loop q = LoopHave trigger d \<and> d \<le> Unix now"
    and "\<And>again v trigger d. chk = CheckUpdate again v \<Longrightarrow> rq_loop q = LoopHave trigger d \<Longrightarrow>
           verdict_ok (st (rt_key trigger)) (rd (rt_key trigger)) now again v"
  shows "monitor st rd q chk now"
  using assms by (simp add: monitor_def)

text \<open>Steps of other goroutines: a status only changes to ALIVE, and the queue only by \<open>Push\<close>.\<close>

lemma verdict_other:
  assumes "verdict_ok a rds now again v" and "now \<le> now'" and "a' = a \<or> a' = Some WorkerAlive"
  shows "verdict_ok a' rds now' again v"
  using assms by (auto simp: verdict_ok_def split: WorkerStatus.splits)

lemma monitor_other:
  assumes inv: "monitor st rd q chk now" and le: "now \<le> now'"
    and st: "\<And>w. st' w = st w \<or> st' w = Some WorkerAlive"
  shows "monitor st' rd q chk now'"
proof -
  have s: "st w = Some WorkerSuspect" if "st' w = Some WorkerSuspect" for w
    using that st [of w] by auto
  have u: "d \<le> Unix now'" if "d \<le> Unix now" for d using that Unix_mono [OF le] by linarith
  have t: "t \<le> now'" if "t \<le> now" for t using that le by linarith
  show ?thesis
  proof (rule monitorI)
    show "good_queue q" by (rule monitor_good [OF inv])
    show "\<exists>t1 rest. rd w = (t1, True) # rest \<and> t1 \<le> now' \<and> due_from w (Unix (t1 + heartbeatGracePeriod)) q chk"
      if "st' w = Some WorkerSuspect" "\<not> pending w q chk" for w
      using monitor_suspect [OF inv s [OF that(1)] that(2)] t by blast
    show "\<exists>trigger d. rq_loop q = LoopHave trigger d \<and> d \<le> Unix now'" if "chk \<noteq> CheckNone"
      using monitor_chk [OF inv that] u by blast
    show "verdict_ok (st' (rt_key trigger)) (rd (rt_key trigger)) now' again v"
      if "chk = CheckUpdate again v" "rq_loop q = LoopHave trigger d" for again v trigger d
      using verdict_other [OF monitor_verdict [OF inv that] le st] .
  qed
qed

lemma store_update_good:
  "\<forall>it \<in> set s. P (i_value it) \<Longrightarrow> \<forall>it \<in> set (s[t := (s ! t)\<lparr>i_next := x\<rparr>]). P (i_value it)"
  by (cases "t < length s") (auto simp: linorder_not_less list_update_beyond dest!: set_update_subset_insert [THEN subsetD])

lemma enqueue_store_good:
  assumes "LinkedQueue_Queue v n = Some n'" "\<forall>it \<in> set (lq_store n). P (i_value it)" "P v"
  shows "\<forall>it \<in> set (lq_store n'). P (i_value it)"
proof -
  have "\<forall>it \<in> set (lq_store n @ [\<lparr>i_value = v, i_next = None\<rparr>]). P (i_value it)" using assms by simp
  from this store_update_good [OF this] show ?thesis
    using assms(1) by (auto simp: LinkedQueue_Queue_def Let_def split: if_splits option.splits)
qed

lemma dequeue_store_good:
  assumes "LinkedQueue_Dequeue n = (x, n')" "\<forall>it \<in> set (lq_store n). P (i_value it)" "lq_rep n ts"
  shows "(\<forall>it \<in> set (lq_store n'). P (i_value it)) \<and> (\<forall>v. x = Some v \<longrightarrow> P v)"
proof -
  have "P (i_value (lq_store n ! h))" if "lq_head n = Some h" for h
    using assms(2,3) that by (auto simp: lq_rep_def cells_def head_of_def split: if_splits)
  with assms(1,2) store_update_good [OF assms(2)] show ?thesis
    by (auto simp: LinkedQueue_Dequeue_def Let_def split: option.splits)
qed

lemma good_queue_push:
  assumes "good_queue q" and "RetryQueue_Push now t q = Some q'" and "good_trigger t"
  shows "good_queue q' \<and> rq_loop q' = rq_loop q
     \<and> rq_active q' = (if map_of (rq_active q) (rt_key t) = None
         then AList.update (rt_key t) (Unix (now + rt_timeout t)) (rq_active q) else rq_active q)"
proof -
  from assms(1) obtain ts where rep: "rq_rep q ts" by (auto simp: good_queue_def)
  from push_ok [OF rep, of now t] assms(2) obtain ts' where
    q': "rq_rep q' ts'" "rq_loop q' = rq_loop q"
      "rq_active q' = (if map_of (rq_active q) (rt_key t) = None
         then AList.update (rt_key t) (Unix (now + rt_timeout t)) (rq_active q) else rq_active q)" by auto
  have "\<forall>it \<in> set (lq_store (rq_nodes q')). good_trigger (i_value it)"
    using assms enqueue_store_good [of t "rq_nodes q" _ good_trigger]
    by (auto simp: RetryQueue_Push_def rq_enqueue_def good_queue_def split: if_splits option.splits)
  then show ?thesis using q' assms(1) by (auto simp: good_queue_def)
qed

lemma due_from_push:
  assumes "due_from w d q chk" and "rq_loop q' = rq_loop q"
    and "\<And>e. map_of (rq_active q') w = Some e \<Longrightarrow> map_of (rq_active q) w = Some e \<or> d \<le> e"
  shows "due_from w d q' chk"
  using assms by (auto simp: due_from_def split: loop_phase.splits if_splits)

lemma pending_cong: "rq_loop q' = rq_loop q \<Longrightarrow> pending w q' chk = pending w q chk"
  by (simp add: pending_def)

lemma monitor_push:
  assumes inv: "monitor st rd q chk now"
    and push: "RetryQueue_Push now (NewCommonRetryTrigger wid heartbeatGracePeriod wid) q = Some q'"
  shows "monitor st rd q' chk now"
proof -
  let ?t = "NewCommonRetryTrigger wid heartbeatGracePeriod wid"
  have q: "good_queue q" using inv by (simp add: monitor_def)
  have "good_trigger ?t" by (simp add: good_trigger_def NewCommonRetryTrigger_def)
  from good_queue_push [OF q push this] have p: "good_queue q'" "rq_loop q' = rq_loop q"
    and act: "rq_active q' = (if map_of (rq_active q) (rt_key ?t) = None
      then AList.update (rt_key ?t) (Unix (now + rt_timeout ?t)) (rq_active q) else rq_active q)" by simp_all
  have "map_of (rq_active q) w = Some e \<or> Unix (t1 + heartbeatGracePeriod) \<le> e"
    if "map_of (rq_active q') w = Some e" "t1 \<le> now" for w e t1
    using act that Unix_mono [of "t1 + heartbeatGracePeriod" "now + heartbeatGracePeriod"]
    by (auto simp: NewCommonRetryTrigger_def split: if_splits)
  then have d: "due_from w (Unix (t1 + heartbeatGracePeriod)) q' chk"
    if "due_from w (Unix (t1 + heartbeatGracePeriod)) q chk" "t1 \<le> now" for w t1
    using due_from_push [OF that(1) p(2)] that(2) by blast
  show ?thesis
  proof (rule monitorI)
    show "good_queue q'" using p by simp
    show "\<exists>t1 rest. rd w = (t1, True) # rest \<and> t1 \<le> now \<and> due_from w (Unix (t1 + heartbeatGracePeriod)) q' chk"
      if "st w = Some WorkerSuspect" "\<not> pending w q' chk" for w
    proof -
      have "\<not> pending w q chk" using that(2) pending_cong [OF p(2)] by simp
      from monitor_suspect [OF inv that(1) this] d show ?thesis by blast
    qed
    show "\<exists>trigger d. rq_loop q' = LoopHave trigger d \<and> d \<le> Unix now" if "chk \<noteq> CheckNone"
      using monitor_chk [OF inv that] p by simp
    show "verdict_ok (st (rt_key trigger)) (rd (rt_key trigger)) now again v"
      if "chk = CheckUpdate again v" "rq_loop q' = LoopHave trigger d" for again v trigger d
      using monitor_verdict [OF inv that(1)] that(2) p by simp
  qed
qed

text \<open>The loop: what one step does to the due times.\<close>

lemma select_effect:
  assumes "loop_step now again LoopSelect q = Some q'" "rq_loop q = LoopSelect"
  shows "rq_active q' = rq_active q"
    and "rq_loop q' = LoopSelect \<or> rq_loop q' = LoopExited \<or>
         (\<exists>trigger d. rq_loop q' = LoopHave trigger d \<and> map_of (rq_active q) (rt_key trigger) = Some d)"
  using assms by (auto simp: rq_dequeue_def split: if_splits option.splits prod.splits)

lemma put_effect:
  assumes "loop_step now again (LoopPut trigger d) q = Some q'"
  shows "rq_loop q' = LoopSelect"
    and "rq_active q' = (if map_of (rq_active q) (rt_key trigger) = None then rq_active q
                         else AList.update (rt_key trigger) d (rq_active q))"
  using assms by (auto simp: rq_enqueue_def split: if_splits option.splits)

lemma good_queue_loop:
  assumes q: "good_queue q" and step: "loop_step now again (rq_loop q) q = Some q'"
  shows "good_queue q'"
proof -
  from q obtain ts where rep: "rq_rep q ts"
    and store: "\<forall>it \<in> set (lq_store (rq_nodes q)). good_trigger (i_value it)" by (auto simp: good_queue_def)
  have live: "rq_loop q \<noteq> LoopExited" using step by auto
  from loop_ok [OF rep live, of now again] step obtain ts' where rep': "rq_rep q' ts'" by auto
  have deq: "(\<forall>it \<in> set (lq_store n). good_trigger (i_value it)) \<and> (\<forall>v. x = Some v \<longrightarrow> good_trigger v)"
    if "LinkedQueue_Dequeue (rq_nodes q) = (x, n)" for x n
    using dequeue_store_good [OF that store] rep by (auto simp: rq_rep_def)
  have "(\<forall>it \<in> set (lq_store (rq_nodes q')). good_trigger (i_value it))
      \<and> (\<forall>t d. rq_loop q' = LoopHave t d \<or> rq_loop q' = LoopPut t d \<longrightarrow> good_trigger t)"
  proof (cases "rq_loop q")
    case LoopSelect
    then show ?thesis using step store deq
      by (auto simp: rq_dequeue_def split: if_splits option.splits prod.splits)
  next
    case (LoopHave t d)
    then show ?thesis using step q by (auto simp: good_queue_def RetryQueue_Cancel_def split: if_splits)
  next
    case (LoopPut t d)
    then have "good_trigger t" using q by (auto simp: good_queue_def)
    with LoopPut show ?thesis using step store enqueue_store_good [OF _ store]
      by (auto simp: rq_enqueue_def split: if_splits option.splits)
  qed (use live in simp)
  with rep' show ?thesis by (auto simp: good_queue_def)
qed

lemma due_from_loop:
  assumes due: "due_from w T q chk" and q: "good_queue q" and T: "T \<le> Unix (now + heartbeatGracePeriod)"
    and step: "loop_step now again (rq_loop q) q = Some q'"
    and chk: "chk = CheckNone \<and> (\<forall>t d. rq_loop q = LoopHave t d \<longrightarrow> Unix now < d)
              \<or> chk = CheckDone again \<and> (\<exists>t d. rq_loop q = LoopHave t d \<and> d \<le> Unix now)"
  shows "due_from w T q' CheckNone"
proof (cases "rq_loop q")
  case LoopSelect
  with select_effect [of now again q q'] step due chk show ?thesis
    by (auto simp: due_from_def split: loop_phase.splits if_splits)
next
  case (LoopHave t d)
  then have "rt_timeout t = heartbeatGracePeriod" using q by (auto simp: good_queue_def good_trigger_def)
  with LoopHave step due chk T show ?thesis
    by (auto simp: due_from_def RetryQueue_Cancel_def split: loop_phase.splits if_splits)
next
  case (LoopPut t d)
  with put_effect [of now again t d q q'] step due chk show ?thesis
    by (auto simp: due_from_def split: loop_phase.splits if_splits)
qed (use step in simp)

lemma monitor_loop:
  assumes inv: "monitor st rd q chk now" and step: "loop_step now again (rq_loop q) q = Some q'"
    and chk: "chk = CheckNone \<and> (\<forall>t d. rq_loop q = LoopHave t d \<longrightarrow> Unix now < d) \<or> chk = CheckDone again"
  shows "monitor st rd q' CheckNone now"
proof (rule monitorI)
  show "good_queue q'" by (rule good_queue_loop [OF monitor_good [OF inv] step])
  show "\<exists>t1 rest. rd w = (t1, True) # rest \<and> t1 \<le> now \<and> due_from w (Unix (t1 + heartbeatGracePeriod)) q' CheckNone"
    if "st w = Some WorkerSuspect" for w
  proof -
    have "\<not> pending w q chk" using chk by (auto simp: pending_def)
    from monitor_suspect [OF inv that this] obtain t1 rest where
      t: "rd w = (t1, True) # rest" "t1 \<le> now" "due_from w (Unix (t1 + heartbeatGracePeriod)) q chk" by blast
    have T: "Unix (t1 + heartbeatGracePeriod) \<le> Unix (now + heartbeatGracePeriod)" using t(2) by (intro Unix_mono) simp
    have chk': "chk = CheckNone \<and> (\<forall>t d. rq_loop q = LoopHave t d \<longrightarrow> Unix now < d)
              \<or> chk = CheckDone again \<and> (\<exists>t d. rq_loop q = LoopHave t d \<and> d \<le> Unix now)"
      using chk monitor_chk [OF inv] by blast
    from due_from_loop [OF t(3) monitor_good [OF inv] T step chk'] t show ?thesis by blast
  qed
qed simp_all

text \<open>The read of a heartbeat, and the update that follows it.\<close>

lemma Unix_less: "Unix (t1 + heartbeatGracePeriod) \<le> Unix now \<Longrightarrow> now - t1 > 14 * Second"
  by (simp add: Unix_def heartbeatGracePeriod_def Second_def)

lemma monitor_read:
  assumes inv: "monitor st rd q CheckNone now" and hand: "rq_loop q = LoopHave trigger d" "d \<le> Unix now"
    and w: "st (rt_key trigger) = Some a" "a \<noteq> WorkerDead"
    and v: "(again, v) = (if late then if a = WorkerAlive then (True, WorkerSuspect) else (False, WorkerDead) else (True, WorkerAlive))"
  shows "monitor st (rd(rt_key trigger := (now, late) # rd (rt_key trigger))) q (CheckUpdate again v) now"
    (is "monitor st ?rd q ?chk now")
proof (rule monitorI)
  show "good_queue q" by (rule monitor_good [OF inv])
  show "\<exists>t1 rest. ?rd w = (t1, True) # rest \<and> t1 \<le> now \<and> due_from w (Unix (t1 + heartbeatGracePeriod)) q ?chk"
    if "st w = Some WorkerSuspect" "\<not> pending w q ?chk" for w
  proof -
    have k: "w \<noteq> rt_key trigger" using that(2) hand by (auto simp: pending_def)
    have "\<not> pending w q CheckNone" by (simp add: pending_def)
    from monitor_suspect [OF inv that(1) this] show ?thesis using k hand by (auto simp: due_from_def)
  qed
  have "two_missed ((now, True) # rd (rt_key trigger))" if "a = WorkerSuspect"
  proof -
    have "\<not> pending (rt_key trigger) q CheckNone" by (simp add: pending_def)
    from monitor_suspect [OF inv _ this] w that obtain t1 rest where
      t: "rd (rt_key trigger) = (t1, True) # rest"
        "due_from (rt_key trigger) (Unix (t1 + heartbeatGracePeriod)) q CheckNone" by blast
    then have "Unix (t1 + heartbeatGracePeriod) \<le> Unix now" using hand order_trans by (auto simp: due_from_def)
    from Unix_less [OF this] t(1) show ?thesis by (auto simp: two_missed_def)
  qed
  then show "verdict_ok (st (rt_key trigger')) (?rd (rt_key trigger')) now again' v'"
    if "?chk = CheckUpdate again' v'" "rq_loop q = LoopHave trigger' d'" for again' v' trigger' d'
    using that hand w v by (cases a) (auto simp: verdict_ok_def split: if_splits)
qed (use hand in auto)

lemma monitor_update:
  assumes inv: "monitor st rd q (CheckUpdate again v) now" and hand: "rq_loop q = LoopHave trigger d"
  shows "monitor (st(rt_key trigger := Some v)) rd q (CheckDone again) now"
proof (rule monitorI)
  let ?st = "st(rt_key trigger := Some v)"
  have ok: "verdict_ok (st (rt_key trigger)) (rd (rt_key trigger)) now again v"
    by (rule monitor_verdict [OF inv refl hand])
  show "\<exists>t1 rest. rd w = (t1, True) # rest \<and> t1 \<le> now \<and> due_from w (Unix (t1 + heartbeatGracePeriod)) q (CheckDone again)"
    if "?st w = Some WorkerSuspect" for w
  proof (cases "w = rt_key trigger")
    case True
    then show ?thesis using that ok hand by (auto simp: verdict_ok_def due_from_def)
  next
    case False
    then have "\<not> pending w q (CheckUpdate again v)" using hand by (auto simp: pending_def)
    from monitor_suspect [OF inv _ this] show ?thesis using False that hand by (auto simp: due_from_def)
  qed
  show "\<exists>trigger d. rq_loop q = LoopHave trigger d \<and> d \<le> Unix now" using monitor_chk [OF inv] by simp
qed (simp_all add: monitor_good [OF inv])

lemma monitor_skip:
  assumes inv: "monitor st rd q CheckNone now" and hand: "rq_loop q = LoopHave trigger d" "d \<le> Unix now"
    and w: "st (rt_key trigger) \<noteq> Some WorkerSuspect"
  shows "monitor st rd q (CheckDone again) now"
proof (rule monitorI)
  show "\<exists>t1 rest. rd w = (t1, True) # rest \<and> t1 \<le> now \<and> due_from w (Unix (t1 + heartbeatGracePeriod)) q (CheckDone again)"
    if "st w = Some WorkerSuspect" for w
  proof -
    have k: "w \<noteq> rt_key trigger" using that w by auto
    have "\<not> pending w q CheckNone" by (simp add: pending_def)
    from monitor_suspect [OF inv that this] show ?thesis using k hand by (auto simp: due_from_def)
  qed
qed (use hand in \<open>simp_all add: monitor_good [OF inv]\<close>)

section \<open>The invariant of a run\<close>

definition reads_of :: "('i, 's) reg_state \<Rightarrow> string \<Rightarrow> (int \<times> bool) list" where
  "reads_of s w = map snd (filter (\<lambda>x. fst x = w) (rs_reads s))"

definition mon_state :: "('i, 's) reg_state \<Rightarrow> bool" where
  "mon_state s \<longleftrightarrow>
     monitor (wstatus (rs_reg s)) (reads_of s) (r_retryQueue (rs_reg s)) (rs_check s) (rs_now s)"

lemma reads_of_cong: "rs_reads s' = rs_reads s \<Longrightarrow> reads_of s' = reads_of s"
  by (rule ext) (simp add: reads_of_def)

lemma reads_of_note:
  "map_of (r_workers (rs_reg s)) wid = Some w \<Longrightarrow> n_status w \<noteq> WorkerDead \<Longrightarrow>
   reads_of (note_read now wid s) = (reads_of s)(wid := (now, overdue now w) # reads_of s wid)"
  by (auto simp: reads_of_def note_read_def)

lemma note_read_fields [simp]:
  "rs_reg (note_read now wid s) = rs_reg s" "rs_env (note_read now wid s) = rs_env s"
  "rs_now (note_read now wid s) = rs_now s"
  by (simp_all add: note_read_def split: option.split)

lemma reg_loop_step_mon:
  assumes inv: "mon_state s" and step: "reg_loop_step (rs_now s) again s = Some s'"
    and chk: "rs_check s = CheckNone \<and> (\<forall>t d. rq_loop (r_retryQueue (rs_reg s)) = LoopHave t d \<longrightarrow> Unix (rs_now s) < d)
              \<or> rs_check s = CheckDone again"
  shows "mon_state s' \<and> rs_env s' = rs_env s \<and> wstatus (rs_reg s') = wstatus (rs_reg s)
     \<and> r_onDeadHooks (rs_reg s') = r_onDeadHooks (rs_reg s)"
proof -
  from step obtain q' where q': "loop_step (rs_now s) again (rq_loop (r_retryQueue (rs_reg s))) (r_retryQueue (rs_reg s)) = Some q'"
    "s' = s\<lparr>rs_reg := (rs_reg s)\<lparr>r_retryQueue := q'\<rparr>, rs_check := CheckNone\<rparr>"
    by (auto simp: reg_loop_step_def Let_def)
  have st: "wstatus (rs_reg s') = wstatus (rs_reg s)" "reads_of s' = reads_of s"
    by (auto simp: q'(2) wstatus_def reads_of_def)
  from monitor_loop [OF inv [unfolded mon_state_def] q'(1) chk] st show ?thesis
    by (simp add: mon_state_def q'(2))
qed

text \<open>What one step of the loop goroutine does to the statuses and the environment.\<close>

definition died :: "('i, 's) reg_state \<Rightarrow> ('i, 's) reg_state \<Rightarrow> string set" where
  "died s s' = {w. wstatus (rs_reg s') w = Some WorkerDead \<and> wstatus (rs_reg s) w \<noteq> Some WorkerDead}"

definition suspected :: "('i, 's) reg_state \<Rightarrow> ('i, 's) reg_state \<Rightarrow> string set" where
  "suspected s s' = {w. wstatus (rs_reg s') w = Some WorkerSuspect \<and> wstatus (rs_reg s) w \<noteq> Some WorkerSuspect}"

definition step_ok :: "'i \<Rightarrow> ('i, 's) reg_state \<Rightarrow> ('i, 's) reg_state \<Rightarrow> bool" where
  "step_ok i s s' \<longleftrightarrow> mon_state s' \<and> r_onDeadHooks (rs_reg s') = r_onDeadHooks (rs_reg s)
     \<and> (died s s' = {} \<and> rs_env s' = rs_env s
        \<or> (\<exists>w. died s s' = {w} \<and> two_missed (reads_of s w)
             \<and> rs_env s' = fold (\<lambda>hook. hook i w) (r_onDeadHooks (rs_reg s)) (rs_env s)))
     \<and> (\<forall>w \<in> suspected s s'. \<exists>t1 rest. reads_of s w = (t1, True) # rest)"

lemma update_step_ok:
  assumes inv: "mon_state s" and chk: "rs_check s = CheckUpdate again v"
    and hand: "rq_loop (r_retryQueue (rs_reg s)) = LoopHave trigger d"
    and s': "s' = s\<lparr>rs_reg := fst (updateWorkerStatus i (rt_do trigger) v (rs_reg s) (rs_env s)),
                    rs_env := snd (updateWorkerStatus i (rt_do trigger) v (rs_reg s) (rs_env s)), rs_check := CheckDone again\<rparr>"
  shows "step_ok i s s'"
proof -
  note m = inv [unfolded mon_state_def chk]
  have "good_trigger trigger" using monitor_good [OF m] hand by (auto simp: good_queue_def)
  then have k: "rt_do trigger = rt_key trigger" by (simp add: good_trigger_def)
  have ok: "verdict_ok (wstatus (rs_reg s) (rt_key trigger)) (reads_of s (rt_key trigger)) (rs_now s) again v"
    by (rule monitor_verdict [OF m refl hand])
  then have known: "wstatus (rs_reg s) (rt_key trigger) \<noteq> None" "wstatus (rs_reg s) (rt_key trigger) \<noteq> Some WorkerDead"
    by (auto simp: verdict_ok_def)
  have st: "wstatus (rs_reg s') = (wstatus (rs_reg s))(rt_key trigger := Some v)"
    using known by (auto simp: s' k wstatus_update)
  have "reads_of s' = reads_of s" by (auto simp: s' reads_of_def)
  with monitor_update [OF m hand] st have "mon_state s'" by (simp add: mon_state_def s')
  moreover have "died s s' = (if v = WorkerDead then {rt_key trigger} else {})"
    using known by (auto simp: died_def st)
  moreover have "rs_env s' = (if v = WorkerDead then fold (\<lambda>hook. hook i (rt_key trigger)) (r_onDeadHooks (rs_reg s)) (rs_env s) else rs_env s)"
    using known by (simp add: s' k update_env)
  moreover have "two_missed (reads_of s (rt_key trigger))" if "v = WorkerDead" using ok that by (simp add: verdict_ok_def)
  moreover have "\<exists>t1 rest. reads_of s w = (t1, True) # rest" if "w \<in> suspected s s'" for w
    using that ok by (auto simp: suspected_def st verdict_ok_def split: if_splits)
  ultimately show ?thesis by (auto simp: step_ok_def s')
qed

lemma same_status_step_ok:
  assumes "mon_state s'" "rs_env s' = rs_env s" "r_onDeadHooks (rs_reg s') = r_onDeadHooks (rs_reg s)"
    and "\<And>w. wstatus (rs_reg s') w = wstatus (rs_reg s) w \<or> wstatus (rs_reg s') w = Some WorkerAlive"
  shows "step_ok i s s'"
proof -
  have "w \<notin> died s s' \<and> w \<notin> suspected s s'" for w using assms(4) [of w] by (auto simp: died_def suspected_def)
  then show ?thesis using assms(1-3) by (auto simp: step_ok_def)
qed

lemma read_step_ok:
  assumes inv: "mon_state s" and chk: "rs_check s = CheckNone"
    and hand: "rq_loop (r_retryQueue (rs_reg s)) = LoopHave trigger d" "d \<le> Unix (rs_now s)"
    and dec: "check_decide (rs_now s) (rt_do trigger) (rs_reg s) = (again, v)"
  shows "step_ok i s (case v of None \<Rightarrow> s\<lparr>rs_check := CheckDone again\<rparr>
    | Some status \<Rightarrow> (note_read (rs_now s) (rt_do trigger) s)\<lparr>rs_check := CheckUpdate again status\<rparr>)"
proof -
  note m = inv [unfolded mon_state_def chk]
  have "good_trigger trigger" using monitor_good [OF m] hand by (auto simp: good_queue_def)
  then have k: "rt_do trigger = rt_key trigger" by (simp add: good_trigger_def)
  show ?thesis
  proof (cases v)
    case None
    then have "wstatus (rs_reg s) (rt_key trigger) \<noteq> Some WorkerSuspect"
      using check_decide_cases(1) [of "rs_now s" "rt_do trigger" "rs_reg s" again] dec k by auto
    from monitor_skip [OF m hand this, of again] have "mon_state (s\<lparr>rs_check := CheckDone again\<rparr>)"
      by (simp add: mon_state_def reads_of_cong [of "s\<lparr>rs_check := CheckDone again\<rparr>" s])
    then show ?thesis using None by (intro same_status_step_ok) auto
  next
    case (Some st)
    then obtain w where w: "map_of (r_workers (rs_reg s)) (rt_key trigger) = Some w" "n_status w \<noteq> WorkerDead"
      "(again, st) = (if overdue (rs_now s) w then if n_status w = WorkerAlive then (True, WorkerSuspect) else (False, WorkerDead)
                      else (True, WorkerAlive))"
      using check_decide_cases(2) [of "rs_now s" "rt_do trigger" "rs_reg s" again st] dec k by auto
    let ?s = "(note_read (rs_now s) (rt_do trigger) s)\<lparr>rs_check := CheckUpdate again st\<rparr>"
    have "wstatus (rs_reg s) (rt_key trigger) = Some (n_status w)" using w by (simp add: wstatus_def)
    from monitor_read [OF m hand this w(2,3)] have "mon_state ?s"
      using reads_of_note [OF w(1,2), of "rs_now s"] reads_of_cong [of ?s "note_read (rs_now s) (rt_do trigger) s"] k
      by (simp add: mon_state_def)
    then show ?thesis using Some by (intro same_status_step_ok) auto
  qed
qed

lemma reg_loop_ok:
  assumes inv: "mon_state s" and step: "reg_loop (rs_now s) i s = Some s'"
  shows "step_ok i s s'"
proof (cases "rs_check s")
  case CheckNone
  show ?thesis
  proof (cases "\<exists>trigger d. rq_loop (r_retryQueue (rs_reg s)) = LoopHave trigger d \<and> d \<le> Unix (rs_now s)")
    case True
    then obtain trigger d where hand: "rq_loop (r_retryQueue (rs_reg s)) = LoopHave trigger d" "d \<le> Unix (rs_now s)" by blast
    obtain again v where dec: "check_decide (rs_now s) (rt_do trigger) (rs_reg s) = (again, v)" by force
    from read_step_ok [OF inv CheckNone hand dec] show ?thesis
      using step CheckNone hand dec by (auto simp: reg_loop_def split: option.splits)
  next
    case False
    then have "reg_loop_step (rs_now s) True s = Some s'"
      using step CheckNone by (auto simp: reg_loop_def split: loop_phase.splits if_splits)
    from reg_loop_step_mon [OF inv this] CheckNone False show ?thesis
      by (intro same_status_step_ok) (auto simp: not_le)
  qed
next
  case (CheckUpdate again v)
  then obtain trigger d where hand: "rq_loop (r_retryQueue (rs_reg s)) = LoopHave trigger d"
    using monitor_chk [OF inv [unfolded mon_state_def]] by auto
  show ?thesis using step CheckUpdate hand
    by (intro update_step_ok [OF inv CheckUpdate hand]) (auto simp: reg_loop_def split: prod.splits)
next
  case (CheckDone again)
  then have "reg_loop_step (rs_now s) again s = Some s'" using step by (simp add: reg_loop_def)
  from reg_loop_step_mon [OF inv this] CheckDone show ?thesis by (intro same_status_step_ok) auto
qed

lemma mon_state_later: "mon_state s \<Longrightarrow> rs_now s \<le> now \<Longrightarrow> mon_state (s\<lparr>rs_now := now\<rparr>)"
  using monitor_other [of "wstatus (rs_reg s)" "reads_of s" _ _ "rs_now s" now]
    reads_of_cong [of "s\<lparr>rs_now := now\<rparr>" s] by (simp add: mon_state_def)

lemma reg_do_clock: "reg_do act now i (s\<lparr>rs_now := now\<rparr>) = map_option (\<lambda>s'. s'\<lparr>rs_now := now\<rparr>) (reg_do act now i s)"
  by (simp add: reg_do_def reg_loop_def reg_loop_step_def note_read_def Let_def option.map_comp comp_def map_option_case
      split: reg_action.split option.split check_phase.split loop_phase.split prod.split)

lemma reg_do_ok:
  assumes inv: "mon_state s" and step: "reg_do act (rs_now s) i s = Some s'"
  shows "step_ok i s s'"
proof (cases act)
  case RaLoop
  then show ?thesis using reg_loop_ok [OF inv] step by (simp add: reg_do_def)
next
  case (RaPush wid)
  then obtain q where q: "RetryQueue_Push (rs_now s) (NewCommonRetryTrigger wid heartbeatGracePeriod wid) (r_retryQueue (rs_reg s)) = Some q"
    "s' = s\<lparr>rs_reg := (rs_reg s)\<lparr>r_retryQueue := q\<rparr>, rs_pushing := remove1 wid (rs_pushing s)\<rparr>"
    using step by (auto simp: reg_do_def push_trigger_def split: if_splits option.splits)
  have "wstatus (rs_reg s') = wstatus (rs_reg s)" by (auto simp: q(2) wstatus_def)
  with monitor_push [OF inv [unfolded mon_state_def] q(1)] reads_of_cong [of s' s]
  have "mon_state s'" "wstatus (rs_reg s') = wstatus (rs_reg s)" by (simp_all add: mon_state_def q(2))
  then show ?thesis by (intro same_status_step_ok) (auto simp: q(2))
next
  case (RaRegister request)
  then have s': "s' = s\<lparr>rs_reg := register_node (rs_now s) (request_node request) (rs_reg s),
                  rs_pushing := rr_WorkerId request # rs_pushing s\<rparr>" using step by (simp add: reg_do_def)
  have st: "wstatus (rs_reg s') w = wstatus (rs_reg s) w \<or> wstatus (rs_reg s') w = Some WorkerAlive" for w
    by (simp add: s' wstatus_register)
  from monitor_other [OF inv [unfolded mon_state_def] order_refl, of "wstatus (rs_reg s')", OF st] reads_of_cong [of s' s]
  have "mon_state s'" by (simp add: mon_state_def s')
  then show ?thesis using st by (intro same_status_step_ok) (auto simp: s')
next
  case (RaHeartbeat wid n)
  then have s': "s' = s\<lparr>rs_reg := snd (Registry_Heartbeat (rs_now s) wid n (rs_reg s))\<rparr>" using step by (simp add: reg_do_def)
  have st: "wstatus (rs_reg s') w = wstatus (rs_reg s) w \<or> wstatus (rs_reg s') w = Some WorkerAlive" for w
    by (simp add: s' wstatus_heartbeat)
  from monitor_other [OF inv [unfolded mon_state_def] order_refl, of "wstatus (rs_reg s')", OF st] reads_of_cong [of s' s]
  have "mon_state s'" by (simp add: mon_state_def s')
  then show ?thesis using st by (intro same_status_step_ok) (auto simp: s')
next
  case (RaIncrement wid)
  then have s': "s' = s\<lparr>rs_reg := IncrementRunning wid (rs_reg s)\<rparr>" using step by (simp add: reg_do_def)
  have st: "wstatus (rs_reg s') = wstatus (rs_reg s)" by (rule ext) (simp add: s' wstatus_increment)
  with inv reads_of_cong [of s' s] have "mon_state s'" by (simp add: mon_state_def s')
  then show ?thesis using st by (intro same_status_step_ok) (auto simp: s')
qed

lemma reg_act_ok:
  assumes inv: "mon_state s" and step: "reg_act a s = Some s'" and "snd (snd a) = i"
  shows "step_ok i s s'"
proof -
  obtain act now where a: "a = (act, now, i)" using assms(3) by (cases a) auto
  with step have le: "rs_now s \<le> now"
    and do: "reg_do act now i (s\<lparr>rs_now := now\<rparr>) = Some s'"
    by (auto simp: reg_act_def reg_do_clock split: if_splits)
  from reg_do_ok [OF mon_state_later [OF inv le], of act i s'] do have "step_ok i (s\<lparr>rs_now := now\<rparr>) s'" by simp
  then show ?thesis
    using reads_of_cong [of "s\<lparr>rs_now := now\<rparr>" s] by (simp add: step_ok_def died_def suspected_def)
qed

lemma reg_start_ok: "mon_state (reg_start hooks env)" and reg_start_hooks: "r_onDeadHooks (rs_reg (reg_start hooks env)) = hooks"
proof -
  have f: "r_onDeadHooks (fold OnWorkerDead hs r) = r_onDeadHooks r @ hs
      \<and> r_workers (fold OnWorkerDead hs r) = r_workers r \<and> r_retryQueue (fold OnWorkerDead hs r) = r_retryQueue r"
    for hs and r :: "('a, 'b) WorkerRegistry"
    by (induction hs arbitrary: r) (auto simp: OnWorkerDead_def)
  show "r_onDeadHooks (rs_reg (reg_start hooks env)) = hooks"
    by (simp add: reg_start_def f NewWorkerRegistry_def)
  have "good_queue NewRetryQueue" using new_rq_rep
    by (auto simp: good_queue_def NewRetryQueue_def NewLinkedQueue_def)
  then show "mon_state (reg_start hooks env)"
    by (simp add: mon_state_def reg_start_def monitor_def wstatus_def f NewWorkerRegistry_def)
qed

lemma reg_run_ok:
  "mon_state s \<Longrightarrow> reg_run as s = Some s' \<Longrightarrow> mon_state s' \<and> r_onDeadHooks (rs_reg s') = r_onDeadHooks (rs_reg s)"
proof (induction as arbitrary: s)
  case (Cons a as)
  then obtain s1 where s1: "reg_act a s = Some s1" "reg_run as s1 = Some s'" by (auto split: option.splits)
  from reg_act_ok [OF Cons.prems(1) s1(1) refl] Cons.IH [OF _ s1(2)] show ?case by (auto simp: step_ok_def)
qed simp

lemmas reg_reachable = reg_run_ok [OF reg_start_ok, unfolded reg_start_hooks]

section \<open>Lookups after registration\<close>

lemma alive_loop_set:
  "set (alive_loop ws ks) = {n. \<exists>k \<in> set ks. map_of ws k = Some n \<and> n_status n = WorkerAlive}"
  by (induction ks) (auto simp: node_defs split: option.splits)

lemma AliveWorkers_set:
  assumes "go_range rng"
  shows "set (AliveWorkers rng r) = {n. \<exists>k. map_of (r_workers r) k = Some n \<and> n_status n = WorkerAlive}"
proof -
  have "k \<in> set (rng 0 (keys (r_workers r)))" if "map_of (r_workers r) k = Some n" for k n
    using go_range.set_rng [OF assms, of 0 "keys (r_workers r)"] map_of_Some_keys [OF that] by simp
  then show ?thesis by (auto simp: AliveWorkers_def alive_loop_set)
qed

lemma register_node_lookup:
  "\<exists>n. map_of (r_workers (register_node now (request_node request) r)) (rr_WorkerId request) = Some n
     \<and> n_status n = WorkerAlive \<and> n_Address n = rr_Address request \<and> n_Labels n = rr_Labels request
     \<and> n_Capabilities n = rr_Capabilities request \<and> n_Capacity n = rr_Capacity request \<and> n_LastHeartbeat n = now"
  by (simp add: register_node_def request_node_def node_defs split: option.split)

section \<open>Properties\<close>

text \<open>
  C8. The dead man's switch fires only after two missed periods in a row: in every
  interleaving of registrations, heartbeats and the loop, when a step turns a worker DEAD, the
  last two checks of that worker both found its heartbeat older than the grace period of 15
  seconds, and they were more than 14 seconds apart (due times are kept in whole seconds). When
  a step turns a worker SUSPECT, the last check of that worker found its heartbeat overdue.
\<close>

theorem dead_after_two_missed:
  assumes "reg_run as (reg_start hooks env) = Some s" and "reg_act a s = Some s'"
  shows "(wstatus (rs_reg s) w \<noteq> Some WorkerDead \<and> wstatus (rs_reg s') w = Some WorkerDead \<longrightarrow>
      (\<exists>t2 t1 rest. reads_of s w = (t2, True) # (t1, True) # rest \<and> t2 - t1 > 14 * Second))
    \<and> (wstatus (rs_reg s) w \<noteq> Some WorkerSuspect \<and> wstatus (rs_reg s') w = Some WorkerSuspect \<longrightarrow>
      (\<exists>t1 rest. reads_of s w = (t1, True) # rest))"
proof -
  have ok: "step_ok (snd (snd a)) s s'" using reg_reachable [OF assms(1)] reg_act_ok [OF _ assms(2)] by simp
  have "two_missed (reads_of s w)" if "w \<in> died s s'"
    using ok that unfolding step_ok_def by (metis empty_iff singletonD)
  moreover have "\<exists>t1 rest. reads_of s w = (t1, True) # rest" if "w \<in> suspected s s'"
    using ok that by (simp add: step_ok_def)
  ultimately show ?thesis by (auto simp: two_missed_def died_def suspected_def)
qed

definition example_request :: RegisterRequest where
  "example_request = \<lparr>rr_WorkerId = ''w'', rr_Address = ''host:1'', rr_Labels = [], rr_Capabilities = [''shell''], rr_Capacity = 4\<rparr>"

definition silent_run :: "(reg_action \<times> int \<times> unit) list" where
  "silent_run =
     [(RaRegister example_request, 0, ()), (RaPush ''w'', 0, ()), (RaLoop, 0, ())]
     @ replicate 5 (RaLoop, 16 * Second, ()) @ [(RaLoop, 32 * Second, ())]"

definition log_hook :: "unit \<Rightarrow> string \<Rightarrow> string list \<Rightarrow> string list" where
  "log_hook i w env = env @ [w]"

definition silent_state :: "(unit, string list) reg_state" where
  "silent_state = the (reg_run silent_run (reg_start [log_hook] []))"

definition dead_state :: "(unit, string list) reg_state" where
  "dead_state = the (reg_act (RaLoop, 32 * Second, ()) silent_state)"

lemma silent_steps:
  "reg_run silent_run (reg_start [log_hook] []) = Some silent_state"
  "reg_act (RaLoop, 32 * Second, ()) silent_state = Some dead_state"
  "wstatus (rs_reg silent_state) ''w'' = Some WorkerSuspect"
  "wstatus (rs_reg dead_state) ''w'' = Some WorkerDead"
proof -
  have a: "\<not> Option.is_none (reg_run silent_run (reg_start [log_hook] []))" by code_simp
  then show r: "reg_run silent_run (reg_start [log_hook] []) = Some silent_state"
    by (auto simp: silent_state_def Option.is_none_def)
  have "\<not> Option.is_none (reg_act (RaLoop, 32 * Second, ()) silent_state)" by code_simp
  then show "reg_act (RaLoop, 32 * Second, ()) silent_state = Some dead_state"
    by (auto simp: dead_state_def Option.is_none_def)
qed (code_simp, code_simp)

theorem dead_after_two_missed_witness:
  "\<exists>t2 t1 rest. reads_of silent_state ''w'' = (t2, True) # (t1, True) # rest \<and> t2 - t1 > 14 * Second"
  using dead_after_two_missed [OF silent_steps(1,2), of "''w''"] silent_steps(3,4) by simp

text \<open>
  The \<open>OnWorkerDead\<close> hooks run exactly once per death: in every interleaving a step runs
  all hooks, in registration order, for each worker that this step turns DEAD (at most one),
  and runs none otherwise.
\<close>

theorem dead_hooks_once:
  assumes "reg_run as (reg_start hooks env) = Some s" and "reg_act (act, now, i) s = Some s'"
  shows "\<exists>ws. length ws \<le> 1
     \<and> set ws = {w. wstatus (rs_reg s') w = Some WorkerDead \<and> wstatus (rs_reg s) w \<noteq> Some WorkerDead}
     \<and> rs_env s' = fold (\<lambda>w. fold (\<lambda>hook. hook i w) hooks) ws (rs_env s)"
proof -
  have hooks: "r_onDeadHooks (rs_reg s) = hooks" using reg_reachable [OF assms(1)] by simp
  have "step_ok i s s'" using reg_reachable [OF assms(1)] reg_act_ok [OF _ assms(2)] by simp
  then consider "died s s' = {}" "rs_env s' = rs_env s"
    | w where "died s s' = {w}" "rs_env s' = fold (\<lambda>hook. hook i w) hooks (rs_env s)"
    by (auto simp: step_ok_def hooks)
  then show ?thesis
  proof cases
    case 1
    then show ?thesis by (intro exI [of _ "[]"]) (simp add: died_def)
  next
    case (2 w)
    then show ?thesis by (intro exI [of _ "[w]"]) (simp add: died_def)
  qed
qed

theorem dead_hooks_once_witness: "rs_env dead_state = rs_env silent_state @ [''w'']"
proof -
  obtain ws where ws: "length ws \<le> 1"
    "set ws = {w. wstatus (rs_reg dead_state) w = Some WorkerDead \<and> wstatus (rs_reg silent_state) w \<noteq> Some WorkerDead}"
    "rs_env dead_state = fold (\<lambda>w. fold (\<lambda>hook. hook () w) [log_hook]) ws (rs_env silent_state)"
    using dead_hooks_once [OF silent_steps(1,2)] by blast
  have "''w'' \<in> set ws" using ws(2) silent_steps(3,4) by simp
  with ws(1) have "ws = [''w'']" by (cases ws) auto
  then show ?thesis using ws(3) by (simp add: log_hook_def)
qed

text \<open>
  What \<open>Register\<close> stores is what the scheduler and the worker client read back, for a new
  and for a known worker: afterwards \<open>AddressOf\<close> gives the requested address, \<open>AliveWorkers\<close>
  lists the worker with the requested labels, capabilities and capacity (whatever its status
  was before), its switch is armed, and no other worker changes.
\<close>

theorem register_roundtrip:
  assumes "go_range rng" and "Registry_Register now (request_node request) r = Some r'" and "rq_rep (r_retryQueue r) ts"
  shows "AddressOf (rr_WorkerId request) r' = rr_Address request
     \<and> (\<exists>n \<in> set (AliveWorkers rng r'). map_of (r_workers r') (rr_WorkerId request) = Some n
          \<and> n_Labels n = rr_Labels request \<and> n_Capabilities n = rr_Capabilities request
          \<and> n_Capacity n = rr_Capacity request \<and> n_LastHeartbeat n = now)
     \<and> RetryQueue_ActiveExists (rr_WorkerId request) (r_retryQueue r')
     \<and> (\<forall>w. w \<noteq> rr_WorkerId request \<longrightarrow> map_of (r_workers r') w = map_of (r_workers r) w)"
proof -
  let ?t = "NewCommonRetryTrigger (rr_WorkerId request) heartbeatGracePeriod (rr_WorkerId request)"
  have id: "n_ID (request_node request) = rr_WorkerId request" by (simp add: request_node_def)
  from assms(2) obtain q where q: "RetryQueue_Push now ?t (r_retryQueue r) = Some q"
    and r': "r' = (register_node now (request_node request) r)\<lparr>r_retryQueue := q\<rparr>"
    by (auto simp: Registry_Register_def push_trigger_def id split: option.splits)
  from push_ok [OF assms(3), of now ?t] q have "RetryQueue_ActiveExists (rr_WorkerId request) q"
    by (auto simp: RetryQueue_ActiveExists_def NewCommonRetryTrigger_def split: if_splits)
  moreover have "map_of (r_workers r') w = map_of (r_workers r) w" if "w \<noteq> rr_WorkerId request" for w
    using that by (simp add: r' register_node_def id split: option.split)
  moreover obtain n where n: "map_of (r_workers r') (rr_WorkerId request) = Some n" "n_status n = WorkerAlive"
    "n_Address n = rr_Address request" "n_Labels n = rr_Labels request" "n_Capabilities n = rr_Capabilities request"
    "n_Capacity n = rr_Capacity request" "n_LastHeartbeat n = now"
    using register_node_lookup [of now request r] by (auto simp: r')
  moreover from n have "n \<in> set (AliveWorkers rng r')" by (auto simp: AliveWorkers_set [OF assms(1)])
  ultimately show ?thesis by (auto simp: AddressOf_def r')
qed

definition one_worker :: "(unit, unit) WorkerRegistry" where
  "one_worker = the (Registry_Register 7 (request_node example_request) NewWorkerRegistry)"

theorem register_roundtrip_witness:
  "AddressOf ''w'' one_worker = ''host:1'' \<and> RetryQueue_ActiveExists ''w'' (r_retryQueue one_worker)"
proof -
  have s: "\<not> Option.is_none (Registry_Register 7 (request_node example_request) (NewWorkerRegistry :: (unit, unit) WorkerRegistry))" by code_simp
  have "Registry_Register 7 (request_node example_request) NewWorkerRegistry = Some one_worker"
    using s by (auto simp: one_worker_def Option.is_none_def)
  moreover have "rq_rep (r_retryQueue (NewWorkerRegistry :: (unit, unit) WorkerRegistry)) []"
    using new_rq_rep by (simp add: NewWorkerRegistry_def)
  ultimately show ?thesis using register_roundtrip [OF offset.go_range_axioms] by (fastforce simp: example_request_def)
qed

text \<open>
  A heartbeat revives a DEAD worker without arming its switch again: there is a run after
  which the worker is ALIVE, so tasks are assigned to it, while the retry queue holds no
  trigger for it; every later step of the loop leaves this state as it is, so if the worker
  falls silent it is never declared dead.
\<close>

theorem heartbeat_revives_unmonitored:
  "\<exists>as s. reg_run as (reg_start [log_hook] []) = Some s \<and> wstatus (rs_reg s) ''w'' = Some WorkerAlive
     \<and> \<not> RetryQueue_ActiveExists ''w'' (r_retryQueue (rs_reg s)) \<and> rs_pushing s = []
     \<and> (\<forall>now \<ge> rs_now s. reg_act (RaLoop, now, ()) s = Some (s\<lparr>rs_now := now\<rparr>))"
proof -
  let ?as = "silent_run @ replicate 3 (RaLoop, 32 * Second, ()) @ [(RaHeartbeat ''w'' 0, 33 * Second, ())]"
  let ?r = "reg_run ?as (reg_start [log_hook] [])"
  have e: "map_option (\<lambda>s. (wstatus (rs_reg s) ''w'', RetryQueue_ActiveExists ''w'' (r_retryQueue (rs_reg s)), rs_pushing s,
      rs_check s, rq_loop (r_retryQueue (rs_reg s)), lq_head (rq_nodes (r_retryQueue (rs_reg s))), rq_stopChan (r_retryQueue (rs_reg s)))) ?r
    = Some (Some WorkerAlive, False, [], CheckNone, LoopSelect, None, False)" by code_simp
  then obtain s where s: "?r = Some s" "wstatus (rs_reg s) ''w'' = Some WorkerAlive"
    "\<not> RetryQueue_ActiveExists ''w'' (r_retryQueue (rs_reg s))" "rs_pushing s = []" and idle: "rs_check s = CheckNone"
    "rq_loop (r_retryQueue (rs_reg s)) = LoopSelect" "lq_head (rq_nodes (r_retryQueue (rs_reg s))) = None"
    "\<not> rq_stopChan (r_retryQueue (rs_reg s))" by (auto simp: map_option_eq_Some)
  have "reg_act (RaLoop, now, ()) s = Some (s\<lparr>rs_now := now\<rparr>)" if "rs_now s \<le> now" for now
    using that idle by (simp add: reg_act_def reg_do_def reg_loop_def reg_loop_step_def rq_dequeue_def LinkedQueue_Dequeue_def Let_def)
  then show ?thesis using s by blast
qed

text \<open>
  A registration can be lost to the switch of the previous incarnation: when a worker
  re-registers after the switch has marked it DEAD and before the loop cancels its key, its
  push is ignored because the key is still active, and the loop then removes the key; the
  worker is ALIVE and no trigger watches it.
\<close>

theorem register_race_unmonitored:
  "\<exists>as s. reg_run as (reg_start [log_hook] []) = Some s \<and> wstatus (rs_reg s) ''w'' = Some WorkerAlive
     \<and> rs_env s = [''w''] \<and> rs_pushing s = [] \<and> \<not> RetryQueue_ActiveExists ''w'' (r_retryQueue (rs_reg s))
     \<and> RetryQueue_Len (r_retryQueue (rs_reg s)) = 0 \<and> rq_loop (r_retryQueue (rs_reg s)) = LoopSelect"
proof -
  let ?as = "silent_run @ [(RaLoop, 32 * Second, ()), (RaRegister example_request, 32 * Second, ()), (RaPush ''w'', 32 * Second, ()),
    (RaLoop, 32 * Second, ()), (RaLoop, 32 * Second, ())]"
  let ?r = "reg_run ?as (reg_start [log_hook] [])"
  have e: "map_option (\<lambda>s. (wstatus (rs_reg s) ''w'', rs_env s, rs_pushing s, RetryQueue_ActiveExists ''w'' (r_retryQueue (rs_reg s)),
      RetryQueue_Len (r_retryQueue (rs_reg s)), rq_loop (r_retryQueue (rs_reg s)))) ?r
    = Some (Some WorkerAlive, [''w''], [], False, 0, LoopSelect)" by code_simp
  then obtain s where "?r = Some s" "wstatus (rs_reg s) ''w'' = Some WorkerAlive" "rs_env s = [''w'']" "rs_pushing s = []"
    "\<not> RetryQueue_ActiveExists ''w'' (r_retryQueue (rs_reg s))" "RetryQueue_Len (r_retryQueue (rs_reg s)) = 0"
    "rq_loop (r_retryQueue (rs_reg s)) = LoopSelect" by (auto simp: map_option_eq_Some)
  then show ?thesis by blast
qed

end
