(* ===== verification/Scheduler.thy ===== *)
theory Scheduler
  imports Worker_Client Worker_Registry Engine
begin

text \<open>
  \<^verbatim>\<open>control-plane/scheduler/scheduler.go\<close>. The scheduler reaches the registry, the worker
  client and, through \<^verbatim>\<open>OnDispatched\<close>, the engine; the three are the record
  \<open>ControlPlane\<close>, which the composition in \<^verbatim>\<open>cmd/control-plane/main.go\<close> creates. The
  scheduler's queue is the queue that the engine pushes to (\<open>e_queue\<close>).

  \<^verbatim>\<open>sort.Slice\<close> is a parameter with the law that the standard library documents (locale
  \<open>go_sort\<close>). Calls to the network take the position of the job in its batch, so that
  each call may answer differently.
\<close>

section \<open>Sorting\<close>

definition strict_weak_on :: "'a set \<Rightarrow> ('a \<Rightarrow> 'a \<Rightarrow> bool) \<Rightarrow> bool" where
  "strict_weak_on A lt \<longleftrightarrow> (\<forall>x \<in> A. \<not> lt x x)
     \<and> (\<forall>x \<in> A. \<forall>y \<in> A. \<forall>z \<in> A. lt x z \<longrightarrow> lt x y \<or> lt y z)
     \<and> (\<forall>x \<in> A. \<forall>y \<in> A. lt x y \<longrightarrow> \<not> lt y x)"

locale go_sort =
  fixes sortSlice :: "('a \<Rightarrow> 'a \<Rightarrow> bool) \<Rightarrow> 'a list \<Rightarrow> 'a list"
  assumes sort_mset: "mset (sortSlice lt xs) = mset xs"
    and sort_order: "strict_weak_on (set xs) lt \<Longrightarrow> sorted_wrt (\<lambda>x y. \<not> lt y x) (sortSlice lt xs)"
begin

lemma sort_set: "set (sortSlice lt xs) = set xs"
  by (metis sort_mset set_mset_mset)

lemma sort_Nil_iff: "sortSlice lt xs = [] \<longleftrightarrow> xs = []"
  by (metis sort_mset mset_zero_iff)

lemma sort_hd:
  assumes "xs \<noteq> []"
  shows "hd (sortSlice lt xs) \<in> set xs"
  using assms by (metis hd_in_set sort_Nil_iff sort_set)

lemma sort_hd_least:
  assumes "xs \<noteq> []" "strict_weak_on (set xs) lt" "y \<in> set xs"
  shows "\<not> lt y (hd (sortSlice lt xs))"
proof (cases "sortSlice lt xs")
  case Nil
  then show ?thesis using assms(1) sort_Nil_iff by blast
next
  case (Cons x ys)
  have "y \<in> set (x # ys)" using assms(3) sort_set [of lt xs] Cons by auto
  then show ?thesis using sort_order [OF assms(2)] assms(2,3) Cons by (auto simp: strict_weak_on_def)
qed

end

text \<open>
  The sort that the library runs on slices of up to twelve elements: insertion from the left,
  each element sinking while it is less than its neighbour.
\<close>

fun sort_insert :: "('a \<Rightarrow> 'a \<Rightarrow> bool) \<Rightarrow> 'a \<Rightarrow> 'a list \<Rightarrow> 'a list" where
  "sort_insert lt x [] = [x]"
| "sort_insert lt x (y # ys) = (if lt x y then y # sort_insert lt x ys else x # y # ys)"

definition insertion_sort :: "('a \<Rightarrow> 'a \<Rightarrow> bool) \<Rightarrow> 'a list \<Rightarrow> 'a list" where
  "insertion_sort lt xs = rev (fold (sort_insert lt) xs [])"

lemma mset_sort_insert: "mset (sort_insert lt x ys) = add_mset x (mset ys)"
  by (induction ys) auto

lemma mset_fold_insert: "mset (fold (sort_insert lt) xs acc) = mset xs + mset acc"
  by (induction xs arbitrary: acc) (auto simp: mset_sort_insert)

lemma set_sort_insert: "set (sort_insert lt x ys) = insert x (set ys)"
  by (metis mset_sort_insert set_mset_add_mset_insert set_mset_mset)

lemma sorted_sort_insert:
  assumes "strict_weak_on A lt" "insert x (set ys) \<subseteq> A" "sorted_wrt (\<lambda>x y. \<not> lt x y) ys"
  shows "sorted_wrt (\<lambda>x y. \<not> lt x y) (sort_insert lt x ys)"
  using assms
proof (induction ys)
  case (Cons y ys)
  then have A: "x \<in> A" "y \<in> A" "set ys \<subseteq> A" by auto
  show ?case
  proof (cases "lt x y")
    case True
    then have "\<not> lt y x" using assms(1) A by (auto simp: strict_weak_on_def)
    with True Cons show ?thesis by (auto simp: set_sort_insert)
  next
    case False
    have "\<not> lt x z" if "z \<in> set ys" for z
      using assms(1) A that Cons.prems(3) False unfolding strict_weak_on_def by (metis subsetD list.set_intros sorted_wrt.simps(2))
    with False Cons show ?thesis by auto
  qed
qed simp

lemma sorted_fold_insert:
  "strict_weak_on A lt \<Longrightarrow> set xs \<union> set acc \<subseteq> A \<Longrightarrow> sorted_wrt (\<lambda>x y. \<not> lt x y) acc \<Longrightarrow>
   sorted_wrt (\<lambda>x y. \<not> lt x y) (fold (sort_insert lt) xs acc)"
  by (induction xs arbitrary: acc) (auto simp: sorted_sort_insert set_sort_insert)

interpretation small_sort: go_sort insertion_sort
proof
  show "mset (insertion_sort lt xs) = mset xs" for lt and xs :: "'a list"
    by (simp add: insertion_sort_def mset_fold_insert)
  show "sorted_wrt (\<lambda>x y. \<not> lt y x) (insertion_sort lt xs)" if "strict_weak_on (set xs) lt" for lt and xs :: "'a list"
    using sorted_fold_insert [OF that, of xs "[]"] by (simp add: insertion_sort_def sorted_wrt_rev)
qed

section \<open>Selecting a worker\<close>

datatype sched_error = EmptyWorkers | NoWorkerFor string

definition worker_load :: "WorkerNode \<Rightarrow> f64val" where
  "worker_load w = f64_div (f64 (of_int (n_RunningTasks w))) (f64 (of_int (n_Capacity w)))"

definition worker_less :: "WorkerNode \<Rightarrow> WorkerNode \<Rightarrow> bool" where
  "worker_less w1 w2 =
     (let load1 = worker_load w1; load2 = worker_load w2
      in if \<not> f64_eq load1 load2 then f64_less load1 load2 else n_Capacity w1 > n_Capacity w2)"

definition selectWorker ::
  "((WorkerNode \<Rightarrow> WorkerNode \<Rightarrow> bool) \<Rightarrow> WorkerNode list \<Rightarrow> WorkerNode list) \<Rightarrow>
   WorkerNode list \<Rightarrow> string \<Rightarrow> sched_error + string" where
  "selectWorker sortSlice workers taskType =
     (if workers = [] then Inl EmptyWorkers
      else (let candidates = filter (\<lambda>worker. taskType \<in> set (n_Capabilities worker)) workers
            in if candidates = [] then Inl (NoWorkerFor taskType)
               else Inr (n_ID (hd (sortSlice worker_less candidates)))))"

section \<open>Assignment\<close>

record ('i, 'h, 'c) ControlPlane =
  cp_engine :: "'h Engine"
  cp_client :: "'c WorkerClient"
  cp_registry :: "('i, 'c WorkerClient \<times> 'h Engine) WorkerRegistry"

definition Scheduler_PushTask :: "Job \<Rightarrow> ('i, 'h, 'c) ControlPlane \<Rightarrow> ('i, 'h, 'c) ControlPlane" where
  "Scheduler_PushTask job s =
     s\<lparr>cp_engine := (cp_engine s)\<lparr>e_queue := ReadyQueue_Push job (e_queue (cp_engine s))\<rparr>\<rparr>"

datatype commit_error = CommitFailed string client_error | NoOnDispatched string

type_synonym 'c dialer = "nat \<Rightarrow> string \<Rightarrow> string + 'c"
type_synonym 'c dispatcher = "nat \<Rightarrow> 'c \<Rightarrow> DispatchRequest \<Rightarrow> string + DispatchResponse"

text \<open>
  The two halves of \<^verbatim>\<open>commitAssignment\<close>: the call to the worker with the check of
  \<^verbatim>\<open>OnDispatched\<close>, and the callback. The answer \<^verbatim>\<open>Accepted\<close> of the worker is not looked
  at.
\<close>

definition commit_dispatch ::
  "'c dialer \<Rightarrow> 'c dispatcher \<Rightarrow> nat \<Rightarrow> Job \<Rightarrow> string \<Rightarrow> ('i, 'h, 'c) ControlPlane \<Rightarrow>
   (commit_error + string \<times> string) \<times> ('i, 'h, 'c) ControlPlane" where
  "commit_dispatch dial rpc n job workerID s =
     (case WorkerClient_Dispatch (dial n) (rpc n) (\<lambda>w. AddressOf w (cp_registry s)) workerID (j_Request job) (cp_client s) of
        (Inl err, c) \<Rightarrow> (Inl (CommitFailed (j_ID job) err), s\<lparr>cp_client := c\<rparr>)
      | (Inr resp, c) \<Rightarrow>
          (case j_OnDispatched job of
             None \<Rightarrow> (Inl (NoOnDispatched (j_ID job)), s\<lparr>cp_client := c\<rparr>)
           | Some p \<Rightarrow> (Inr p, s\<lparr>cp_client := c\<rparr>)))"

definition call_OnDispatched ::
  "int \<Rightarrow> string \<times> string \<Rightarrow> string \<Rightarrow> ('i, 'h, 'c) ControlPlane \<Rightarrow> ('i, 'h, 'c) ControlPlane" where
  "call_OnDispatched now p workerID s = s\<lparr>cp_engine := OnTaskDispatched now p workerID (cp_engine s)\<rparr>"

definition commitAssignment ::
  "int \<Rightarrow> 'c dialer \<Rightarrow> 'c dispatcher \<Rightarrow> nat \<Rightarrow> Job \<Rightarrow> string \<Rightarrow> ('i, 'h, 'c) ControlPlane \<Rightarrow>
   commit_error option \<times> ('i, 'h, 'c) ControlPlane" where
  "commitAssignment now dial rpc n job workerID s =
     (case commit_dispatch dial rpc n job workerID s of
        (Inl err, s') \<Rightarrow> (Some err, s')
      | (Inr p, s') \<Rightarrow> (None, call_OnDispatched now p workerID s'))"

definition count_running :: "string \<Rightarrow> ('i, 'h, 'c) ControlPlane \<Rightarrow> ('i, 'h, 'c) ControlPlane" where
  "count_running workerID s = s\<lparr>cp_registry := IncrementRunning workerID (cp_registry s)\<rparr>"

fun assign_loop ::
  "((WorkerNode \<Rightarrow> WorkerNode \<Rightarrow> bool) \<Rightarrow> WorkerNode list \<Rightarrow> WorkerNode list) \<Rightarrow> int \<Rightarrow> 'c dialer \<Rightarrow> 'c dispatcher \<Rightarrow>
   WorkerNode list \<Rightarrow> Job list \<Rightarrow> ('i, 'h, 'c) ControlPlane \<Rightarrow> ('i, 'h, 'c) ControlPlane" where
  "assign_loop sortSlice now dial rpc workers [] s = s"
| "assign_loop sortSlice now dial rpc workers (job # jobs) s =
     (case selectWorker sortSlice workers (dr_Type (j_Request job)) of
        Inl err \<Rightarrow> assign_loop sortSlice now dial rpc workers jobs (Scheduler_PushTask job s)
      | Inr workerID \<Rightarrow>
          (case commitAssignment now dial rpc (length jobs) job workerID s of
             (Some err, s') \<Rightarrow> assign_loop sortSlice now dial rpc workers jobs (Scheduler_PushTask job s')
           | (None, s') \<Rightarrow> assign_loop sortSlice now dial rpc workers jobs (count_running workerID s')))"

text \<open>One tick of \<^verbatim>\<open>Run\<close>; \<open>None\<close> would be a panic of \<^verbatim>\<open>PopBatch\<close>.\<close>

definition assignOnce ::
  "((WorkerNode \<Rightarrow> WorkerNode \<Rightarrow> bool) \<Rightarrow> WorkerNode list \<Rightarrow> WorkerNode list) \<Rightarrow> rng \<Rightarrow> int \<Rightarrow> 'c dialer \<Rightarrow> 'c dispatcher \<Rightarrow>
   ('i, 'h, 'c) ControlPlane \<Rightarrow> ('i, 'h, 'c) ControlPlane option" where
  "assignOnce sortSlice rng now dial rpc s =
     (case ReadyQueue_PopBatch 50 (e_queue (cp_engine s)) of
        None \<Rightarrow> None
      | Some (readyJobs, q) \<Rightarrow>
          let s1 = s\<lparr>cp_engine := (cp_engine s)\<lparr>e_queue := q\<rparr>\<rparr>
          in if readyJobs = [] then Some s1
             else Some (assign_loop sortSlice now dial rpc (AliveWorkers rng (cp_registry s1)) readyJobs s1))"

section \<open>The order on workers\<close>

lemma f64_linear:
  assumes "x \<noteq> NaN" "y \<noteq> NaN"
  shows "f64_eq x y \<longleftrightarrow> x = y" and "f64_less x y \<or> f64_less y x \<or> x = y" and "\<not> (f64_less x y \<and> f64_less y x)"
  using assms by (cases x; cases y; auto)+

lemma f64_less_trans: "f64_less x y \<Longrightarrow> f64_less y z \<Longrightarrow> f64_less x z"
  by (cases x; cases y; cases z) auto

lemma f64_less_irrefl [simp]: "\<not> f64_less x x"
  by (cases x) auto

lemma worker_less_iff:
  "worker_load v \<noteq> NaN \<Longrightarrow> worker_load w \<noteq> NaN \<Longrightarrow>
   worker_less v w \<longleftrightarrow> f64_less (worker_load v) (worker_load w) \<or> worker_load v = worker_load w \<and> n_Capacity w < n_Capacity v"
  by (auto simp: worker_less_def Let_def f64_linear)

lemma worker_order:
  assumes "\<forall>w \<in> A. worker_load w \<noteq> NaN"
  shows "strict_weak_on A worker_less"
proof -
  have tot: "f64_less (worker_load x) (worker_load y) \<or> f64_less (worker_load y) (worker_load x) \<or> worker_load x = worker_load y"
    if "x \<in> A" "y \<in> A" for x y using f64_linear(2) assms that by blast
  have "worker_less x y \<or> worker_less y z" if "x \<in> A" "y \<in> A" "z \<in> A" "worker_less x z" for x y z
    using that tot [of x y] tot [of y z] assms f64_less_trans
    by (auto simp: worker_less_iff)
  moreover have "\<not> worker_less y x" if "x \<in> A" "y \<in> A" "worker_less x y" for x y
    using that assms by (auto simp: worker_less_iff dest: f64_less_trans)
  moreover have "\<not> worker_less x x" if "x \<in> A" for x using that assms by (simp add: worker_less_iff)
  ultimately show ?thesis by (auto simp: strict_weak_on_def)
qed

text \<open>A worker has no load number only when it has capacity zero and runs nothing.\<close>

lemma f64_zero_iff: "f64 (of_int n) = 0 \<longleftrightarrow> n = 0" if "\<bar>n\<bar> < 2 ^ 53"
  using f64_of_int [OF that] by simp

lemma worker_load_NaN:
  "\<bar>n_RunningTasks w\<bar> < 2 ^ 53 \<Longrightarrow> \<bar>n_Capacity w\<bar> < 2 ^ 53 \<Longrightarrow>
   worker_load w = NaN \<longleftrightarrow> n_RunningTasks w = 0 \<and> n_Capacity w = 0"
  by (simp add: worker_load_def f64_div_def f64_zero_iff)

section \<open>What a tick does\<close>

text \<open>
  The connection that a tick uses for a worker: the one the client had before the tick
  (\<open>conns\<close>), or one dialed in the tick to the worker's address (\<open>addrOf\<close>).
\<close>

definition routed :: "'c dialer \<Rightarrow> (string \<Rightarrow> string) \<Rightarrow> (string \<Rightarrow> 'c option) \<Rightarrow> string \<Rightarrow> 'c \<Rightarrow> bool" where
  "routed dial addrOf conns w conn \<longleftrightarrow>
     (case conns w of Some k \<Rightarrow> conn = k | None \<Rightarrow> \<exists>m. dial m (addrOf w) = Inr conn)"

definition client_from :: "'c dialer \<Rightarrow> (string \<Rightarrow> string) \<Rightarrow> (string \<Rightarrow> 'c option) \<Rightarrow> 'c WorkerClient \<Rightarrow> bool" where
  "client_from dial addrOf conns c \<longleftrightarrow>
     (\<forall>w. (conns w \<noteq> None \<longrightarrow> map_of (wc_conns c) w = conns w)
        \<and> (\<forall>conn. map_of (wc_conns c) w = Some conn \<longrightarrow> routed dial addrOf conns w conn))"

text \<open>
  The fate of a job in a tick: the worker it went to, or \<open>None\<close> when it is queued again, and
  the reasons for either; \<open>n\<close> is the number of jobs after it in the batch.
\<close>

fun fate_ok ::
  "((WorkerNode \<Rightarrow> WorkerNode \<Rightarrow> bool) \<Rightarrow> WorkerNode list \<Rightarrow> WorkerNode list) \<Rightarrow> 'c dialer \<Rightarrow> 'c dispatcher \<Rightarrow>
   (string \<Rightarrow> string) \<Rightarrow> (string \<Rightarrow> 'c option) \<Rightarrow> WorkerNode list \<Rightarrow> nat \<Rightarrow> Job \<times> string option \<Rightarrow> bool" where
  "fate_ok sortSlice dial rpc addrOf conns workers n (job, Some w) \<longleftrightarrow>
     selectWorker sortSlice workers (dr_Type (j_Request job)) = Inr w \<and> j_OnDispatched job \<noteq> None
     \<and> (\<exists>conn resp. routed dial addrOf conns w conn \<and> rpc n conn (j_Request job) = Inr resp)"
| "fate_ok sortSlice dial rpc addrOf conns workers n (job, None) \<longleftrightarrow>
     (case selectWorker sortSlice workers (dr_Type (j_Request job)) of
        Inl err \<Rightarrow> True
      | Inr w \<Rightarrow> j_OnDispatched job = None
          \<or> conns w = None \<and> (\<exists>err. dial n (addrOf w) = Inl err)
          \<or> (\<exists>conn err. routed dial addrOf conns w conn \<and> rpc n conn (j_Request job) = Inl err))"

fun fates_ok where
  "fates_ok sortSlice dial rpc addrOf conns workers [] = True"
| "fates_ok sortSlice dial rpc addrOf conns workers (f # fs) =
     (fate_ok sortSlice dial rpc addrOf conns workers (length fs) f \<and> fates_ok sortSlice dial rpc addrOf conns workers fs)"

definition requeued :: "(Job \<times> string option) list \<Rightarrow> Job list" where
  "requeued fs = map fst (filter (\<lambda>f. snd f = None) fs)"

definition assignments :: "(Job \<times> string option) list \<Rightarrow> (Job \<times> string) list" where
  "assignments fs = map (\<lambda>f. (fst f, the (snd f))) (filter (\<lambda>f. snd f \<noteq> None) fs)"

definition run_callbacks :: "int \<Rightarrow> (Job \<times> string) list \<Rightarrow> 'h Engine \<Rightarrow> 'h Engine" where
  "run_callbacks now ds e = fold (\<lambda>(job, w). OnTaskDispatched now (the (j_OnDispatched job)) w) ds e"

lemma OnTaskDispatched_queue [simp]: "e_queue (OnTaskDispatched now p w e) = e_queue e"
  by (auto simp: OnTaskDispatched_def UpdateTaskStatus_def put_workflow_def split: option.splits sum.splits prod.splits)

lemma OnTaskDispatched_workflows:
  "e_workflows e' = e_workflows e \<Longrightarrow> e_workflows (OnTaskDispatched now p w e') = e_workflows (OnTaskDispatched now p w e)"
  by (simp add: OnTaskDispatched_def UpdateTaskStatus_def put_workflow_def split: option.splits sum.splits prod.splits)

lemma run_callbacks_workflows:
  "e_workflows e' = e_workflows e \<Longrightarrow> e_workflows (run_callbacks now ds e') = e_workflows (run_callbacks now ds e)"
  by (induction ds arbitrary: e e')
     (auto simp: run_callbacks_def intro: OnTaskDispatched_workflows split: prod.splits)

lemma push_fields [simp]:
  "e_queue (cp_engine (Scheduler_PushTask job s)) = e_queue (cp_engine s) @ [job]"
  "e_workflows (cp_engine (Scheduler_PushTask job s)) = e_workflows (cp_engine s)"
  "cp_registry (Scheduler_PushTask job s) = cp_registry s" "cp_client (Scheduler_PushTask job s) = cp_client s"
  by (simp_all add: Scheduler_PushTask_def ReadyQueue_Push_def)

lemma commit_dispatch_fields:
  "commit_dispatch dial rpc n job w s = (r, s') \<Longrightarrow>
   cp_engine s' = cp_engine s \<and> cp_registry s' = cp_registry s
   \<and> (\<forall>p. r = Inr p \<longrightarrow> j_OnDispatched job = Some p \<and> (\<exists>conn resp. rpc n conn (j_Request job) = Inr resp))"
  by (auto simp: commit_dispatch_def WorkerClient_Dispatch_def split: prod.splits sum.splits option.splits)

lemma getOrDial_from:
  assumes "WorkerClient_getOrDial (dial n) addrOf w c = (r, c')" "client_from dial addrOf conns c"
  shows "client_from dial addrOf conns c'
    \<and> (case r of Inl err \<Rightarrow> conns w = None \<and> (\<exists>msg. dial n (addrOf w) = Inl msg) | Inr conn \<Rightarrow> routed dial addrOf conns w conn)"
proof (cases "map_of (wc_conns c) w")
  case None
  then have new: "conns w = None" using assms(2) by (auto simp: client_from_def)
  show ?thesis
  proof (cases "dial n (addrOf w)")
    case (Inl msg)
    then show ?thesis using assms None new by (auto simp: WorkerClient_getOrDial_def)
  next
    case (Inr conn)
    then have r: "routed dial addrOf conns w conn" using new by (auto simp: routed_def)
    have c': "r = Inr conn" "c' = c\<lparr>wc_conns := AList.update w conn (wc_conns c)\<rparr>"
      using assms(1) None Inr by (auto simp: WorkerClient_getOrDial_def)
    show ?thesis using assms(2) new r by (auto simp: c' client_from_def update_conv')
  qed
next
  case (Some conn)
  then show ?thesis using assms by (auto simp: WorkerClient_getOrDial_def client_from_def)
qed

lemma commit_fields:
  assumes c: "commitAssignment now dial rpc n job w s = (r, s')"
    and cl: "client_from dial addrOf conns (cp_client s)" and addr: "\<And>v. AddressOf v (cp_registry s) = addrOf v"
  shows "cp_registry s' = cp_registry s \<and> client_from dial addrOf conns (cp_client s')
   \<and> (case r of Some err \<Rightarrow> cp_engine s' = cp_engine s
        \<and> (j_OnDispatched job = None \<or> conns w = None \<and> (\<exists>err. dial n (addrOf w) = Inl err)
           \<or> (\<exists>conn err. routed dial addrOf conns w conn \<and> rpc n conn (j_Request job) = Inl err))
      | None \<Rightarrow> (\<exists>p conn resp. j_OnDispatched job = Some p \<and> cp_engine s' = OnTaskDispatched now p w (cp_engine s)
                  \<and> routed dial addrOf conns w conn \<and> rpc n conn (j_Request job) = Inr resp))"
proof -
  obtain x c' where g: "WorkerClient_getOrDial (dial n) addrOf w (cp_client s) = (x, c')" by force
  have a: "(\<lambda>w. AddressOf w (cp_registry s)) = addrOf" using addr by blast
  note commit = c [unfolded commitAssignment_def commit_dispatch_def WorkerClient_Dispatch_def a g]
  show ?thesis
  proof (cases x)
    case (Inl err)
    then show ?thesis using commit getOrDial_from [where r = x, OF g cl] by auto
  next
    case (Inr conn)
    then have "client_from dial addrOf conns c'" "routed dial addrOf conns w conn"
      using getOrDial_from [where r = x, OF g cl] by auto
    then show ?thesis using commit Inr
      by (cases "rpc n conn (j_Request job)"; cases "j_OnDispatched job") (auto simp: call_OnDispatched_def)
  qed
qed

lemma AddressOf_IncrementRunning [simp]: "AddressOf v (IncrementRunning w r) = AddressOf v r"
  by (auto simp: AddressOf_def IncrementRunning_def update_conv' split: option.split)

lemma assign_loop_effect:
  assumes "client_from dial addrOf conns (cp_client s)" and "\<And>v. AddressOf v (cp_registry s) = addrOf v"
  shows "\<exists>fs. fates_ok sortSlice dial rpc addrOf conns workers fs \<and> map fst fs = jobs
     \<and> e_queue (cp_engine (assign_loop sortSlice now dial rpc workers jobs s)) = e_queue (cp_engine s) @ requeued fs
     \<and> e_workflows (cp_engine (assign_loop sortSlice now dial rpc workers jobs s))
       = e_workflows (run_callbacks now (assignments fs) (cp_engine s))
     \<and> cp_registry (assign_loop sortSlice now dial rpc workers jobs s)
       = fold IncrementRunning (map snd (assignments fs)) (cp_registry s)"
    (is "\<exists>fs. ?P jobs s fs")
  using assms
proof (induction jobs arbitrary: s)
  case Nil
  show ?case by (intro exI [of _ "[]"]) (simp add: run_callbacks_def requeued_def assignments_def)
next
  case (Cons job jobs)
  have requeue: "\<exists>fs. ?P (job # jobs) s fs"
    if loop: "assign_loop sortSlice now dial rpc workers (job # jobs) s
        = assign_loop sortSlice now dial rpc workers jobs (Scheduler_PushTask job s')"
      and s': "cp_engine s' = cp_engine s" "cp_registry s' = cp_registry s" "client_from dial addrOf conns (cp_client s')"
      and fate: "fate_ok sortSlice dial rpc addrOf conns workers (length jobs) (job, None)" for s'
  proof -
    let ?t = "Scheduler_PushTask job s'"
    let ?s = "assign_loop sortSlice now dial rpc workers jobs ?t"
    obtain fs where fs: "fates_ok sortSlice dial rpc addrOf conns workers fs" "map fst fs = jobs"
      and q: "e_queue (cp_engine ?s) = e_queue (cp_engine ?t) @ requeued fs"
      and w: "e_workflows (cp_engine ?s) = e_workflows (run_callbacks now (assignments fs) (cp_engine ?t))"
      and r: "cp_registry ?s = fold IncrementRunning (map snd (assignments fs)) (cp_registry ?t)"
      using Cons.IH [of ?t] s' Cons.prems(2) by auto
    have f: "fates_ok sortSlice dial rpc addrOf conns workers ((job, None) # fs)"
      using fs(1) fate fs(2) [THEN arg_cong [where f = length]] by simp
    have cb: "e_workflows (run_callbacks now (assignments fs) (cp_engine ?t))
        = e_workflows (run_callbacks now (assignments fs) (cp_engine s))"
      by (rule run_callbacks_workflows) (simp add: s')
    have a: "assignments ((job, None) # fs) = assignments fs" "requeued ((job, None) # fs) = job # requeued fs"
      by (simp_all add: requeued_def assignments_def)
    show ?thesis unfolding loop
      by (rule exI [of _ "(job, None) # fs"]) (simp only: f a fs(2) q w r cb push_fields s' list.map fst_conv append_assoc append_Cons append_Nil simp_thms)
  qed
  show ?case
  proof (cases "selectWorker sortSlice workers (dr_Type (j_Request job))")
    case (Inl err)
    then show ?thesis using requeue [of s] Cons.prems(1) by simp
  next
    case (Inr w)
    obtain r s1 where c: "commitAssignment now dial rpc (length jobs) job w s = (r, s1)" by force
    note f = commit_fields [OF c Cons.prems]
    show ?thesis
    proof (cases r)
      case (Some err)
      then show ?thesis using requeue [of s1] f Inr c by simp
    next
      case None
      then obtain p conn resp where p: "j_OnDispatched job = Some p" "cp_engine s1 = OnTaskDispatched now p w (cp_engine s)"
        "routed dial addrOf conns w conn" "rpc (length jobs) conn (j_Request job) = Inr resp"
        and reg: "cp_registry s1 = cp_registry s" "client_from dial addrOf conns (cp_client s1)" using f by auto
      obtain fs where fs: "?P jobs (count_running w s1) fs"
        using Cons.IH [of "count_running w s1"] Cons.prems(2) reg by (auto simp: count_running_def)
      then have "length fs = length jobs" by (metis length_map)
      then have "fate_ok sortSlice dial rpc addrOf conns workers (length fs) (job, Some w)" using Inr p by auto
      with fs have "?P (job # jobs) s ((job, Some w) # fs)"
        using None c Inr p reg by (simp add: count_running_def run_callbacks_def requeued_def assignments_def del: fate_ok.simps)
      then show ?thesis by (rule exI [of _ "(job, Some w) # fs"])
    qed
  qed
qed

section \<open>Properties\<close>

lemma selectWorker_list:
  assumes "go_sort sortSlice"
  shows "case selectWorker sortSlice workers taskType of
       Inl EmptyWorkers \<Rightarrow> workers = []
     | Inl (NoWorkerFor t) \<Rightarrow> t = taskType \<and> workers \<noteq> [] \<and> (\<forall>w \<in> set workers. taskType \<notin> set (n_Capabilities w))
     | Inr i \<Rightarrow> \<exists>w \<in> set workers. n_ID w = i \<and> taskType \<in> set (n_Capabilities w)
         \<and> ((\<forall>v \<in> set workers. taskType \<in> set (n_Capabilities v) \<longrightarrow> worker_load v \<noteq> NaN) \<longrightarrow>
            (\<forall>v \<in> set workers. taskType \<in> set (n_Capabilities v) \<longrightarrow>
               \<not> f64_less (worker_load v) (worker_load w)
               \<and> (worker_load v = worker_load w \<longrightarrow> n_Capacity v \<le> n_Capacity w)))"
proof -
  let ?C = "filter (\<lambda>worker. taskType \<in> set (n_Capabilities worker)) workers"
  consider "workers = []" | "workers \<noteq> []" "?C = []" | "workers \<noteq> []" "?C \<noteq> []" by blast
  then show ?thesis
  proof cases
    case 3
    let ?w = "hd (sortSlice worker_less ?C)"
    have w: "?w \<in> set ?C" using go_sort.sort_hd [OF assms 3(2)] .
    have least: "\<not> f64_less (worker_load v) (worker_load ?w) \<and> (worker_load v = worker_load ?w \<longrightarrow> n_Capacity v \<le> n_Capacity ?w)"
      if ok: "\<forall>v \<in> set workers. taskType \<in> set (n_Capabilities v) \<longrightarrow> worker_load v \<noteq> NaN"
        and v: "v \<in> set ?C" for v
    proof -
      have nan: "\<forall>v \<in> set ?C. worker_load v \<noteq> NaN" using ok by simp
      have "\<not> worker_less v ?w" by (rule go_sort.sort_hd_least [OF assms 3(2) worker_order [OF nan] v])
      then show ?thesis using worker_less_iff [of v ?w] nan v w by auto
    qed
    have sel: "selectWorker sortSlice workers taskType = Inr (n_ID ?w)" using 3 by (simp add: selectWorker_def Let_def)
    show ?thesis unfolding sel using w least by auto
  qed (auto simp: selectWorker_def Let_def filter_empty_conv)
qed

definition registered_alive :: "('i, 's) WorkerRegistry \<Rightarrow> WorkerNode \<Rightarrow> bool" where
  "registered_alive r w \<longleftrightarrow> n_status w = WorkerAlive \<and> (\<exists>k. map_of (r_workers r) k = Some w)"

text \<open>
  C18. The worker the scheduler chooses for a task type, from the snapshot of live workers, is a
  registered worker that is ALIVE and has the type among its capabilities. If moreover every
  ALIVE worker with the capability has a load number (it has none when its capacity and its
  running tasks are both zero: then the quotient is NaN and the sort has no order to follow), no
  ALIVE worker with the capability has a smaller load, nor the same load and more capacity. The
  choice fails exactly when there is no ALIVE worker or none of them has the capability, with the
  error that says which, and it never indexes an empty slice.
\<close>

theorem selectWorker_spec:
  assumes "go_sort sortSlice" and "go_range rng"
  shows "case selectWorker sortSlice (AliveWorkers rng r) taskType of
       Inl EmptyWorkers \<Rightarrow> (\<forall>w. \<not> registered_alive r w)
     | Inl (NoWorkerFor t) \<Rightarrow> t = taskType \<and> (\<exists>w. registered_alive r w)
         \<and> (\<forall>w. registered_alive r w \<longrightarrow> taskType \<notin> set (n_Capabilities w))
     | Inr i \<Rightarrow> \<exists>w. registered_alive r w \<and> n_ID w = i \<and> taskType \<in> set (n_Capabilities w)
         \<and> ((\<forall>v. registered_alive r v \<and> taskType \<in> set (n_Capabilities v) \<longrightarrow> worker_load v \<noteq> NaN) \<longrightarrow>
            (\<forall>v. registered_alive r v \<and> taskType \<in> set (n_Capabilities v) \<longrightarrow>
               \<not> f64_less (worker_load v) (worker_load w)
               \<and> (worker_load v = worker_load w \<longrightarrow> n_Capacity v \<le> n_Capacity w)))"
proof -
  have alive: "registered_alive r v \<longleftrightarrow> v \<in> set (AliveWorkers rng r)" for v
    using AliveWorkers_set [OF assms(2)] by (auto simp: registered_alive_def)
  have all: "(\<forall>v. v \<in> set ws \<and> P v \<longrightarrow> Q v) \<longleftrightarrow> (\<forall>v \<in> set ws. P v \<longrightarrow> Q v)" for ws and P Q :: "WorkerNode \<Rightarrow> bool" by blast
  note spec = selectWorker_list [OF assms(1), of "AliveWorkers rng r" taskType]
  show ?thesis
  proof (cases "selectWorker sortSlice (AliveWorkers rng r) taskType")
    case (Inl err)
    then show ?thesis using spec unfolding alive by (cases err) (auto simp: ex_in_conv)
  next
    case (Inr i)
    then show ?thesis using spec unfolding alive all by (simp add: Bex_def)
  qed
qed

definition sample_worker :: "string \<Rightarrow> int \<Rightarrow> int \<Rightarrow> WorkerNode" where
  "sample_worker i cap run =
     (request_node \<lparr>rr_WorkerId = i, rr_Address = ''host'', rr_Labels = [], rr_Capabilities = [''shell''], rr_Capacity = cap\<rparr>)
       \<lparr>n_RunningTasks := run\<rparr>"

definition sample_registry :: "(unit, unit) WorkerRegistry" where
  "sample_registry = NewWorkerRegistry\<lparr>r_workers :=
     [(''busy'', sample_worker ''busy'' 10 9), (''free'', sample_worker ''free'' 10 1)]\<rparr>"

theorem selectWorker_spec_witness:
  "selectWorker insertion_sort (AliveWorkers offset_order sample_registry) ''shell'' = Inr ''free''
   \<and> \<not> f64_less (worker_load (sample_worker ''busy'' 10 9)) (worker_load (sample_worker ''free'' 10 1))"
proof -
  have sel: "selectWorker insertion_sort (AliveWorkers offset_order sample_registry) ''shell'' = Inr ''free''" by code_simp
  have fields: "n_Capabilities (sample_worker i c r) = [''shell'']" "n_ID (sample_worker i c r) = i"
    "n_status (sample_worker i c r) = WorkerAlive" for i c r
    by (simp_all add: sample_worker_def request_node_def)
  have load: "worker_load (sample_worker i 10 r) \<noteq> NaN" if "r \<in> {1, 9}" for i r
    using that worker_load_NaN [of "sample_worker i 10 r"] by (auto simp: sample_worker_def request_node_def)
  have two: "registered_alive sample_registry v \<longleftrightarrow> v = sample_worker ''busy'' 10 9 \<or> v = sample_worker ''free'' 10 1" for v
  proof -
    have m: "map_of (r_workers sample_registry) k = Some v \<longleftrightarrow>
        k = ''busy'' \<and> v = sample_worker ''busy'' 10 9 \<or> k = ''free'' \<and> v = sample_worker ''free'' 10 1" for k
      by (simp add: sample_registry_def eq_commute [of _ v])
    show ?thesis unfolding registered_alive_def m by (auto simp: fields(3))
  qed
  obtain w where w: "registered_alive sample_registry w" "n_ID w = ''free''"
    and least: "(\<forall>v. registered_alive sample_registry v \<and> ''shell'' \<in> set (n_Capabilities v) \<longrightarrow> worker_load v \<noteq> NaN) \<Longrightarrow>
      registered_alive sample_registry v \<Longrightarrow> ''shell'' \<in> set (n_Capabilities v) \<Longrightarrow> \<not> f64_less (worker_load v) (worker_load w)" for v
    using selectWorker_spec [OF small_sort.go_sort_axioms offset.go_range_axioms, of sample_registry "''shell''"]
    unfolding sel sum.case by blast
  have "w = sample_worker ''free'' 10 1" using w by (auto simp: two fields)
  moreover have "\<forall>v. registered_alive sample_registry v \<and> ''shell'' \<in> set (n_Capabilities v) \<longrightarrow> worker_load v \<noteq> NaN"
    using load by (auto simp: two)
  ultimately show ?thesis using sel least [of "sample_worker ''busy'' 10 9"] by (simp add: two fields)
qed

text \<open>
  C20. A tick gives every job of its batch (the first 50 of the queue) one of two fates, on one
  snapshot of the ALIVE workers. Dispatched: \<open>selectWorker\<close> chose the worker from the snapshot,
  the call over its connection returned without error, the engine was told exactly once, in batch
  order, and the worker's count of running tasks went up by one. Queued again: no worker was
  found, or the chosen worker could not be dialed, or the call over its connection failed, or the
  job has no \<^verbatim>\<open>OnDispatched\<close>. The connection is the one the client already had for the
  worker, or else one dialed to its address in this tick. The queue is afterwards what was behind
  the batch, followed by the jobs queued again in batch order. The tick does not panic.
\<close>

theorem assignOnce_conserves_jobs:
  "\<exists>s' fs. assignOnce sortSlice rng now dial rpc s = Some s'
     \<and> map fst fs = take 50 (e_queue (cp_engine s))
     \<and> fates_ok sortSlice dial rpc (\<lambda>w. AddressOf w (cp_registry s)) (map_of (wc_conns (cp_client s)))
          (AliveWorkers rng (cp_registry s)) fs
     \<and> e_queue (cp_engine s') = drop 50 (e_queue (cp_engine s)) @ requeued fs
     \<and> e_workflows (cp_engine s') = e_workflows (run_callbacks now (assignments fs) (cp_engine s))
     \<and> cp_registry s' = fold IncrementRunning (map snd (assignments fs)) (cp_registry s)"
proof -
  let ?q = "e_queue (cp_engine s)" and ?addrOf = "\<lambda>w. AddressOf w (cp_registry s)" and ?conns = "map_of (wc_conns (cp_client s))"
  let ?s = "s\<lparr>cp_engine := (cp_engine s)\<lparr>e_queue := drop 50 ?q\<rparr>\<rparr>"
  let ?s' = "assign_loop sortSlice now dial rpc (AliveWorkers rng (cp_registry s)) (take 50 ?q) ?s"
  have a: "assignOnce sortSlice rng now dial rpc s = Some ?s'"
    by (simp add: assignOnce_def queue_simps Let_def)
  have "client_from dial ?addrOf ?conns (cp_client ?s)" by (simp add: client_from_def routed_def)
  then obtain fs where fs: "fates_ok sortSlice dial rpc ?addrOf ?conns (AliveWorkers rng (cp_registry s)) fs" "map fst fs = take 50 ?q"
    "e_queue (cp_engine ?s') = drop 50 ?q @ requeued fs"
    "e_workflows (cp_engine ?s') = e_workflows (run_callbacks now (assignments fs) (cp_engine ?s))"
    "cp_registry ?s' = fold IncrementRunning (map snd (assignments fs)) (cp_registry s)"
    using assign_loop_effect [of dial ?addrOf ?conns ?s sortSlice rpc "AliveWorkers rng (cp_registry s)" "take 50 ?q" now] by auto
  have "e_workflows (run_callbacks now (assignments fs) (cp_engine ?s)) = e_workflows (run_callbacks now (assignments fs) (cp_engine s))"
    by (rule run_callbacks_workflows) simp
  with a fs show ?thesis by auto
qed

definition reject_all :: "'c dispatcher \<Rightarrow> 'c dispatcher" where
  "reject_all rpc n conn req = map_sum id (\<lambda>_. \<lparr>dres_Accepted = False, dres_Reason = ''''\<rparr>) (rpc n conn req)"

lemma commit_ignores_acceptance:
  "commitAssignment now dial (reject_all rpc) n job w s = commitAssignment now dial rpc n job w s"
  by (simp add: commitAssignment_def commit_dispatch_def WorkerClient_Dispatch_def reject_all_def
      split: prod.split sum.split option.split)

lemma loop_ignores_acceptance:
  "assign_loop sortSlice now dial (reject_all rpc) ws jobs t = assign_loop sortSlice now dial rpc ws jobs t"
  by (induction jobs arbitrary: t) (simp_all add: commit_ignores_acceptance split: sum.split prod.split option.split)

text \<open>
  A refusal by the worker is not noticed: replacing every successful answer by
  \<open>Accepted = false\<close> changes nothing in what a tick does, so a task that its worker refused
  (pool full, worker suspended, unknown type) is marked DISPATCHED and is not queued again.
\<close>

theorem acceptance_ignored:
  "assignOnce sortSlice rng now dial (reject_all rpc) s = assignOnce sortSlice rng now dial rpc s"
  unfolding assignOnce_def loop_ignores_acceptance ..

end
