(* ===== verification/Control_Plane.thy ===== *)
theory Control_Plane
  imports Scheduler Engine_Theorems
begin

text \<open>
  The control plane as \<^verbatim>\<open>cmd/control-plane/main.go\<close> puts it together: engine, scheduler,
  worker registry and worker client, with the hook that hands the tasks of a dead worker back.
  The scheduler goroutine is split into steps at the points where it touches shared state
  (\<open>sched_step\<close>), and the goroutines of the gRPC handlers, the registry and the scheduler
  interleave in any order (\<open>cp_step\<close>).
\<close>

section \<open>The scheduler goroutine\<close>

datatype sched_phase =
    SchedIdle
  | SchedPopped "Job list"
  | SchedLoop "WorkerNode list" "Job list"
  | SchedSent "WorkerNode list" Job "string \<times> string" string "Job list"
  | SchedCount "WorkerNode list" string "Job list"

fun sched_step ::
  "((WorkerNode \<Rightarrow> WorkerNode \<Rightarrow> bool) \<Rightarrow> WorkerNode list \<Rightarrow> WorkerNode list) \<Rightarrow> rng \<Rightarrow> int \<Rightarrow> 'c dialer \<Rightarrow> 'c dispatcher \<Rightarrow>
   sched_phase \<times> ('i, 'h, 'c) ControlPlane \<Rightarrow> sched_phase \<times> ('i, 'h, 'c) ControlPlane" where
  "sched_step sortSlice rng now dial rpc (SchedIdle, s) =
     (case ReadyQueue_PopBatch 50 (e_queue (cp_engine s)) of
        None \<Rightarrow> (SchedIdle, s)
      | Some (readyJobs, q) \<Rightarrow>
          (if readyJobs = [] then SchedIdle else SchedPopped readyJobs,
           s\<lparr>cp_engine := (cp_engine s)\<lparr>e_queue := q\<rparr>\<rparr>))"
| "sched_step sortSlice rng now dial rpc (SchedPopped readyJobs, s) =
     (SchedLoop (AliveWorkers rng (cp_registry s)) readyJobs, s)"
| "sched_step sortSlice rng now dial rpc (SchedLoop workers [], s) = (SchedIdle, s)"
| "sched_step sortSlice rng now dial rpc (SchedLoop workers (job # jobs), s) =
     (case selectWorker sortSlice workers (dr_Type (j_Request job)) of
        Inl err \<Rightarrow> (SchedLoop workers jobs, Scheduler_PushTask job s)
      | Inr workerID \<Rightarrow>
          (case commit_dispatch dial rpc (length jobs) job workerID s of
             (Inl err, s') \<Rightarrow> (SchedLoop workers jobs, Scheduler_PushTask job s')
           | (Inr p, s') \<Rightarrow> (SchedSent workers job p workerID jobs, s')))"
| "sched_step sortSlice rng now dial rpc (SchedSent workers job p workerID jobs, s) =
     (SchedCount workers workerID jobs, call_OnDispatched now p workerID s)"
| "sched_step sortSlice rng now dial rpc (SchedCount workers workerID jobs, s) =
     (SchedLoop workers jobs, count_running workerID s)"

section \<open>Composition\<close>

type_synonym clock_and_order = "int \<times> rng"

definition dead_hook ::
  "clock_and_order \<Rightarrow> string \<Rightarrow> 'c WorkerClient \<times> 'h Engine \<Rightarrow> 'c WorkerClient \<times> 'h Engine" where
  "dead_hook i workerID ce =
     (WorkerClient_CloseConn workerID (fst ce), ReassignDeadWorkerTasks (snd i) (fst i) workerID (snd ce))"

definition control_plane_main :: "(Event, 'h) Bus \<Rightarrow> (clock_and_order, 'h, 'c) ControlPlane" where
  "control_plane_main eventBus =
     \<lparr>cp_engine = NewWorkflowEngine eventBus, cp_client = NewWorkerClient,
      cp_registry = OnWorkerDead dead_hook NewWorkerRegistry\<rparr>"

text \<open>A check of the dead man's switch, with the hooks it runs.\<close>

definition cp_checkHeartbeat ::
  "int \<Rightarrow> rng \<Rightarrow> string \<Rightarrow> (clock_and_order, 'h, 'c) ControlPlane \<Rightarrow> (clock_and_order, 'h, 'c) ControlPlane" where
  "cp_checkHeartbeat now rng workerID s =
     (case checkHeartbeat now (now, rng) workerID (cp_registry s) (cp_client s, cp_engine s) of
        (again, r, c, e) \<Rightarrow> s\<lparr>cp_registry := r, cp_client := c, cp_engine := e\<rparr>)"

text \<open>
  A step of the control plane other than a registration, a report or a step of the scheduler: a
  call of the orchestration service, a heartbeat, a check of the registry, a call of the
  notifier's goroutine, or a step of the event bus.
\<close>

inductive api_step ::
  "(clock_and_order, 'h, 'c) ControlPlane \<Rightarrow> (clock_and_order, 'h, 'c) ControlPlane \<Rightarrow> bool" where
  api_submit: "go_range rng \<Longrightarrow> go_range rng' \<Longrightarrow> \<forall>t \<in> set tasks. t_status t = TaskPending \<Longrightarrow>
    NewWorkflow rng' uuid created tenantID name tasks = Ok w \<Longrightarrow> map_of (e_workflows (cp_engine s)) (w_ID w) = None \<Longrightarrow>
    api_step s (s\<lparr>cp_engine := snd (SubmitWorkflow rng now w (cp_engine s))\<rparr>)"
| api_cancel_workflow: "go_range rng \<Longrightarrow>
    api_step s (s\<lparr>cp_engine := snd (CancelWorkflow rng now wid (cp_engine s))\<rparr>)"
| api_cancel_task: "go_range rng \<Longrightarrow>
    api_step s (s\<lparr>cp_engine := snd (CancelTask rng now tid (cp_engine s))\<rparr>)"
| api_heartbeat: "api_step s (s\<lparr>cp_registry := snd (Registry_Heartbeat now workerID n (cp_registry s))\<rparr>)"
| api_check: "go_range rng \<Longrightarrow> api_step s (cp_checkHeartbeat now rng workerID s)"
| api_notify: "api_step s (s\<lparr>cp_client := snd (WorkerClient_CancelTasks dial1 rpc1 addressOf workerID taskIDs (cp_client s))\<rparr>)"
| api_bus: "api_step s (s\<lparr>cp_engine := (cp_engine s)\<lparr>e_bus := b\<rparr>\<rparr>)"

inductive cp_step ::
  "sched_phase \<times> (clock_and_order, 'h, 'c) ControlPlane \<Rightarrow> sched_phase \<times> (clock_and_order, 'h, 'c) ControlPlane \<Rightarrow> bool" where
  cp_api: "api_step s s' \<Longrightarrow> cp_step (ph, s) (ph, s')"
| cp_report: "go_range rng \<Longrightarrow>
    cp_step (ph, s) (ph, s\<lparr>cp_engine := snd (OnTaskResponse rng now wid tid r (cp_engine s))\<rparr>)"
| cp_register: "Registry_Register now (request_node request) (cp_registry s) = Some r \<Longrightarrow>
    cp_step (ph, s) (ph, s\<lparr>cp_registry := r\<rparr>)"
| cp_scheduler: "go_range rng \<Longrightarrow> cp_step (ph, s) (sched_step sortSlice rng now dial rpc (ph, s))"

inductive cp_reachable :: "sched_phase \<times> (clock_and_order, 'h, 'c) ControlPlane \<Rightarrow> bool" where
  cp_start: "cp_reachable (SchedIdle, control_plane_main eventBus)"
| cp_next: "cp_reachable x \<Longrightarrow> cp_step x y \<Longrightarrow> cp_reachable y"

section \<open>A tick in steps\<close>

lemma sched_steps_loop:
  "\<exists>n. (sched_step sortSlice rng now dial rpc ^^ n) (SchedLoop workers jobs, s)
     = (SchedIdle, assign_loop sortSlice now dial rpc workers jobs s)"
proof (induction jobs arbitrary: s)
  case Nil
  show ?case by (rule exI [of _ 1]) simp
next
  case (Cons job jobs)
  let ?f = "sched_step sortSlice rng now dial rpc"
  have after: "\<exists>n. (?f ^^ n) (SchedLoop workers (job # jobs), s) = (SchedIdle, assign_loop sortSlice now dial rpc workers jobs s')"
    if "(?f ^^ k) (SchedLoop workers (job # jobs), s) = (SchedLoop workers jobs, s')" for k s'
  proof -
    obtain n where "(?f ^^ n) (SchedLoop workers jobs, s') = (SchedIdle, assign_loop sortSlice now dial rpc workers jobs s')"
      using Cons.IH by blast
    then have "(?f ^^ (n + k)) (SchedLoop workers (job # jobs), s) = (SchedIdle, assign_loop sortSlice now dial rpc workers jobs s')"
      by (simp add: funpow_add that)
    then show ?thesis by blast
  qed
  show ?case
  proof (cases "selectWorker sortSlice workers (dr_Type (j_Request job))")
    case (Inl err)
    then show ?thesis using after [of 1 "Scheduler_PushTask job s"] by simp
  next
    case (Inr w)
    obtain r s1 where c: "commit_dispatch dial rpc (length jobs) job w s = (r, s1)" by force
    show ?thesis
    proof (cases r)
      case (Inl err)
      then show ?thesis using after [of 1 "Scheduler_PushTask job s1"] Inr c by (simp add: commitAssignment_def)
    next
      case p: (Inr p)
      have "(?f ^^ 3) (SchedLoop workers (job # jobs), s) = (SchedLoop workers jobs, count_running w (call_OnDispatched now p w s1))"
        using Inr c p by (simp add: numeral_3_eq_3)
      from after [OF this] show ?thesis using Inr c p by (simp add: commitAssignment_def)
    qed
  qed
qed

section \<open>Every ready task has its job\<close>

definition ready_tasks :: "'h Engine \<Rightarrow> (string \<times> string) set" where
  "ready_tasks e = {(k, tid). \<exists>w. map_of (e_workflows e) k = Some w \<and> st w tid = Some TaskReady}"

definition targets :: "Job set \<Rightarrow> (string \<times> string) set" where
  "targets J = {p. \<exists>j \<in> J. j_OnDispatched j = Some p}"

text \<open>An operation of the engine appends the jobs of the tasks it makes READY.\<close>

definition queues_ready :: "'h Engine \<Rightarrow> 'h Engine \<Rightarrow> bool" where
  "queues_ready e e' \<longleftrightarrow> engine_inv e' \<and> (\<exists>js. e_queue e' = e_queue e @ js \<and> ready_tasks e' \<subseteq> ready_tasks e \<union> targets (set js)
     \<and> (\<forall>j \<in> set js. job_of (e_workflows e') j) \<and> (\<forall>j. job_of (e_workflows e) j \<longrightarrow> job_of (e_workflows e') j))"

lemma queues_ready_same: "engine_inv e \<Longrightarrow> e_workflows e' = e_workflows e \<Longrightarrow> e_queue e' = e_queue e \<Longrightarrow> queues_ready e e'"
  by (simp add: queues_ready_def ready_tasks_def engine_inv_def)

lemma queues_ready_notify: "queues_ready e (notifyWorkersOfCancellation refs e') = queues_ready e e'"
  by (simp add: queues_ready_def ready_tasks_def engine_inv_def notifyWorkersOfCancellation_def)

lemma ready_tasks_put:
  assumes "\<And>j. map_of (e_workflows e') j = (if j = k then Some w' else map_of (e_workflows e) j)"
  shows "ready_tasks e' = {(i, t). if i = k then st w' t = Some TaskReady else (i, t) \<in> ready_tasks e}"
  using assms by (auto simp: ready_tasks_def)

lemma queues_ready_put:
  assumes inv: "engine_inv e" and w: "map_of (e_workflows e) k = Some w" and ev: "evolves w w'" and wi: "wf_inv w'"
    and push: "pushes (jobs_of w ids) e e'" and ids: "set ids \<subseteq> {t. st w t \<noteq> None}"
    and ready: "\<And>t. st w' t = Some TaskReady \<Longrightarrow> st w t = Some TaskReady \<or> t \<in> set ids"
  shows "queues_ready e (put_workflow k w' e')"
proof -
  note f = pushes_fields [OF push]
  have static: "wf_static w" "w_ID w = k" using engine_invD [OF inv w] by (auto simp: wf_inv_def)
  have keys: "set ids \<subseteq> set (keys (w_Tasks w))"
  proof
    fix t assume "t \<in> set ids"
    then obtain x where "map_of (w_Tasks w) t = Some x" using ids by (auto simp: st_def)
    then show "t \<in> set (keys (w_Tasks w))" by (rule map_of_Some_keys)
  qed
  have ws: "map_of (e_workflows (put_workflow k w' e')) j = (if j = k then Some w' else map_of (e_workflows e) j)" for j
    using f by (simp add: put_workflow_def)
  have tg: "targets (set (jobs_of w ids)) = Pair k ` set ids"
  proof -
    have "targets (set (jobs_of w ids)) = {p. Some p \<in> set (map j_OnDispatched (jobs_of w ids))}"
      by (auto simp: targets_def image_iff eq_commute)
    then show ?thesis using jobs_of_targets [OF static(1) keys] static(2) by auto
  qed
  have "ready_tasks (put_workflow k w' e') \<subseteq> ready_tasks e \<union> Pair k ` set ids"
    unfolding ready_tasks_put [OF ws] using ready w by (auto simp: ready_tasks_def image_iff)
  moreover have "engine_inv (put_workflow k w' e')" by (rule engine_inv_put [OF inv w ev wi conjunct1 [OF f]])
  moreover have "e_queue (put_workflow k w' e') = e_queue e @ jobs_of w ids" using f by (simp add: put_workflow_def)
  ultimately show ?thesis
    using job_of_put [OF ev w ws] jobs_of_job_of [OF w keys] tg by (auto simp: queues_ready_def)
qed

lemma queues_ready_bus:
  assumes "engine_inv e" "map_of (e_workflows e) k = Some w" "evolves w w'" "wf_inv w'" "bus_only e e'"
    and "\<And>t. st w' t = Some TaskReady \<Longrightarrow> st w t = Some TaskReady"
  shows "queues_ready e (put_workflow k w' e')"
  using queues_ready_put [OF assms(1-4), of "[]" e'] assms(5,6) by (simp add: jobs_of_def)

lemma report_ready:
  "spec_ready E (spec_report E i b s) t = Some TaskReady \<Longrightarrow> s t = Some TaskReady \<or> s t = Some TaskPending"
  by (auto simp: spec_ready_def spec_report_def spec_cancel_def split: if_splits option.splits)

lemma response_queues:
  assumes inv: "engine_inv e" and rng: "go_range rng"
  shows "queues_ready e (snd (OnTaskResponse rng now wid tid r e))"
proof (cases "map_of (e_workflows e) wid")
  case None
  then show ?thesis using inv by (simp add: OnTaskResponse_def queues_ready_same)
next
  case w: (Some w)
  show ?thesis
  proof (cases "map_of (w_Tasks w) tid")
    case None
    then show ?thesis using inv w by (simp add: OnTaskResponse_def queues_ready_same)
  next
    case (Some t)
    from OnTaskResponse_char [OF rng conjunct2 [OF engine_invD [OF inv w]] w Some refl, of now r] obtain w' ids e' where
      o: "OnTaskResponse rng now wid tid r e = (None, put_workflow wid w' e')" "wf_inv w'" "evolves w w'"
        "st w' = spec_ready (dep_rel (w_Tasks w)) (spec_report (dep_rel (w_Tasks w)) tid (tr_Status r) (st w))"
        "set ids = {k. st w k = Some TaskPending \<and> st w' k = Some TaskReady}" "pushes (jobs_of w ids) e e'" by blast
    show ?thesis unfolding o(1) snd_conv
    proof (rule queues_ready_put [OF inv w o(3,2,6)])
      show "set ids \<subseteq> {t. st w t \<noteq> None}" using o(5) by auto
      show "st w k = Some TaskReady \<or> k \<in> set ids" if "st w' k = Some TaskReady" for k
        using report_ready that o(4,5) by auto
    qed
  qed
qed

lemma submit_queues:
  assumes inv: "engine_inv e" and rng: "go_range rng" and fresh: "fresh_workflow w"
    and new: "map_of (e_workflows e) (w_ID w) = None"
  shows "queues_ready e (snd (SubmitWorkflow rng now w e))"
proof -
  from SubmitWorkflow_char [OF rng fresh, of now e] obtain w' ids e' where
    s: "SubmitWorkflow rng now w e = (w_ID w, put_workflow (w_ID w) w' e')" "wf_inv w'" "evolves w w'"
      "st w' = spec_ready (dep_rel (w_Tasks w)) (st w)" "set ids = ready_set w"
      "pushes (jobs_of w ids) (put_workflow (w_ID w) w e) e'" by blast
  let ?k = "w_ID w" and ?e = "put_workflow (w_ID w) w' e'"
  note f = pushes_fields [OF s(6)]
  have ws: "map_of (e_workflows ?e) j = (if j = ?k then Some w' else map_of (e_workflows e) j)" for j
    using f by (simp add: put_workflow_def)
  have static: "wf_static w" using fresh by (simp add: fresh_workflow_def)
  have ids: "t \<in> set ids \<longleftrightarrow> st w' t = Some TaskReady" for t
  proof -
    have "st w t = None \<or> st w t = Some TaskPending" using fresh by (auto simp: fresh_workflow_def)
    then show ?thesis using s(4,5) by (auto simp: spec_ready_def ready_set_iff)
  qed
  have keys: "set ids \<subseteq> set (keys (w_Tasks w'))"
  proof
    fix t assume "t \<in> set ids"
    then show "t \<in> set (keys (w_Tasks w'))" using ids [of t] by (auto simp: st_def dest!: map_of_Some_keys)
  qed
  have same: "jobs_of w ids = jobs_of w' ids"
    unfolding jobs_of_def
  proof (rule map_cong [OF refl])
    fix t assume "t \<in> set ids"
    then obtain t' where "map_of (w_Tasks w') t = Some t'" using keys keys_map_of_Some by blast
    with evolves_task(1) [OF s(3) this] show "task_job (the (map_of (w_Tasks w) t)) = task_job (the (map_of (w_Tasks w') t))" by auto
  qed
  have id': "w_ID w' = ?k" and static': "wf_static w'" using evolvesD(3) [OF s(3)] s(2) by (simp_all add: wf_inv_def)
  have tg: "(?k, t) \<in> targets (set (jobs_of w' ids))" if "t \<in> set ids" for t
  proof -
    have "Some (?k, t) \<in> set (map j_OnDispatched (jobs_of w' ids))"
      using jobs_of_targets [OF static' keys] id' that by simp
    then show ?thesis by (auto simp: targets_def)
  qed
  have "job_of (e_workflows ?e) j" if "job_of (e_workflows e) j" for j
  proof -
    from that obtain i v tid t where "map_of (e_workflows e) i = Some v" "map_of (w_Tasks v) tid = Some t" "j = task_job t"
      by (auto simp: job_of_def)
    moreover from this have "i \<noteq> ?k" using new by auto
    ultimately show ?thesis using ws [of i] by (auto intro: job_ofI)
  qed
  moreover have "job_of (e_workflows ?e) j" if "j \<in> set (jobs_of w' ids)" for j
    using jobs_of_job_of [OF _ keys that, of "e_workflows ?e" ?k] ws by simp
  moreover have "ready_tasks ?e \<subseteq> ready_tasks e \<union> targets (set (jobs_of w' ids))"
    unfolding ready_tasks_put [OF ws] using ids tg by auto
  moreover have "e_queue ?e = e_queue e @ jobs_of w' ids" using f same by (simp add: put_workflow_def)
  moreover have "engine_inv ?e" using submit_inv [OF inv rng fresh, of now] s(1) by simp
  ultimately show ?thesis unfolding s(1) by (auto simp: queues_ready_def)
qed

lemma cancel_workflow_queues:
  assumes inv: "engine_inv e" and rng: "go_range rng"
  shows "queues_ready e (snd (CancelWorkflow rng now wid e))"
proof (cases "map_of (e_workflows e) wid")
  case None
  then show ?thesis using inv by (simp add: CancelWorkflow_def queues_ready_same)
next
  case (Some w)
  from CancelWorkflow_char [OF rng conjunct2 [OF engine_invD [OF inv Some]] Some, of now] obtain w' running e' where
    o: "CancelWorkflow rng now wid e = (None, notifyWorkersOfCancellation running (put_workflow wid w' e'))"
      "bus_only e e'" "wf_inv w'" "evolves w w'"
      "st w' = (\<lambda>k. if st w k \<in> Some ` open_statuses then Some TaskCancelled else st w k)" by blast
  have "queues_ready e (put_workflow wid w' e')"
    by (rule queues_ready_bus [OF inv Some o(4,3,2)]) (simp add: o(5) split: if_splits)
  then show ?thesis unfolding o(1) by (simp add: queues_ready_notify)
qed

lemma cancel_task_queues:
  assumes inv: "engine_inv e" and rng: "go_range rng"
  shows "queues_ready e (snd (CancelTask rng now tid e))"
proof (cases "findTask rng tid e")
  case None
  then show ?thesis using inv by (simp add: CancelTask_def queues_ready_same)
next
  case (Some kwt)
  then obtain k w t where f: "findTask rng tid e = Some (k, w, t)" by (cases kwt) auto
  note w = conjunct1 [OF findTask_Some [OF f]]
  show ?thesis
  proof (cases "Task_IsFinished t")
    case True
    then show ?thesis using inv f by (simp add: CancelTask_def queues_ready_same)
  next
    case False
    from CancelTask_char [OF rng conjunct2 [OF engine_invD [OF inv w]] f False refl, of now] obtain w' e' where
      o: "CancelTask rng now tid e = (None, notifyWorkersOfCancellation (running_ref t) (put_workflow k w' e'))"
        "bus_only e e'" "wf_inv w'" "evolves w w'"
        "st w' = spec_cancel (dep_rel (w_Tasks w)) tid ((st w)(tid := Some TaskCancelled))" by blast
    have "queues_ready e (put_workflow k w' e')"
      by (rule queues_ready_bus [OF inv w o(4,3,2)]) (simp add: o(5) spec_cancel_def split: if_splits)
    then show ?thesis unfolding o(1) by (simp add: queues_ready_notify)
  qed
qed

lemma reassign_queues:
  assumes inv: "engine_inv e" and rng: "go_range rng"
  shows "queues_ready e (ReassignDeadWorkerTasks rng now i e)"
proof -
  have ws: "\<forall>k w. map_of (e_workflows e) k = Some w \<longrightarrow> w_ID w = k \<and> wf_inv w" using inv by (simp add: engine_inv_def)
  let ?e = "ReassignDeadWorkerTasks rng now i e" and ?ks = "rng 0 (keys (e_workflows e))"
  from reassign_workflows_char [OF rng engine_keys_distinct [OF inv rng] ws, of now i]
  obtain js where r: "\<forall>k. map_of (e_workflows ?e) k = (if k \<in> set ?ks
      then map_option (\<lambda>w. reclaim (held_by i w) w) (map_of (e_workflows e) k) else map_of (e_workflows e) k)"
    "e_queue ?e = e_queue e @ js" "set (map j_OnDispatched js) = Some ` held_tasks i (e_workflows e) (set ?ks)"
    "\<forall>j \<in> set js. job_of (e_workflows e) j"
    by (auto simp: ReassignDeadWorkerTasks_def)
  have all: "map_of (e_workflows ?e) k = map_option (\<lambda>w. reclaim (held_by i w) w) (map_of (e_workflows e) k)" for k
    using r(1) go_range.set_rng [OF rng, of 0 "keys (e_workflows e)"] map_of_None_keys [of "e_workflows e" k]
    by (cases "map_of (e_workflows e) k") auto
  have "job_of (e_workflows ?e) j" if "job_of (e_workflows e) j" for j
  proof -
    from that obtain k w tid t where k: "map_of (e_workflows e) k = Some w" "map_of (w_Tasks w) tid = Some t" "j = task_job t"
      by (auto simp: job_of_def)
    from evolves_task(2) [OF evolves_reclaim k(2)] all [of k] k show ?thesis by (metis job_ofI option.simps(9))
  qed
  moreover have "p \<in> ready_tasks e \<union> targets (set js)" if "p \<in> ready_tasks ?e" for p
  proof -
    obtain k tid where p: "p = (k, tid)" by force
    with that obtain w where w: "map_of (e_workflows e) k = Some w" "st (reclaim (held_by i w) w) tid = Some TaskReady"
      by (auto simp: ready_tasks_def all)
    show ?thesis
    proof (cases "tid \<in> held_by i w")
      case True
      have "k \<in> set ?ks" using go_range.set_rng [OF rng, of 0 "keys (e_workflows e)"] map_of_Some_keys [OF w(1)] by simp
      with True w have "Some p \<in> set (map j_OnDispatched js)" unfolding r(3) p by (auto simp: held_tasks_def)
      then show ?thesis by (auto simp: targets_def)
    next
      case False
      then have "st w tid = Some TaskReady" using w(2) by (simp add: st_reclaim)
      then show ?thesis using w(1) p by (auto simp: ready_tasks_def)
    qed
  qed
  ultimately show ?thesis using r(2,4) reassign_inv [OF inv rng, of now i] by (auto simp: queues_ready_def)
qed

section \<open>The invariant of the system\<close>

fun phase_jobs :: "sched_phase \<Rightarrow> Job list" where
  "phase_jobs SchedIdle = []"
| "phase_jobs (SchedPopped jobs) = jobs"
| "phase_jobs (SchedLoop workers jobs) = jobs"
| "phase_jobs (SchedSent workers job p w jobs) = job # jobs"
| "phase_jobs (SchedCount workers w jobs) = jobs"

fun phase_ok :: "sched_phase \<Rightarrow> bool" where
  "phase_ok (SchedSent workers job p w jobs) = (j_OnDispatched job = Some p)"
| "phase_ok ph = True"

definition jobs_cover :: "'h Engine \<Rightarrow> Job set \<Rightarrow> bool" where
  "jobs_cover e J \<longleftrightarrow> engine_inv e \<and> (\<forall>j \<in> J. job_of (e_workflows e) j) \<and> ready_tasks e \<subseteq> targets J"

definition cp_inv :: "sched_phase \<times> (clock_and_order, 'h, 'c) ControlPlane \<Rightarrow> bool" where
  "cp_inv x \<longleftrightarrow> jobs_cover (cp_engine (snd x)) (set (e_queue (cp_engine (snd x))) \<union> set (phase_jobs (fst x)))
     \<and> phase_ok (fst x) \<and> r_onDeadHooks (cp_registry (snd x)) = [dead_hook]"

lemma targets_mono: "J \<subseteq> K \<Longrightarrow> targets J \<subseteq> targets K"
  by (auto simp: targets_def)

lemma jobs_cover_step:
  assumes "jobs_cover e (set (e_queue e) \<union> P)" "queues_ready e e'"
  shows "jobs_cover e' (set (e_queue e') \<union> P)"
proof -
  from assms(2) obtain js where js: "e_queue e' = e_queue e @ js" "ready_tasks e' \<subseteq> ready_tasks e \<union> targets (set js)"
    "\<forall>j \<in> set js. job_of (e_workflows e') j" "\<forall>j. job_of (e_workflows e) j \<longrightarrow> job_of (e_workflows e') j"
    "engine_inv e'" by (auto simp: queues_ready_def)
  have "targets (set (e_queue e) \<union> P) \<union> targets (set js) \<subseteq> targets (set (e_queue e') \<union> P)"
    using js(1) by (auto simp: targets_def)
  then have "ready_tasks e' \<subseteq> targets (set (e_queue e') \<union> P)"
    using assms(1) js(2) unfolding jobs_cover_def by blast
  then show ?thesis using assms(1) js(1,3-5) by (auto simp: jobs_cover_def)
qed

lemma jobs_cover_queue:
  "jobs_cover e J \<Longrightarrow> e_workflows e' = e_workflows e \<Longrightarrow> jobs_cover e' J"
  by (simp add: jobs_cover_def ready_tasks_def engine_inv_def)

text \<open>The callback takes its task out of READY, and with it its job may leave the scheduler.\<close>

lemma dispatched_cover:
  assumes cover: "jobs_cover e (insert job J)" and p: "j_OnDispatched job = Some p"
  shows "jobs_cover (OnTaskDispatched now p i e) J"
proof -
  let ?e = "OnTaskDispatched now p i e"
  have inv: "engine_inv e" using cover by (simp add: jobs_cover_def)
  from cover p obtain k w tid t where "map_of (e_workflows e) k = Some w" "map_of (w_Tasks w) tid = Some t" "job = task_job t"
    by (auto simp: jobs_cover_def job_of_def)
  moreover from engine_invD [OF inv this(1)] have "w_ID w = k" "wf_static w" by (auto simp: wf_inv_def)
  ultimately have "p = (k, tid)" using p by (auto simp: task_job_def wf_static_def ids_are_keys_def)
  with \<open>map_of (e_workflows e) k = Some w\<close> \<open>map_of (w_Tasks w) tid = Some t\<close>
  have wt: "map_of (e_workflows e) (fst p) = Some w" "map_of (w_Tasks w) (snd p) = Some t" by simp_all
  from OnTaskDispatched_char [OF conjunct2 [OF engine_invD [OF inv wt(1)]] wt, of now i] obtain w' e' where
    o: "?e = put_workflow (fst p) w' e'" "bus_only e e'" "wf_inv w'" "evolves w w'"
      "w' = with_tasks (\<lambda>k t. if k = snd p then dispatched_to i t else t) w" by blast
  have ws: "map_of (e_workflows ?e) j = (if j = fst p then Some w' else map_of (e_workflows e) j)" for j
    using bus_only_fields [OF o(2)] by (simp add: o(1) put_workflow_def)
  have st': "st w' x = Some TaskReady \<longleftrightarrow> st w x = Some TaskReady \<and> x \<noteq> snd p" for x
    unfolding o(5) using wt(2) by (cases "x = snd p") (simp_all add: st_def dispatched_to_def option.map_ident)
  have "ready_tasks ?e \<subseteq> ready_tasks e - {p}"
    unfolding ready_tasks_put [OF ws] using wt(1) st' by (cases p) (auto simp: ready_tasks_def split: if_splits)
  moreover have "targets (insert job J) \<subseteq> insert p (targets J)" using p by (auto simp: targets_def)
  ultimately have "ready_tasks ?e \<subseteq> targets J" using cover by (auto simp: jobs_cover_def)
  moreover have "\<forall>j \<in> J. job_of (e_workflows ?e) j"
    using cover job_of_put [OF o(4) wt(1) ws] by (simp add: jobs_cover_def)
  ultimately show ?thesis using dispatched_inv [OF inv] by (simp add: jobs_cover_def)
qed

lemma commit_dispatch_frame:
  "commit_dispatch dial rpc n job w s = (r, s') \<Longrightarrow> cp_engine s' = cp_engine s \<and> cp_registry s' = cp_registry s"
  using commit_dispatch_fields by blast

lemma sched_step_inv:
  assumes "cp_inv (ph, s)"
  shows "cp_inv (sched_step sortSlice rng now dial rpc (ph, s))"
proof -
  let ?e = "cp_engine s"
  have cover: "jobs_cover ?e (set (e_queue ?e) \<union> set (phase_jobs ph))" and ok: "phase_ok ph"
    and hooks: "r_onDeadHooks (cp_registry s) = [dead_hook]" using assms by (auto simp: cp_inv_def)
  show ?thesis
  proof (cases ph)
    case SchedIdle
    have "set (drop 50 (e_queue ?e)) \<union> set (take 50 (e_queue ?e)) = set (e_queue ?e)"
      by (metis append_take_drop_id set_append sup_commute)
    then show ?thesis
      using cover hooks SchedIdle jobs_cover_queue [OF cover, of "?e\<lparr>e_queue := drop 50 (e_queue ?e)\<rparr>"]
      by (auto simp: cp_inv_def queue_simps)
  next
    case (SchedPopped jobs)
    then show ?thesis using cover hooks by (simp add: cp_inv_def)
  next
    case (SchedLoop ws jobs)
    show ?thesis
    proof (cases jobs)
      case Nil
      then show ?thesis using SchedLoop cover hooks by (simp add: cp_inv_def)
    next
      case (Cons job rest)
      have requeued: "cp_inv (SchedLoop ws rest, Scheduler_PushTask job s')"
        if "cp_engine s' = ?e" "cp_registry s' = cp_registry s" for s'
      proof -
        have "set (e_queue ?e) \<union> set (phase_jobs ph) = insert job (set (e_queue ?e) \<union> set rest)"
          using SchedLoop Cons by auto
        then have "jobs_cover (cp_engine (Scheduler_PushTask job s')) (insert job (set (e_queue ?e) \<union> set rest))"
          using jobs_cover_queue [OF cover, of "cp_engine (Scheduler_PushTask job s')"] that(1) by simp
        then show ?thesis using that hooks by (simp add: cp_inv_def Un_commute)
      qed
      obtain w r s' where c: "commit_dispatch dial rpc (length rest) job w s = (r, s')" by force
      have sent: "cp_inv (case commit_dispatch dial rpc (length rest) job w s of
            (Inl err, s') \<Rightarrow> (SchedLoop ws rest, Scheduler_PushTask job s') | (Inr p, s') \<Rightarrow> (SchedSent ws job p w rest, s'))" for w
      proof (cases "commit_dispatch dial rpc (length rest) job w s")
        case (Pair r s')
        note f = commit_dispatch_fields [OF Pair]
        show ?thesis
        proof (cases r)
          case (Inl err)
          then show ?thesis using Pair f requeued by simp
        next
          case (Inr p)
          then show ?thesis using Pair f cover hooks SchedLoop Cons by (simp add: cp_inv_def)
        qed
      qed
      show ?thesis using SchedLoop Cons requeued [of s] sent by (simp split: sum.split)
    qed
  next
    case (SchedSent ws job p w jobs)
    have "insert job (set (e_queue ?e) \<union> set jobs) = set (e_queue ?e) \<union> set (phase_jobs ph)" using SchedSent by auto
    then have "jobs_cover (OnTaskDispatched now p w ?e) (set (e_queue ?e) \<union> set jobs)"
      using dispatched_cover [of ?e job "set (e_queue ?e) \<union> set jobs" p now w] cover ok SchedSent by simp
    then show ?thesis using SchedSent hooks by (simp add: cp_inv_def call_OnDispatched_def)
  next
    case (SchedCount ws w jobs)
    then show ?thesis using cover hooks by (simp add: cp_inv_def count_running_def)
  qed
qed

lemma check_effect:
  "checkHeartbeat now i wid r env = (again, r', env') \<Longrightarrow>
   r_onDeadHooks r' = r_onDeadHooks r \<and> (env' = env \<or> env' = fold (\<lambda>hook. hook i wid) (r_onDeadHooks r) env)"
proof -
  assume h: "checkHeartbeat now i wid r env = (again, r', env')"
  obtain a v where v: "check_decide now wid r = (a, v)" by force
  show ?thesis
  proof (cases v)
    case None
    then show ?thesis using h v by (simp add: checkHeartbeat_def)
  next
    case (Some status)
    then have "(r', env') = updateWorkerStatus i wid status r env" using h v by (simp add: checkHeartbeat_def)
    then have "r' = fst (updateWorkerStatus i wid status r env)" "env' = snd (updateWorkerStatus i wid status r env)"
      by (metis fst_conv, metis snd_conv)
    then show ?thesis by (simp add: update_env)
  qed
qed

lemma api_step_queues:
  assumes "api_step s s'" "engine_inv (cp_engine s)" "r_onDeadHooks (cp_registry s) = [dead_hook]"
  shows "queues_ready (cp_engine s) (cp_engine s') \<and> r_onDeadHooks (cp_registry s') = [dead_hook]"
  using assms
proof (induction rule: api_step.induct)
  case (api_submit rng rng' tasks uuid created tenantID name w s now)
  from NewWorkflow_fresh [OF api_submit(2-4)] have "fresh_workflow w" .
  then show ?case using submit_queues [OF api_submit(6) api_submit(1) _ api_submit(5)] api_submit(7) by simp
next
  case (api_check rng s now workerID)
  obtain again r c e where h: "checkHeartbeat now (now, rng) workerID (cp_registry s) (cp_client s, cp_engine s) = (again, r, c, e)"
    by (metis prod_cases4)
  note effect = check_effect [OF h, unfolded api_check(3)]
  then have r: "r_onDeadHooks r = [dead_hook]" by simp
  have "dead_hook (now, rng) workerID (cp_client s, cp_engine s)
      = (WorkerClient_CloseConn workerID (cp_client s), ReassignDeadWorkerTasks rng now workerID (cp_engine s))"
    by (simp add: dead_hook_def)
  then have e: "e = cp_engine s \<or> e = ReassignDeadWorkerTasks rng now workerID (cp_engine s)"
    using effect by auto
  have "queues_ready (cp_engine s) e"
    using e reassign_queues [OF api_check(2) api_check(1)] queues_ready_same [OF api_check(2)] by blast
  with r show ?case by (simp add: cp_checkHeartbeat_def h)
next
  case (api_heartbeat s now workerID n)
  then show ?case by (simp add: Registry_Heartbeat_def queues_ready_same split: option.splits)
qed (simp_all add: cancel_workflow_queues cancel_task_queues queues_ready_same)

lemma cp_step_inv: "cp_step x y \<Longrightarrow> cp_inv x \<Longrightarrow> cp_inv y"
proof (induction rule: cp_step.induct)
  case (cp_api s s' ph)
  then have "engine_inv (cp_engine s)" "r_onDeadHooks (cp_registry s) = [dead_hook]"
    by (simp_all add: cp_inv_def jobs_cover_def)
  with api_step_queues [OF cp_api(1)] cp_api(2) show ?case
    using jobs_cover_step [of "cp_engine s" "set (phase_jobs ph)" "cp_engine s'"] by (simp add: cp_inv_def)
next
  case (cp_report rng ph s now wid tid r)
  then have "queues_ready (cp_engine s) (snd (OnTaskResponse rng now wid tid r (cp_engine s)))"
    by (simp add: response_queues cp_inv_def jobs_cover_def)
  with cp_report(2) show ?case
    using jobs_cover_step [of "cp_engine s" "set (phase_jobs ph)"] by (simp add: cp_inv_def)
next
  case (cp_register now request s r ph)
  then have "r_onDeadHooks r = r_onDeadHooks (cp_registry s)"
    by (auto simp: Registry_Register_def push_trigger_def split: option.splits)
  with cp_register show ?case by (simp add: cp_inv_def)
next
  case (cp_scheduler rng ph s sortSlice now dial rpc)
  then show ?case by (intro sched_step_inv)
qed

lemma cp_reachable_inv: "cp_reachable x \<Longrightarrow> cp_inv x"
proof (induction rule: cp_reachable.induct)
  case (cp_start eventBus)
  show ?case by (simp add: cp_inv_def jobs_cover_def control_plane_main_def NewWorkflowEngine_def engine_inv_def
      ready_tasks_def NewReadyQueue_def OnWorkerDead_def NewWorkerRegistry_def)
qed (rule cp_step_inv)

section \<open>Properties\<close>

text \<open>
  The tick that the scheduler runs as one loop and the steps that interleave with the other
  goroutines are the same program: from any state the steps, run without interruption, come
  back to idle after finitely many steps, in exactly the state that \<open>assignOnce\<close> returns.
\<close>

theorem tick_in_steps:
  "\<exists>n s'. 0 < n \<and> assignOnce sortSlice rng now dial rpc s = Some s'
     \<and> (sched_step sortSlice rng now dial rpc ^^ n) (SchedIdle, s) = (SchedIdle, s')"
proof -
  let ?f = "sched_step sortSlice rng now dial rpc" and ?q = "e_queue (cp_engine s)"
  let ?s = "s\<lparr>cp_engine := (cp_engine s)\<lparr>e_queue := drop 50 ?q\<rparr>\<rparr>"
  show ?thesis
  proof (cases "take 50 ?q = []")
    case True
    then show ?thesis by (intro exI [of _ 1] exI [of _ ?s]) (simp add: assignOnce_def queue_simps Let_def)
  next
    case False
    let ?ws = "AliveWorkers rng (cp_registry s)"
    obtain n where n: "(?f ^^ n) (SchedLoop ?ws (take 50 ?q), ?s) = (SchedIdle, assign_loop sortSlice now dial rpc ?ws (take 50 ?q) ?s)"
      using sched_steps_loop by blast
    have "(?f ^^ (n + 2)) (SchedIdle, s) = (SchedIdle, assign_loop sortSlice now dial rpc ?ws (take 50 ?q) ?s)"
      unfolding funpow_add using n False by (simp add: queue_simps numeral_2_eq_2)
    moreover have "assignOnce sortSlice rng now dial rpc s = Some (assign_loop sortSlice now dial rpc ?ws (take 50 ?q) ?s)"
      using False by (simp add: assignOnce_def queue_simps Let_def)
    ultimately show ?thesis by (intro exI [of _ "n + 2"] exI conjI) simp_all
  qed
qed

text \<open>
  C7. No READY task is forgotten: in every state the control plane can reach, with API calls,
  reports, worker deaths and the scheduler interleaved in any way, each READY task of each
  workflow has its job, with the task's current type, payload and timeout, in the ready queue
  or in the hands of the scheduler; and every job there belongs to a task of a workflow.
\<close>

theorem ready_task_has_job:
  assumes "cp_reachable (ph, s)"
  shows "(\<forall>wid w tid t. map_of (e_workflows (cp_engine s)) wid = Some w \<and> map_of (w_Tasks w) tid = Some t
            \<and> t_status t = TaskReady \<longrightarrow> task_job t \<in> set (e_queue (cp_engine s)) \<union> set (phase_jobs ph))
     \<and> (\<forall>j \<in> set (e_queue (cp_engine s)) \<union> set (phase_jobs ph). \<exists>wid w tid t.
            map_of (e_workflows (cp_engine s)) wid = Some w \<and> map_of (w_Tasks w) tid = Some t \<and> j = task_job t)"
proof -
  let ?J = "set (e_queue (cp_engine s)) \<union> set (phase_jobs ph)" and ?ws = "e_workflows (cp_engine s)"
  have cover: "jobs_cover (cp_engine s) ?J" using cp_reachable_inv [OF assms] by (simp add: cp_inv_def)
  have target: "j_OnDispatched (task_job t) = Some (wid, tid)"
    if "map_of ?ws wid = Some w" "map_of (w_Tasks w) tid = Some t" for wid w tid t
  proof -
    have "engine_inv (cp_engine s)" using cover by (simp add: jobs_cover_def)
    from engine_invD [OF this that(1)] that(2) show ?thesis
      by (auto simp: wf_inv_def task_job_def wf_static_def ids_are_keys_def)
  qed
  have "task_job t \<in> ?J" if t: "map_of ?ws wid = Some w" "map_of (w_Tasks w) tid = Some t" "t_status t = TaskReady" for wid w tid t
  proof -
    have "(wid, tid) \<in> targets ?J" using cover t by (auto simp: jobs_cover_def ready_tasks_def st_def)
    then obtain j where j: "j \<in> ?J" "j_OnDispatched j = Some (wid, tid)" by (auto simp: targets_def)
    have "job_of ?ws j" using cover j(1) unfolding jobs_cover_def by blast
    then obtain wid' w' tid' t' where t': "map_of ?ws wid' = Some w'" "map_of (w_Tasks w') tid' = Some t'" "j = task_job t'"
      unfolding job_of_def by blast
    from target [OF t'(1,2)] j(2) t' t have "t' = t" by auto
    with t'(3) j(1) show ?thesis by simp
  qed
  moreover have "\<forall>j \<in> ?J. job_of ?ws j" using cover unfolding jobs_cover_def by blast
  ultimately show ?thesis unfolding job_of_def by blast
qed

definition orphan_request :: RegisterRequest where
  "orphan_request = \<lparr>rr_WorkerId = ''w'', rr_Address = ''host:1'', rr_Labels = [], rr_Capabilities = [''shell''], rr_Capacity = 4\<rparr>"

definition submitted_cp :: "(clock_and_order, unit, string) ControlPlane" where
  "submitted_cp = (control_plane_main example_bus)\<lparr>cp_engine :=
     snd (SubmitWorkflow offset_order 7 example_workflow (cp_engine (control_plane_main example_bus :: (clock_and_order, unit, string) ControlPlane)))\<rparr>"

definition registered_cp :: "(clock_and_order, unit, string) ControlPlane" where
  "registered_cp = submitted_cp\<lparr>cp_registry := the (Registry_Register 7 (request_node orphan_request) (cp_registry submitted_cp))\<rparr>"

definition ok_dial :: "string dialer" where "ok_dial n addr = Inr addr"
definition ok_rpc :: "string dispatcher" where "ok_rpc n conn req = Inr \<lparr>dres_Accepted = True, dres_Reason = ''''\<rparr>"

lemma submitted_step: "api_step (control_plane_main example_bus) submitted_cp"
proof -
  have "\<forall>t \<in> set example_tasks. t_status t = TaskPending" by (simp add: example_tasks_def example_task_def)
  then show ?thesis
    unfolding submitted_cp_def
    by (intro api_submit [OF offset.go_range_axioms offset.go_range_axioms _ example_NewWorkflow])
       (simp_all add: control_plane_main_def NewWorkflowEngine_def)
qed

lemma submitted_cp_reachable: "cp_reachable (SchedIdle, submitted_cp)"
  by (rule cp_next [OF cp_start cp_api [OF submitted_step]])

lemma registered_step:
  "Registry_Register 7 (request_node orphan_request) (cp_registry submitted_cp)
     = Some (the (Registry_Register 7 (request_node orphan_request) (cp_registry submitted_cp)))"
proof -
  have "\<not> Option.is_none (Registry_Register 7 (request_node orphan_request) (cp_registry submitted_cp))" by code_simp
  then show ?thesis by (auto simp: Option.is_none_def)
qed

lemma registered_cp_reachable: "cp_reachable (SchedIdle, registered_cp)"
  using cp_register [OF registered_step] unfolding registered_cp_def by (rule cp_next [OF submitted_cp_reachable])

lemma steps_reachable:
  "go_range rng \<Longrightarrow> cp_reachable x \<Longrightarrow> cp_reachable ((sched_step sortSlice rng now dial rpc ^^ n) x)"
  by (induction n) (simp_all, metis cp_next cp_scheduler surj_pair)

theorem ready_task_has_job_witness:
  "task_job (built_task ''u'' ''a'' [] TaskReady '''') \<in> set (e_queue (cp_engine submitted_cp))"
proof -
  have "map_option (\<lambda>w. map_of (w_Tasks w) ''u'') (map_of (e_workflows (cp_engine submitted_cp)) ''uuuu'')
      = Some (Some (built_task ''u'' ''a'' [] TaskReady ''''))" by code_simp
  then obtain w where "map_of (e_workflows (cp_engine submitted_cp)) ''uuuu'' = Some w"
    "map_of (w_Tasks w) ''u'' = Some (built_task ''u'' ''a'' [] TaskReady '''')" by (auto simp: map_option_eq_Some)
  with ready_task_has_job [OF submitted_cp_reachable] show ?thesis by (fastforce simp: built_task_def)
qed

definition orphan_state :: "sched_phase \<times> (clock_and_order, unit, string) ControlPlane" where
  "orphan_state =
     (let tick = sched_step insertion_sort offset_order (15 * Second) ok_dial ok_rpc;
          (ph, s) = (tick ^^ 3) (SchedIdle, registered_cp);
          s' = cp_checkHeartbeat (40 * Second) offset_order ''w'' (cp_checkHeartbeat (24 * Second) offset_order ''w'' s)
      in (tick ^^ 3) (ph, s'))"

fun orphan_view ::
  "sched_phase \<times> (clock_and_order, unit, string) ControlPlane \<Rightarrow>
   sched_phase \<times> Job list \<times> WorkerStatus option \<times> (WorkflowStatus \<times> (TaskStatus \<times> string) option) option" where
  "orphan_view (ph, s) =
     (ph, e_queue (cp_engine s), wstatus (cp_registry s) ''w'',
      map_option (\<lambda>w. (w_status w, map_option (\<lambda>t. (t_status t, t_AssignedTo t)) (map_of (w_Tasks w) ''u'')))
        (map_of (e_workflows (cp_engine s)) ''uuuu''))"

lemma orphan_reachable: "cp_reachable orphan_state"
proof -
  let ?tick = "sched_step insertion_sort offset_order (15 * Second) ok_dial ok_rpc"
  obtain ph s where s: "(?tick ^^ 3) (SchedIdle, registered_cp) = (ph, s)" by force
  then have "cp_reachable (ph, s)"
    using steps_reachable [OF offset.go_range_axioms registered_cp_reachable, of 3 insertion_sort "15 * Second" ok_dial ok_rpc] by simp
  then have "cp_reachable (ph, cp_checkHeartbeat (40 * Second) offset_order ''w'' (cp_checkHeartbeat (24 * Second) offset_order ''w'' s))"
    by (intro cp_next [OF cp_next [OF _ cp_api [OF api_check [OF offset.go_range_axioms]]] cp_api [OF api_check [OF offset.go_range_axioms]]])
  from steps_reachable [OF offset.go_range_axioms this, of 3 insertion_sort "15 * Second" ok_dial ok_rpc] show ?thesis
    by (simp add: orphan_state_def s Let_def)
qed

text \<open>
  C35. A task can be left with a dead worker: when a worker is declared dead between the call
  that hands it a task and the callback that records the assignment, the hook finds nothing to
  reassign, and the callback then marks the task DISPATCHED to the dead worker. There is a
  reachable state in which the scheduler is idle, the ready queue is empty, the task's worker
  is DEAD and the task is DISPATCHED; its switch does not fire again.
\<close>

theorem dispatched_to_dead_worker:
  "\<exists>s w t. cp_reachable (SchedIdle, s :: (clock_and_order, unit, string) ControlPlane)
     \<and> e_queue (cp_engine s) = [] \<and> wstatus (cp_registry s) ''w'' = Some WorkerDead
     \<and> map_of (e_workflows (cp_engine s)) ''uuuu'' = Some w \<and> w_status w = WorkflowRunning
     \<and> map_of (w_Tasks w) ''u'' = Some t \<and> t_status t = TaskDispatched \<and> t_AssignedTo t = ''w''
     \<and> (\<forall>now. check_decide now ''w'' (cp_registry s) = (False, None))"
proof -
  obtain ph s where o: "orphan_state = (ph, s)" by force
  have "orphan_view orphan_state = (SchedIdle, [], Some WorkerDead, Some (WorkflowRunning, Some (TaskDispatched, ''w'')))"
    by code_simp
  then have ph: "ph = SchedIdle" and e: "e_queue (cp_engine s) = []" "wstatus (cp_registry s) ''w'' = Some WorkerDead"
      "map_option (\<lambda>w. (w_status w, map_option (\<lambda>t. (t_status t, t_AssignedTo t)) (map_of (w_Tasks w) ''u'')))
        (map_of (e_workflows (cp_engine s)) ''uuuu'') = Some (WorkflowRunning, Some (TaskDispatched, ''w''))"
    by (simp_all add: o)
  from e(3) obtain w t where wt: "map_of (e_workflows (cp_engine s)) ''uuuu'' = Some w" "w_status w = WorkflowRunning"
    "map_of (w_Tasks w) ''u'' = Some t" "t_status t = TaskDispatched" "t_AssignedTo t = ''w''"
    by (auto simp: map_option_eq_Some)
  have "check_decide now ''w'' (cp_registry s) = (False, None)" for now
    using e by (auto simp: check_decide_def wstatus_def node_defs split: option.splits)
  moreover have "cp_reachable (SchedIdle, s)" using orphan_reachable ph o by simp
  ultimately show ?thesis using e wt by (intro exI [of _ s] exI [of _ w] exI [of _ t]) simp
qed

end
