(* ===== verification/Executors.thy ===== *)
theory Executors
  imports Domain_Workflow Go_Num
begin

text \<open>
  The executors of a worker: their registry (\<^verbatim>\<open>pkg/executror_registry\<close>), the set the worker
  registers from its capabilities (\<^verbatim>\<open>worker/executor/executor.go\<close>), and the two of them
  (\<^verbatim>\<open>executor/shell\<close>, \<^verbatim>\<open>executor/http\<close>).

  The outside world is a parameter: the JSON decoder maps a payload to an error text or the
  decoded struct; running a command and doing a request give an outcome record. An execution
  returns the result and the Go error, if any.
\<close>

section \<open>The registry of executors\<close>

record 'x ExecutorRegistry =
  er_executors :: "'x gomap"

definition New_ExecutorRegistry :: "'x ExecutorRegistry" where
  "New_ExecutorRegistry = \<lparr>er_executors = []\<rparr>"

definition ExecutorRegistry_Register :: "string \<Rightarrow> 'x \<Rightarrow> 'x ExecutorRegistry \<Rightarrow> 'x ExecutorRegistry" where
  "ExecutorRegistry_Register taskType ex r = r\<lparr>er_executors := AList.update taskType ex (er_executors r)\<rparr>"

datatype executor_error = UnknownTaskType string | ExecutorDoesNotExist string

definition ExecutorRegistry_Get :: "string \<Rightarrow> 'x ExecutorRegistry \<Rightarrow> executor_error + 'x" where
  "ExecutorRegistry_Get taskType r =
     (case map_of (er_executors r) taskType of
        None \<Rightarrow> Inl (UnknownTaskType taskType)
      | Some ex \<Rightarrow> Inr ex)"

datatype executor_kind = ShellExecutor | HttpExecutor

definition isExecutorExists :: "string \<Rightarrow> bool" where
  "isExecutorExists executorType \<longleftrightarrow> executorType = ''shell'' \<or> executorType = ''http''"

text \<open>The first unknown capability ends the loop; what was registered before stays.\<close>

fun register_loop ::
  "string list \<Rightarrow> string list \<Rightarrow> executor_kind ExecutorRegistry \<Rightarrow> (executor_error + string list) \<times> executor_kind ExecutorRegistry" where
  "register_loop [] registered r = (Inr registered, r)"
| "register_loop (capability # capabilities) registered r =
     (if \<not> isExecutorExists capability then (Inl (ExecutorDoesNotExist capability), r)
      else register_loop capabilities (registered @ [capability])
             (if capability = ''shell'' then ExecutorRegistry_Register capability ShellExecutor r
              else if capability = ''http'' then ExecutorRegistry_Register capability HttpExecutor r
              else r))"

definition RegisterExecutors ::
  "executor_kind ExecutorRegistry \<Rightarrow> string list \<Rightarrow> (executor_error + string list) \<times> executor_kind ExecutorRegistry" where
  "RegisterExecutors r capabilities = register_loop capabilities [] r"

lemma register_loop_ok:
  assumes "\<forall>c \<in> set cs. isExecutorExists c"
  shows "fst (register_loop cs acc r) = Inr (acc @ cs)
    \<and> map_of (er_executors (snd (register_loop cs acc r))) t =
        (if t \<in> set cs then Some (if t = ''shell'' then ShellExecutor else HttpExecutor) else map_of (er_executors r) t)"
  using assms
  by (induction cs arbitrary: acc r) (auto simp: ExecutorRegistry_Register_def isExecutorExists_def)

lemma register_loop_err:
  assumes "\<not> (\<forall>c \<in> set cs. isExecutorExists c)"
  shows "\<exists>c \<in> set cs. \<not> isExecutorExists c \<and> fst (register_loop cs acc r) = Inl (ExecutorDoesNotExist c)"
  using assms by (induction cs arbitrary: acc r) auto

section \<open>Execution results\<close>

definition zero_result :: TaskResult where
  "zero_result = \<lparr>tr_Status = TaskPending, tr_ExitCode = 0, tr_Stdout = '''', tr_Stderr = '''', tr_Error = '''', tr_Duration = 0\<rparr>"

definition error_result :: "string \<Rightarrow> TaskResult" where
  "error_result err = zero_result\<lparr>tr_Error := err\<rparr>"

section \<open>The shell executor\<close>

record shell_payload =
  sp_Command :: string
  sp_Args :: string

text \<open>What \<^verbatim>\<open>cmd.Run\<close> returns: nil, an \<^verbatim>\<open>ExitError\<close> with its code, another error.\<close>

datatype run_error = RunOk | RunExit int | RunFailed string

record shell_outcome =
  so_Stdout :: string
  so_Stderr :: string
  so_err :: run_error
  so_DeadlineExceeded :: bool
  so_duration :: int

definition shell_Execute ::
  "(string \<Rightarrow> string + shell_payload) \<Rightarrow> (string \<Rightarrow> string \<Rightarrow> int \<Rightarrow> shell_outcome) \<Rightarrow>
   TaskSpec \<Rightarrow> int \<Rightarrow> TaskResult \<times> string option" where
  "shell_Execute unmarshal run spec timeout =
     (case unmarshal (ts_Payload spec) of
        Inl err \<Rightarrow> (error_result (''invalid shell payload: '' @ err), Some (''invalid shell payload: '' @ err))
      | Inr p \<Rightarrow>
          if sp_Command p = '''' then
            (error_result ''command not found in task spec'', Some ''command not found in task spec'')
          else
            (let out = run (sp_Command p) (sp_Args p) timeout;
                 result = zero_result\<lparr>tr_Stdout := so_Stdout out, tr_Stderr := so_Stderr out, tr_Duration := so_duration out\<rparr>
             in if so_DeadlineExceeded out then (result\<lparr>tr_ExitCode := -1, tr_Error := ''task timed out''\<rparr>, None)
                else (case so_err out of
                        RunExit code \<Rightarrow> (result\<lparr>tr_ExitCode := code\<rparr>, None)
                      | RunFailed err \<Rightarrow> (result, Some (''failed to start command: '' @ err))
                      | RunOk \<Rightarrow> (result\<lparr>tr_ExitCode := 0\<rparr>, None))))"

section \<open>The HTTP executor\<close>

record http_payload =
  hp_URL :: string
  hp_Method :: string
  hp_Body :: string
  hp_Headers :: "string gomap"

record http_request =
  hr_Method :: string
  hr_URL :: string
  hr_Body :: string
  hr_Header :: "string gomap"

text \<open>
  What \<^verbatim>\<open>Client.Do\<close> returns: an error, or a status code with the body (and the error of
  reading it to its end, after the part that was read).
\<close>

datatype http_answer = HttpError string | HttpAnswer int string "string option"

record http_outcome =
  ho_answer :: http_answer
  ho_DeadlineExceeded :: bool
  ho_duration :: int

text \<open>
  \<^verbatim>\<open>Header.Set\<close> stores under the canonical form of the name (\<open>canonical\<close>); the loop
  ranges over a map, so two names with one canonical form are set in range order.
\<close>

definition set_headers :: "(string \<Rightarrow> string) \<Rightarrow> rng \<Rightarrow> string gomap \<Rightarrow> http_request \<Rightarrow> http_request" where
  "set_headers canonical rng headers req =
     fold (\<lambda>k req. case map_of headers k of None \<Rightarrow> req
             | Some v \<Rightarrow> req\<lparr>hr_Header := AList.update (canonical k) v (hr_Header req)\<rparr>) (rng 0 (keys headers)) req"

text \<open>The decimal text of a number (\<^verbatim>\<open>%d\<close>).\<close>

fun digits :: "nat \<Rightarrow> string" where
  "digits n = (if n < 10 then [char_of (48 + n)] else digits (n div 10) @ [char_of (48 + n mod 10)])"

declare digits.simps [simp del]

definition decimal :: "int \<Rightarrow> string" where
  "decimal i = (if i < 0 then ''-'' @ digits (nat (- i)) else digits (nat i))"

definition http_Execute ::
  "(string \<Rightarrow> string + http_payload) \<Rightarrow> (string \<Rightarrow> string \<Rightarrow> string \<Rightarrow> string + http_request) \<Rightarrow> (string \<Rightarrow> string) \<Rightarrow>
   rng \<Rightarrow> (http_request \<Rightarrow> int \<Rightarrow> http_outcome) \<Rightarrow> TaskSpec \<Rightarrow> int \<Rightarrow> TaskResult \<times> string option" where
  "http_Execute unmarshal newRequest canonical rng do_request spec timeout =
     (case unmarshal (ts_Payload spec) of
        Inl err \<Rightarrow> (error_result (''invalid http payload: '' @ err), Some (''invalid http payload: '' @ err))
      | Inr p \<Rightarrow>
          if hp_URL p = '''' then
            (error_result ''url not found in task spec'', Some ''url not found in task spec'')
          else
            (let meth = (if hp_Method p = '''' then ''GET'' else hp_Method p)
             in case newRequest meth (hp_URL p) (hp_Body p) of
                  Inl err \<Rightarrow> (error_result err, Some (''build request: '' @ err))
                | Inr req \<Rightarrow>
                    (let out = do_request (set_headers canonical rng (hp_Headers p) req) timeout
                     in case ho_answer out of
                          HttpError err \<Rightarrow>
                            if ho_DeadlineExceeded out
                            then (zero_result\<lparr>tr_ExitCode := -1, tr_Error := ''task timed out'', tr_Duration := ho_duration out\<rparr>, None)
                            else (zero_result\<lparr>tr_ExitCode := -1, tr_Error := err, tr_Duration := ho_duration out\<rparr>, None)
                        | HttpAnswer code body readErr \<Rightarrow>
                            let result = zero_result\<lparr>tr_Stdout := body, tr_Duration := ho_duration out\<rparr>
                            in (case readErr of
                                  Some err \<Rightarrow> (result\<lparr>tr_ExitCode := -1, tr_Error := ''read response body: '' @ err\<rparr>, None)
                                | None \<Rightarrow>
                                    if code \<ge> 400
                                    then (result\<lparr>tr_ExitCode := code, tr_Error := ''unexpected status code: '' @ decimal code\<rparr>, None)
                                    else (result, None)))))"

section \<open>Properties\<close>

text \<open>
  \<open>RegisterExecutors\<close> registers exactly the executors of the worker's capabilities: when all
  capabilities exist it returns them unchanged and afterwards each is found with its own
  executor while every other type is looked up as before; otherwise it fails with an unknown
  capability of the list.
\<close>

theorem RegisterExecutors_correct:
  "case RegisterExecutors r capabilities of
     (Inr registered, r') \<Rightarrow> registered = capabilities \<and> (\<forall>c \<in> set capabilities. isExecutorExists c)
       \<and> (\<forall>t. ExecutorRegistry_Get t r' =
            (if t \<in> set capabilities then Inr (if t = ''shell'' then ShellExecutor else HttpExecutor)
             else ExecutorRegistry_Get t r))
   | (Inl err, r') \<Rightarrow> \<exists>c \<in> set capabilities. err = ExecutorDoesNotExist c \<and> c \<noteq> ''shell'' \<and> c \<noteq> ''http''"
proof (cases "\<forall>c \<in> set capabilities. isExecutorExists c")
  case True
  from register_loop_ok [OF True, of "[]" r] show ?thesis
    using True by (auto simp: RegisterExecutors_def ExecutorRegistry_Get_def split: prod.split sum.split)
next
  case False
  from register_loop_err [OF False, of "[]" r] show ?thesis
    by (auto simp: RegisterExecutors_def isExecutorExists_def split: prod.split sum.split)
qed

text \<open>
  What the shell executor reports for a payload that names a command: it fails with a Go
  error exactly when the command could not be started; otherwise the result shows success
  (exit code 0 and no error text) exactly when the command ended in time with exit code 0, a
  timeout is always a result with exit code -1, and the output is passed on unchanged.
\<close>

theorem shell_Execute_outcome:
  assumes "unmarshal (ts_Payload spec) = Inr p" and "sp_Command p \<noteq> ''''"
    and "out = run (sp_Command p) (sp_Args p) timeout"
  shows "case shell_Execute unmarshal run spec timeout of (result, err) \<Rightarrow>
     (err \<noteq> None \<longleftrightarrow> \<not> so_DeadlineExceeded out \<and> (\<exists>e. so_err out = RunFailed e))
     \<and> (err = None \<longrightarrow> (tr_ExitCode result = 0 \<and> tr_Error result = '''' \<longleftrightarrow>
          \<not> so_DeadlineExceeded out \<and> so_err out \<in> {RunOk, RunExit 0}))
     \<and> (so_DeadlineExceeded out \<longrightarrow> tr_ExitCode result = -1 \<and> tr_Error result = ''task timed out'')
     \<and> tr_Stdout result = so_Stdout out \<and> tr_Stderr result = so_Stderr out"
  using assms by (auto simp: shell_Execute_def Let_def zero_result_def split: run_error.splits)

definition echo_outcome :: shell_outcome where
  "echo_outcome = \<lparr>so_Stdout = ''hello'', so_Stderr = '''', so_err = RunOk, so_DeadlineExceeded = False, so_duration = 5\<rparr>"

theorem shell_Execute_outcome_witness:
  "tr_Stdout (fst (shell_Execute (\<lambda>s. Inr \<lparr>sp_Command = ''echo'', sp_Args = ''hello''\<rparr>) (\<lambda>c a t. echo_outcome)
      \<lparr>ts_Type = ''shell'', ts_Payload = ''{}''\<rparr> 30)) = ''hello''"
  using shell_Execute_outcome [of "\<lambda>s. Inr \<lparr>sp_Command = ''echo'', sp_Args = ''hello''\<rparr>"
      "\<lparr>ts_Type = ''shell'', ts_Payload = ''{}''\<rparr>" "\<lparr>sp_Command = ''echo'', sp_Args = ''hello''\<rparr>" echo_outcome "\<lambda>c a t. echo_outcome" 30]
  by (simp add: echo_outcome_def case_prod_beta)

end
