(* ===== verification/Worker_Task.thy ===== *)
theory Worker_Task
  imports Executors Worker_Registry
begin

text \<open>
  The worker's side of one task: the client to the control plane
  (\<^verbatim>\<open>worker/client/cluster_client.go\<close>) and the executable task
  (\<^verbatim>\<open>worker/models/executable_task.go\<close>), which runs an executor and reports.
  \<^verbatim>\<open>grpc.NewClient\<close> (\<open>dial\<close>) and the calls on a connection are parameters; the calls
  of one execution are numbered, so that each may answer differently.
\<close>

section \<open>The client of the control plane\<close>

record 'c ClusterClient =
  cc_addr :: string
  cc_conn :: "'c option"

definition NewClusterClient :: "string \<Rightarrow> 'c ClusterClient" where
  "NewClusterClient addr = \<lparr>cc_addr = addr, cc_conn = None\<rparr>"

datatype cluster_error = DialCluster string string | RegisterCall string | HeartbeatCall string
  | ReportResultCall string | CloseConnection string

definition ClusterClient_getOrDial ::
  "(string \<Rightarrow> string + 'c) \<Rightarrow> 'c ClusterClient \<Rightarrow> (cluster_error + 'c) \<times> 'c ClusterClient" where
  "ClusterClient_getOrDial dial c =
     (case cc_conn c of
        Some conn \<Rightarrow> (Inr conn, c)
      | None \<Rightarrow>
          (case dial (cc_addr c) of
             Inl err \<Rightarrow> (Inl (DialCluster (cc_addr c) err), c)
           | Inr conn \<Rightarrow> (Inr conn, c\<lparr>cc_conn := Some conn\<rparr>)))"

record RegisterResponse =
  rres_Accepted :: bool
  rres_Reason :: string

record HeartbeatRequest =
  hbr_WorkerId :: string
  hbr_RunningTasks :: int

record ResultRequest =
  res_WorkflowId :: string
  res_TaskId :: string
  res_Status :: TaskReportStatus
  res_ExitCode :: int
  res_Stdout :: string
  res_Stderr :: string
  res_Error :: string
  res_Duration :: int

definition ClusterClient_Register ::
  "(string \<Rightarrow> string + 'c) \<Rightarrow> ('c \<Rightarrow> RegisterRequest \<Rightarrow> string + RegisterResponse) \<Rightarrow> RegisterRequest \<Rightarrow>
   'c ClusterClient \<Rightarrow> (cluster_error + RegisterResponse) \<times> 'c ClusterClient" where
  "ClusterClient_Register dial call req c =
     (case ClusterClient_getOrDial dial c of
        (Inl err, c') \<Rightarrow> (Inl err, c')
      | (Inr conn, c') \<Rightarrow>
          (case call conn req of Inl err \<Rightarrow> (Inl (RegisterCall err), c') | Inr resp \<Rightarrow> (Inr resp, c')))"

definition ClusterClient_Heartbeat ::
  "(string \<Rightarrow> string + 'c) \<Rightarrow> ('c \<Rightarrow> HeartbeatRequest \<Rightarrow> string + bool) \<Rightarrow> HeartbeatRequest \<Rightarrow>
   'c ClusterClient \<Rightarrow> (cluster_error + bool) \<times> 'c ClusterClient" where
  "ClusterClient_Heartbeat dial call req c =
     (case ClusterClient_getOrDial dial c of
        (Inl err, c') \<Rightarrow> (Inl err, c')
      | (Inr conn, c') \<Rightarrow>
          (case call conn req of Inl err \<Rightarrow> (Inl (HeartbeatCall err), c') | Inr resp \<Rightarrow> (Inr resp, c')))"

definition ClusterClient_ReportResult ::
  "(string \<Rightarrow> string + 'c) \<Rightarrow> ('c \<Rightarrow> ResultRequest \<Rightarrow> string + bool) \<Rightarrow> ResultRequest \<Rightarrow>
   'c ClusterClient \<Rightarrow> (cluster_error + bool) \<times> 'c ClusterClient" where
  "ClusterClient_ReportResult dial call req c =
     (case ClusterClient_getOrDial dial c of
        (Inl err, c') \<Rightarrow> (Inl err, c')
      | (Inr conn, c') \<Rightarrow>
          (case call conn req of Inl err \<Rightarrow> (Inl (ReportResultCall err), c') | Inr resp \<Rightarrow> (Inr resp, c')))"

text \<open>\<open>closeErr\<close> is the error \<^verbatim>\<open>conn.Close\<close> returns, if any.\<close>

definition ClusterClient_Close ::
  "('c \<Rightarrow> string option) \<Rightarrow> 'c ClusterClient \<Rightarrow> cluster_error option \<times> 'c ClusterClient" where
  "ClusterClient_Close closeErr c =
     (case cc_conn c of
        None \<Rightarrow> (None, c)
      | Some conn \<Rightarrow> (map_option CloseConnection (closeErr conn), c\<lparr>cc_conn := None\<rparr>))"

section \<open>Executable tasks\<close>

definition retryBackoff :: int where
  "retryBackoff = 2 * Second"

record TaskInfo =
  ti_ID :: string
  ti_WorkflowID :: string
  ti_Spec :: TaskSpec
  ti_TimeoutInSeconds :: int

type_synonym executor = "TaskSpec \<Rightarrow> int \<Rightarrow> TaskResult \<times> string option"

record ExecutableTask =
  et_task :: TaskInfo
  et_exec :: executor

definition NewExecutableTask :: "TaskInfo \<Rightarrow> executor \<Rightarrow> ExecutableTask" where
  "NewExecutableTask task exec = \<lparr>et_task = task, et_exec = exec\<rparr>"

definition ExecutableTask_GetWaitDuration :: "ExecutableTask \<Rightarrow> int" where
  "ExecutableTask_GetWaitDuration t = retryBackoff"

text \<open>The request that \<^verbatim>\<open>sendStatus\<close> builds.\<close>

definition status_request :: "TaskInfo \<Rightarrow> TaskReportStatus \<Rightarrow> TaskResult option \<Rightarrow> ResultRequest" where
  "status_request task status taskResult =
     (let result = \<lparr>res_WorkflowId = ti_WorkflowID task, res_TaskId = ti_ID task, res_Status = status,
                    res_ExitCode = 0, res_Stdout = '''', res_Stderr = '''', res_Error = '''', res_Duration = 0\<rparr>
      in case taskResult of
           None \<Rightarrow> result
         | Some r \<Rightarrow> result\<lparr>res_ExitCode := int32 (tr_ExitCode r), res_Error := tr_Error r,
                            res_Stdout := tr_Stdout r, res_Stderr := tr_Stderr r\<rparr>)"

text \<open>
  \<^verbatim>\<open>sendStatus\<close> returns nothing; a failed report is only logged. The first component lists
  the reports the control plane has answered without error.
\<close>

type_synonym 'c reporter = "nat \<Rightarrow> 'c \<Rightarrow> ResultRequest \<Rightarrow> string + bool"

definition sendStatus ::
  "(string \<Rightarrow> string + 'c) \<Rightarrow> ('c \<Rightarrow> ResultRequest \<Rightarrow> string + bool) \<Rightarrow> ExecutableTask \<Rightarrow> TaskReportStatus \<Rightarrow>
   TaskResult option \<Rightarrow> 'c ClusterClient \<Rightarrow> ResultRequest list \<times> 'c ClusterClient" where
  "sendStatus dial call t status taskResult c =
     (let req = status_request (et_task t) status taskResult
      in case ClusterClient_ReportResult dial call req c of
           (Inl err, c') \<Rightarrow> ([], c')
         | (Inr resp, c') \<Rightarrow> ([req], c'))"

definition ExecutableTask_Do ::
  "(string \<Rightarrow> string + 'c) \<Rightarrow> 'c reporter \<Rightarrow> ExecutableTask \<Rightarrow> 'c ClusterClient \<Rightarrow>
   string option \<times> ResultRequest list \<times> 'c ClusterClient" where
  "ExecutableTask_Do dial report t c =
     (case sendStatus dial (report 0) t TASK_REPORT_RUNNING None c of
        (sent1, c1) \<Rightarrow>
          (let timeout = int64 (ti_TimeoutInSeconds (et_task t) * Second)
           in case et_exec t (ti_Spec (et_task t)) timeout of
                (result, Some err) \<Rightarrow> (Some (''execute task '' @ ti_ID (et_task t) @ '': '' @ err), sent1, c1)
              | (result, None) \<Rightarrow>
                  (let status = (if tr_ExitCode result \<noteq> 0 \<or> tr_Error result \<noteq> '''' then TASK_REPORT_FAILED else TASK_REPORT_SUCCEEDED)
                   in case sendStatus dial (report 1) t status (Some result) c1 of
                        (sent2, c2) \<Rightarrow> (None, sent1 @ sent2, c2))))"

section \<open>Properties\<close>

lemma getOrDial_conn:
  "ClusterClient_getOrDial dial c = (Inr conn, c') \<Longrightarrow> c' = c\<lparr>cc_conn := Some conn\<rparr>"
  by (cases c) (auto simp: ClusterClient_getOrDial_def split: option.splits sum.splits)

text \<open>
  C26. An execution that ends without a Go error is reported completely: with a control plane
  that can be dialed and answers, the reports are exactly RUNNING and then the outcome, for
  this task and workflow, with the result's output, error text and exit code; the outcome is
  SUCCEEDED exactly when the exit code is 0 and the error text empty, and nothing else is sent.
\<close>

theorem Do_reports_outcome:
  assumes "et_exec t (ti_Spec (et_task t)) (int64 (ti_TimeoutInSeconds (et_task t) * Second)) = (result, None)"
    and "fst (ClusterClient_getOrDial dial c) = Inr conn" and "\<forall>n req. \<exists>ok. report n conn req = Inr ok"
    and "- (2 ^ 31) \<le> tr_ExitCode result" "tr_ExitCode result < 2 ^ 31"
  shows "\<exists>first last c'. ExecutableTask_Do dial report t c = (None, [first, last], c')
     \<and> res_Status first = TASK_REPORT_RUNNING
     \<and> (res_Status last = TASK_REPORT_SUCCEEDED \<longleftrightarrow> tr_ExitCode result = 0 \<and> tr_Error result = '''')
     \<and> (res_Status last = TASK_REPORT_FAILED \<longleftrightarrow> \<not> (tr_ExitCode result = 0 \<and> tr_Error result = ''''))
     \<and> (\<forall>r \<in> {first, last}. res_TaskId r = ti_ID (et_task t) \<and> res_WorkflowId r = ti_WorkflowID (et_task t))
     \<and> res_ExitCode last = tr_ExitCode result \<and> res_Stdout last = tr_Stdout result
     \<and> res_Stderr last = tr_Stderr result \<and> res_Error last = tr_Error result"
proof -
  obtain c1 where d: "ClusterClient_getOrDial dial c = (Inr conn, c1)" using assms(2) by (cases "ClusterClient_getOrDial dial c") auto
  have c1: "cc_conn c1 = Some conn" using getOrDial_conn [OF d] by simp
  have sent: "sendStatus dial (report n) t status r c' = ([status_request (et_task t) status r], c1)"
    if "c' = c \<or> c' = c1" for n status r c'
  proof -
    have "ClusterClient_getOrDial dial c' = (Inr conn, c1)" using that d c1 by (auto simp: ClusterClient_getOrDial_def)
    moreover obtain ok where "report n conn (status_request (et_task t) status r) = Inr ok" using assms(3) by blast
    ultimately show ?thesis by (simp add: sendStatus_def ClusterClient_ReportResult_def)
  qed
  show ?thesis
    using assms(1,4,5) by (auto simp: ExecutableTask_Do_def sent Let_def status_request_def int32_id)
qed

definition demo_task :: ExecutableTask where
  "demo_task = NewExecutableTask \<lparr>ti_ID = ''t'', ti_WorkflowID = ''wf'', ti_Spec = \<lparr>ts_Type = '''', ts_Payload = ''p''\<rparr>, ti_TimeoutInSeconds = 30\<rparr>
     (shell_Execute (\<lambda>s. Inr \<lparr>sp_Command = ''echo'', sp_Args = s\<rparr>) (\<lambda>c a t. echo_outcome))"

theorem Do_reports_outcome_witness:
  "\<exists>first last c'. ExecutableTask_Do (\<lambda>a. Inr a) (\<lambda>n conn req. Inr True) demo_task (NewClusterClient ''cp:1'') = (None, [first, last], c')
     \<and> res_Status last = TASK_REPORT_SUCCEEDED \<and> res_Stdout last = ''hello''"
proof -
  let ?r = "zero_result\<lparr>tr_Stdout := ''hello'', tr_Duration := 5\<rparr>"
  have x: "et_exec demo_task (ti_Spec (et_task demo_task)) (int64 (ti_TimeoutInSeconds (et_task demo_task) * Second)) = (?r, None)"
    by (simp add: demo_task_def NewExecutableTask_def shell_Execute_def echo_outcome_def zero_result_def Let_def)
  have d: "fst (ClusterClient_getOrDial (\<lambda>a. Inr a) (NewClusterClient ''cp:1'')) = Inr ''cp:1''"
    by (simp add: ClusterClient_getOrDial_def NewClusterClient_def)
  from Do_reports_outcome [OF x d, of "\<lambda>n conn req. Inr True"] show ?thesis by (fastforce simp: zero_result_def)
qed

text \<open>An execution that ends with a Go error.\<close>

definition exec_error :: "ExecutableTask \<Rightarrow> string option" where
  "exec_error t = snd (et_exec t (ti_Spec (et_task t)) (int64 (ti_TimeoutInSeconds (et_task t) * Second)))"

lemma Do_error_iff: "fst (ExecutableTask_Do dial report t c) = None \<longleftrightarrow> exec_error t = None"
  by (auto simp: ExecutableTask_Do_def exec_error_def Let_def split: prod.splits option.splits)

lemma Do_error_reports:
  "exec_error t \<noteq> None \<Longrightarrow> \<forall>r \<in> set (fst (snd (ExecutableTask_Do dial report t c))).
     res_Status r = TASK_REPORT_RUNNING \<and> res_TaskId r = ti_ID (et_task t)"
  by (auto simp: ExecutableTask_Do_def exec_error_def sendStatus_def status_request_def Let_def
      split: prod.splits sum.splits option.splits)

end
