(* ===== verification/Heap_Order.thy ===== *)
theory Heap_Order
  imports Prelude
begin

text \<open>
  The order argument behind \<^verbatim>\<open>container/heap\<close>, on a key function over positions:
  position \<open>i > 0\<close> has its parent at \<open>(i - 1) div 2\<close>. \<open>up_inv\<close> and \<open>down_inv\<close> are
  the invariants of the loops \<^verbatim>\<open>up\<close> and \<^verbatim>\<open>down\<close>, which move one key.
\<close>

definition par :: "nat \<Rightarrow> nat" where
  "par i = (i - 1) div 2"

definition heap_ok :: "(nat \<Rightarrow> int) \<Rightarrow> nat \<Rightarrow> bool" where
  "heap_ok f n \<longleftrightarrow> (\<forall>i. 0 < i \<and> i < n \<longrightarrow> f (par i) \<le> f i)"

definition up_inv :: "(nat \<Rightarrow> int) \<Rightarrow> nat \<Rightarrow> nat \<Rightarrow> bool" where
  "up_inv f n j \<longleftrightarrow> (\<forall>i. 0 < i \<and> i < n \<and> i \<noteq> j \<longrightarrow> f (par i) \<le> f i)
     \<and> (\<forall>i. 0 < i \<and> i < n \<and> par i = j \<and> 0 < j \<longrightarrow> f (par j) \<le> f i)"

definition down_inv :: "(nat \<Rightarrow> int) \<Rightarrow> nat \<Rightarrow> nat \<Rightarrow> bool" where
  "down_inv f n i \<longleftrightarrow> (\<forall>c. 0 < c \<and> c < n \<and> par c \<noteq> i \<longrightarrow> f (par c) \<le> f c)
     \<and> (\<forall>c. 0 < c \<and> c < n \<and> par c = i \<and> 0 < i \<longrightarrow> f (par i) \<le> f c)"

definition swapped :: "(nat \<Rightarrow> 'a) \<Rightarrow> nat \<Rightarrow> nat \<Rightarrow> nat \<Rightarrow> 'a" where
  "swapped f i j = f(i := f j, j := f i)"

lemma par_less: "0 < i \<Longrightarrow> par i < i"
  by (simp add: par_def)

lemma par_children: "0 < c \<Longrightarrow> par c = i \<longleftrightarrow> c = 2 * i + 1 \<or> c = 2 * i + 2"
  by (auto simp: par_def)

lemma heap_root: "heap_ok f n \<Longrightarrow> i < n \<Longrightarrow> f 0 \<le> f i"
proof (induction i rule: less_induct)
  case (less i)
  show ?case
  proof (cases "i = 0")
    case False
    with less par_less [of i] have "f 0 \<le> f (par i)" by simp
    also have "\<dots> \<le> f i" using less.prems False by (simp add: heap_ok_def)
    finally show ?thesis .
  qed simp
qed

lemma heap_ok_mono: "heap_ok f n \<Longrightarrow> m \<le> n \<Longrightarrow> heap_ok f m"
  by (simp add: heap_ok_def)

lemma up_inv_done: "up_inv f n j \<Longrightarrow> j = 0 \<or> f (par j) \<le> f j \<Longrightarrow> heap_ok f n"
  unfolding up_inv_def heap_ok_def by blast

lemma up_inv_append: "heap_ok f n \<Longrightarrow> up_inv f (Suc n) n"
  unfolding up_inv_def heap_ok_def using par_less by (metis less_SucE not_less_iff_gr_or_eq)

lemma up_inv_step:
  assumes inv: "up_inv f n j" and j: "0 < j" "j < n" and less: "f j < f (par j)"
  shows "up_inv (swapped f (par j) j) n (par j)"
proof -
  let ?g = "swapped f (par j) j" and ?p = "par j"
  have pj: "?p < j" using par_less [OF j(1)] .
  have edge: "f (par i) \<le> f i" if "0 < i" "i < n" "i \<noteq> j" for i
    using inv that by (simp add: up_inv_def)
  have grand: "f ?p \<le> f i" if "0 < i" "i < n" "par i = j" for i
    using inv that j by (simp add: up_inv_def)
  have g: "?g ?p = f j" "?g j = f ?p" "\<And>x. x \<noteq> ?p \<Longrightarrow> x \<noteq> j \<Longrightarrow> ?g x = f x"
    using pj by (simp_all add: swapped_def)
  have "?g (par i) \<le> ?g i" if "0 < i" "i < n" "i \<noteq> ?p" for i
  proof (cases "i = j")
    case True
    then show ?thesis using g less by simp
  next
    case False
    consider "par i = j" | "par i = ?p" | "par i \<noteq> j" "par i \<noteq> ?p" by blast
    then show ?thesis
    proof cases
      case 1
      then show ?thesis using g grand [OF that(1,2)] that(3) False by simp
    next
      case 2
      then have "f ?p \<le> f i" using edge [OF that(1,2) False] by simp
      with 2 g less that(3) False show ?thesis by simp
    next
      case 3
      then show ?thesis using g edge [OF that(1,2) False] that(3) False by simp
    qed
  qed
  moreover have "?g (par ?p) \<le> ?g i" if "0 < i" "i < n" "par i = ?p" "0 < ?p" for i
  proof -
    have pp: "par ?p < ?p" using par_less [OF that(4)] .
    then have gp: "?g (par ?p) = f (par ?p)" using g(3) pj by simp
    have up: "f (par ?p) \<le> f ?p" using edge [of ?p] that(4) pj j(2) by simp
    show ?thesis
    proof (cases "i = j")
      case True
      then show ?thesis using gp up g(2) by simp
    next
      case False
      have "i \<noteq> ?p" using par_less [OF that(1)] that(3) by auto
      moreover have "f ?p \<le> f i" using edge [OF that(1,2) False] that(3) by simp
      ultimately show ?thesis using gp up g(3) False by simp
    qed
  qed
  ultimately show ?thesis unfolding up_inv_def by blast
qed

lemma down_inv_done:
  "down_inv f n i \<Longrightarrow> (\<And>c. 0 < c \<Longrightarrow> c < n \<Longrightarrow> par c = i \<Longrightarrow> f i \<le> f c) \<Longrightarrow> heap_ok f n"
  unfolding down_inv_def heap_ok_def by blast

text \<open>The smaller child moves up; the moved key sinks to its place.\<close>

lemma down_inv_step:
  assumes inv: "down_inv f n i" and c: "0 < c" "c < n" "par c = i"
    and min: "\<And>d. 0 < d \<Longrightarrow> d < n \<Longrightarrow> par d = i \<Longrightarrow> f c \<le> f d" and less: "f c < f i"
  shows "down_inv (swapped f i c) n c"
proof -
  let ?g = "swapped f i c"
  have ic: "i < c" using par_less [OF c(1)] c(3) by simp
  have g: "?g i = f c" "?g c = f i" "\<And>x. x \<noteq> i \<Longrightarrow> x \<noteq> c \<Longrightarrow> ?g x = f x"
    using ic by (simp_all add: swapped_def)
  have edge: "f (par d) \<le> f d" if "0 < d" "d < n" "par d \<noteq> i" for d
    using inv that by (simp add: down_inv_def)
  have grand: "f (par i) \<le> f d" if "0 < d" "d < n" "par d = i" "0 < i" for d
    using inv that by (simp add: down_inv_def)
  have "?g (par d) \<le> ?g d" if "0 < d" "d < n" "par d \<noteq> c" for d
  proof (cases "par d = i")
    case True
    show ?thesis
    proof (cases "d = c")
      case False
      have "d \<noteq> i" using par_less [OF that(1)] True by auto
      then show ?thesis using True False g min [OF that(1,2) True] by simp
    qed (use True g less in simp)
  next
    case False
    have "d \<noteq> c" using False c(3) by auto
    show ?thesis
    proof (cases "d = i")
      case True
      then have "?g (par d) = f (par i)" using g(3) par_less [OF that(1)] ic that(3) by simp
      with True g(1) grand [OF c] that(1) show ?thesis by simp
    next
      case di: False
      then show ?thesis using g(3) \<open>d \<noteq> c\<close> False that edge [OF that(1,2) False] by simp
    qed
  qed
  moreover have "?g (par c) \<le> ?g d" if "0 < d" "d < n" "par d = c" for d
  proof -
    have "d \<noteq> c" "d \<noteq> i" using par_less [OF that(1)] that(3) ic by auto
    moreover have "f c \<le> f d" using edge [OF that(1,2)] that(3) ic by simp
    ultimately show ?thesis using g c(3) by simp
  qed
  ultimately show ?thesis unfolding down_inv_def by blast
qed

text \<open>After the last element has replaced the root, only the root is out of place.\<close>

lemma down_inv_root: "(\<And>i. 0 < i \<Longrightarrow> i < n \<Longrightarrow> par i \<noteq> 0 \<Longrightarrow> f (par i) \<le> f i) \<Longrightarrow> down_inv f n 0"
  by (simp add: down_inv_def)


end
