(* ===== verification/Priority_Queue.thy ===== *)
theory Priority_Queue
  imports Heap_Order "HOL-Library.Word"
begin

text \<open>
  The retry queue of the worker pool, \<^verbatim>\<open>pkg/worker_pool/priority_queue.go\<close>, with the
  functions of Go's \<^verbatim>\<open>container/heap\<close> it is built on. Items are shared by pointer, so
  they live in a store (\<open>pq_store\<close>) and the array \<open>pq_items\<close> holds addresses; each item
  records its position in the array (\<open>x_index\<close>), which \<^verbatim>\<open>Update\<close> relies on.
\<close>

section \<open>The code\<close>

record 'a ItemPQ =
  x_Value :: 'a
  x_index :: int
  x_waitToTime :: int

record 'a PriorityQueue =
  pq_store :: "'a ItemPQ list"
  pq_items :: "nat list"
  pq_seq :: "64 word"

definition pq_key :: "'a PriorityQueue \<Rightarrow> nat \<Rightarrow> int" where
  "pq_key pq i = x_waitToTime (pq_store pq ! (pq_items pq ! i))"

definition PQ_Len :: "'a PriorityQueue \<Rightarrow> nat" where
  "PQ_Len pq = length (pq_items pq)"

definition PQ_Less :: "'a PriorityQueue \<Rightarrow> nat \<Rightarrow> nat \<Rightarrow> bool" where
  "PQ_Less pq i j \<longleftrightarrow> pq_key pq i < pq_key pq j"

definition set_index :: "nat \<Rightarrow> int \<Rightarrow> 'a ItemPQ list \<Rightarrow> 'a ItemPQ list" where
  "set_index a i s = s[a := (s ! a)\<lparr>x_index := i\<rparr>]"

definition PQ_Swap :: "nat \<Rightarrow> nat \<Rightarrow> 'a PriorityQueue \<Rightarrow> 'a PriorityQueue" where
  "PQ_Swap i j pq =
     (let items = (pq_items pq)[i := pq_items pq ! j, j := pq_items pq ! i]
      in pq\<lparr>pq_items := items,
            pq_store := set_index (items ! j) (int j) (set_index (items ! i) (int i) (pq_store pq))\<rparr>)"

text \<open>\<^verbatim>\<open>heap.up\<close>: for \<open>j = 0\<close> Go's truncated division gives \<open>i = 0 = j\<close>.\<close>

function heap_up :: "nat \<Rightarrow> 'a PriorityQueue \<Rightarrow> 'a PriorityQueue" where
  "heap_up j pq = (if j = 0 \<or> \<not> PQ_Less pq j (par j) then pq else heap_up (par j) (PQ_Swap (par j) j pq))"
  by pat_completeness auto
termination by (relation "measure fst") (auto simp: par_less)

definition down_child :: "nat \<Rightarrow> nat \<Rightarrow> 'a PriorityQueue \<Rightarrow> nat" where
  "down_child i n pq =
     (if 2 * i + 2 < n \<and> PQ_Less pq (2 * i + 2) (2 * i + 1) then 2 * i + 2 else 2 * i + 1)"

function heap_down_loop :: "nat \<Rightarrow> nat \<Rightarrow> 'a PriorityQueue \<Rightarrow> nat \<times> 'a PriorityQueue" where
  "heap_down_loop i n pq =
     (if n \<le> 2 * i + 1 then (i, pq)
      else (let j = down_child i n pq
            in if \<not> PQ_Less pq j i then (i, pq) else heap_down_loop j n (PQ_Swap i j pq)))"
  by pat_completeness auto
termination by (relation "measure (\<lambda>(i, n, pq). n - i)") (auto simp: down_child_def split: if_splits)

definition heap_down :: "nat \<Rightarrow> nat \<Rightarrow> 'a PriorityQueue \<Rightarrow> bool \<times> 'a PriorityQueue" where
  "heap_down i0 n pq = (case heap_down_loop i0 n pq of (i, pq') \<Rightarrow> (i0 < i, pq'))"

definition heap_Fix :: "nat \<Rightarrow> 'a PriorityQueue \<Rightarrow> 'a PriorityQueue" where
  "heap_Fix i pq = (case heap_down i (PQ_Len pq) pq of (moved, pq') \<Rightarrow> if moved then pq' else heap_up i pq')"

fun heap_Init_loop :: "nat \<Rightarrow> 'a PriorityQueue \<Rightarrow> 'a PriorityQueue" where
  "heap_Init_loop 0 pq = pq"
| "heap_Init_loop (Suc i) pq = heap_Init_loop i (snd (heap_down i (PQ_Len pq) pq))"

definition heap_Init :: "'a PriorityQueue \<Rightarrow> 'a PriorityQueue" where
  "heap_Init pq = heap_Init_loop (PQ_Len pq div 2) pq"

definition NewPriorityQueue :: "'a PriorityQueue" where
  "NewPriorityQueue = heap_Init \<lparr>pq_store = [], pq_items = [], pq_seq = 0\<rparr>"

definition PQ_Push :: "nat \<Rightarrow> 'a PriorityQueue \<Rightarrow> 'a PriorityQueue" where
  "PQ_Push a pq = pq\<lparr>pq_store := set_index a (int (PQ_Len pq)) (pq_store pq), pq_items := pq_items pq @ [a]\<rparr>"

definition heap_Push :: "nat \<Rightarrow> 'a PriorityQueue \<Rightarrow> 'a PriorityQueue" where
  "heap_Push a pq = (let pq' = PQ_Push a pq in heap_up (PQ_Len pq' - 1) pq')"

text \<open>\<^verbatim>\<open>Pop\<close> of the interface and of the package; on an empty array both index out of range.\<close>

definition PQ_Pop :: "'a PriorityQueue \<Rightarrow> (nat \<times> 'a PriorityQueue) option" where
  "PQ_Pop pq =
     (if pq_items pq = [] then None
      else (let a = last (pq_items pq)
            in Some (a, pq\<lparr>pq_store := set_index a (- 1) (pq_store pq), pq_items := butlast (pq_items pq)\<rparr>)))"

definition heap_Pop :: "'a PriorityQueue \<Rightarrow> (nat \<times> 'a PriorityQueue) option" where
  "heap_Pop pq =
     (if pq_items pq = [] then None
      else (let n = PQ_Len pq - 1 in PQ_Pop (snd (heap_down 0 n (PQ_Swap 0 n pq)))))"

definition PQ_Top :: "'a PriorityQueue \<Rightarrow> nat option" where
  "PQ_Top pq = (if pq_items pq = [] then None else Some (pq_items pq ! 0))"

text \<open>
  \<^verbatim>\<open>Update\<close> follows the item's index. For the index \<open>-1\<close> of a popped item both loops
  of \<^verbatim>\<open>heap.Fix\<close> stop at once; any other index outside the array is out of range.
\<close>

definition PQ_Update :: "nat \<Rightarrow> 'a \<Rightarrow> 'a PriorityQueue \<Rightarrow> 'a PriorityQueue option" where
  "PQ_Update a v pq =
     (let pq' = pq\<lparr>pq_store := (pq_store pq)[a := (pq_store pq ! a)\<lparr>x_Value := v\<rparr>]\<rparr>;
          i = x_index (pq_store pq' ! a)
      in if i = - 1 then Some pq'
         else if 0 \<le> i \<and> i < int (PQ_Len pq') then Some (heap_Fix (nat i) pq') else None)"

text \<open>The caller passes a fresh item.\<close>

definition PQ_Enqueue :: "'a \<Rightarrow> int \<Rightarrow> 'a PriorityQueue \<Rightarrow> 'a PriorityQueue" where
  "PQ_Enqueue v wait pq =
     (let a = length (pq_store pq)
      in heap_Push a (pq\<lparr>pq_store := pq_store pq @ [\<lparr>x_Value = v, x_index = 0, x_waitToTime = wait\<rparr>],
                         pq_seq := pq_seq pq + 1\<rparr>))"

definition PQ_Dequeue :: "'a PriorityQueue \<Rightarrow> ('a option \<times> 'a PriorityQueue) option" where
  "PQ_Dequeue pq =
     (if pq_items pq = [] then Some (None, pq)
      else map_option (\<lambda>(a, pq'). (Some (x_Value (pq_store pq' ! a)), pq')) (heap_Pop pq))"

definition PQ_Peek :: "'a PriorityQueue \<Rightarrow> 'a option" where
  "PQ_Peek pq = (if pq_items pq = [] then None else Some (x_Value (pq_store pq ! (pq_items pq ! 0))))"

definition PQ_Size :: "'a PriorityQueue \<Rightarrow> nat" where
  "PQ_Size pq = length (pq_items pq)"

declare heap_up.simps [simp del]
declare heap_down_loop.simps [simp del]

section \<open>What the heap functions keep\<close>

definition content :: "'a PriorityQueue \<Rightarrow> nat \<Rightarrow> int \<times> 'a" where
  "content pq a = (x_waitToTime (pq_store pq ! a), x_Value (pq_store pq ! a))"

definition elems :: "'a PriorityQueue \<Rightarrow> (int \<times> 'a) multiset" where
  "elems pq = image_mset (content pq) (mset (pq_items pq))"

definition shape_ok :: "'a PriorityQueue \<Rightarrow> bool" where
  "shape_ok pq \<longleftrightarrow> distinct (pq_items pq) \<and> (\<forall>a \<in> set (pq_items pq). a < length (pq_store pq))
     \<and> (\<forall>i < PQ_Len pq. x_index (pq_store pq ! (pq_items pq ! i)) = int i)"

definition rearranged :: "'a PriorityQueue \<Rightarrow> 'a PriorityQueue \<Rightarrow> bool" where
  "rearranged pq r \<longleftrightarrow> shape_ok r \<and> mset (pq_items r) = mset (pq_items pq) \<and> content r = content pq
     \<and> length (pq_store r) = length (pq_store pq)"

lemma rearranged_refl [simp]: "shape_ok pq \<Longrightarrow> rearranged pq pq"
  by (simp add: rearranged_def)

lemma rearranged_trans: "rearranged a b \<Longrightarrow> rearranged b c \<Longrightarrow> rearranged a c"
  by (simp add: rearranged_def)

lemma rearranged_Len: "rearranged pq r \<Longrightarrow> PQ_Len r = PQ_Len pq"
  unfolding rearranged_def PQ_Len_def by (metis mset_eq_length)

lemma rearranged_elems: "rearranged pq r \<Longrightarrow> elems r = elems pq"
  by (simp add: rearranged_def elems_def)

lemma pq_key_content: "pq_key pq i = fst (content pq (pq_items pq ! i))"
  by (simp add: pq_key_def content_def)

lemma content_set_index: 
  "x_waitToTime (set_index a i s ! b) = x_waitToTime (s ! b)" "x_Value (set_index a i s ! b) = x_Value (s ! b)"
  "length (set_index a i s) = length s"
proof -
  have "s[a := (s ! a)\<lparr>x_index := i\<rparr>] ! b = (if a = b \<and> a < length s then (s ! a)\<lparr>x_index := i\<rparr> else s ! b)"
    by (cases "a < length s") (simp_all add: nth_list_update list_update_beyond)
  then show "x_waitToTime (set_index a i s ! b) = x_waitToTime (s ! b)" "x_Value (set_index a i s ! b) = x_Value (s ! b)"
    by (simp_all add: set_index_def)
  show "length (set_index a i s) = length s" by (simp add: set_index_def)
qed

lemma index_set_index:
  "b < length s \<Longrightarrow> x_index (set_index a i s ! b) = (if b = a then i else x_index (s ! b))"
  by (simp add: set_index_def nth_list_update)

lemma mset_swap_items: "i < length xs \<Longrightarrow> j < length xs \<Longrightarrow> mset (xs[i := xs ! j, j := xs ! i]) = mset xs"
  by (cases "i \<le> j") (simp_all add: mset_swap list_update_swap)

lemma PQ_Swap_rearranged:
  assumes shape: "shape_ok pq" and i: "i < PQ_Len pq" and j: "j < PQ_Len pq"
  shows "rearranged pq (PQ_Swap i j pq)"
    and "k < PQ_Len pq \<Longrightarrow> pq_items (PQ_Swap i j pq) ! k = swapped (\<lambda>k. pq_items pq ! k) i j k"
proof -
  let ?items = "(pq_items pq)[i := pq_items pq ! j, j := pq_items pq ! i]"
  let ?r = "PQ_Swap i j pq"
  have r: "pq_items ?r = ?items"
    "pq_store ?r = set_index (?items ! j) (int j) (set_index (?items ! i) (int i) (pq_store pq))"
    by (simp_all add: PQ_Swap_def Let_def)
  have len: "length ?items = PQ_Len pq" by (simp add: PQ_Len_def)
  have ms: "mset ?items = mset (pq_items pq)" using i j by (simp add: mset_swap_items PQ_Len_def)
  then have dist: "distinct ?items" and sub: "set ?items = set (pq_items pq)"
    using shape mset_eq_imp_distinct_iff [OF ms] mset_eq_setD [OF ms] by (simp_all add: shape_ok_def)
  have bound: "?items ! k < length (pq_store pq)" if "k < PQ_Len pq" for k
    using that sub shape nth_mem [of k ?items] len by (auto simp: shape_ok_def)
  have nth: "?items ! k = swapped (\<lambda>k. pq_items pq ! k) i j k" if "k < PQ_Len pq" for k
    using that i j by (auto simp: swapped_def PQ_Len_def nth_list_update)
  then show "k < PQ_Len pq \<Longrightarrow> pq_items ?r ! k = swapped (\<lambda>k. pq_items pq ! k) i j k" by (simp only: r)
  have "x_index (pq_store ?r ! (?items ! k)) = int k" if k: "k < PQ_Len pq" for k
  proof -
    have eq: "?items ! k = ?items ! l \<longleftrightarrow> k = l" if "l < PQ_Len pq" for l
      using dist that k len by (simp add: nth_eq_iff_index_eq)
    have old: "x_index (pq_store pq ! (pq_items pq ! k)) = int k" using shape k by (simp add: shape_ok_def)
    have "k \<noteq> i \<Longrightarrow> k \<noteq> j \<Longrightarrow> ?items ! k = pq_items pq ! k" using nth [OF k] by (simp add: swapped_def)
    then show ?thesis
      unfolding r(2) using bound [OF k] eq [OF i] eq [OF j] old
      by (auto simp: index_set_index content_set_index)
  qed
  moreover have "content ?r = content pq"
    by (intro ext) (simp add: content_def r(2) content_set_index)
  ultimately show "rearranged pq ?r"
    using dist sub bound ms shape r by (auto simp: rearranged_def shape_ok_def PQ_Len_def content_set_index)
qed

lemma PQ_Swap_key:
  assumes "shape_ok pq" "i < PQ_Len pq" "j < PQ_Len pq" "k < PQ_Len pq"
  shows "pq_key (PQ_Swap i j pq) k = swapped (pq_key pq) i j k"
  using PQ_Swap_rearranged [OF assms(1-3)] assms(4)
  by (simp add: pq_key_content rearranged_def swapped_def fun_upd_def)

lemma order_cong:
  assumes "\<And>i. i < n \<Longrightarrow> f i = g i"
  shows "heap_ok f n = heap_ok g n" "up_inv f n j = up_inv g n j" "down_inv f n j = down_inv g n j"
proof -
  have p: "f (par i) = g (par i)" if "0 < i" "i < n" for i using assms [of "par i"] par_less [OF that(1)] that by simp
  have pp: "f (par (par i)) = g (par (par i))" if "0 < par i" "0 < i" "i < n" for i
    using p [of "par i"] par_less [OF that(2)] that by simp
  show "heap_ok f n = heap_ok g n" unfolding heap_ok_def using p assms by auto
  show "up_inv f n j = up_inv g n j" unfolding up_inv_def using p assms pp by auto
  show "down_inv f n j = down_inv g n j" unfolding down_inv_def using p assms pp by auto
qed

lemma heap_up_spec:
  assumes "shape_ok pq" "j < PQ_Len pq" "up_inv (pq_key pq) (PQ_Len pq) j"
  shows "rearranged pq (heap_up j pq) \<and> heap_ok (pq_key (heap_up j pq)) (PQ_Len pq)"
  using assms
proof (induction j pq rule: heap_up.induct)
  case (1 j pq)
  show ?case
  proof (cases "j = 0 \<or> \<not> PQ_Less pq j (par j)")
    case True
    then have "heap_up j pq = pq" by (simp add: heap_up.simps)
    moreover have "heap_ok (pq_key pq) (PQ_Len pq)"
      using up_inv_done [OF "1.prems"(3)] True by (auto simp: PQ_Less_def)
    ultimately show ?thesis using "1.prems"(1) by simp
  next
    case False
    then have j: "0 < j" "pq_key pq j < pq_key pq (par j)" by (simp_all add: PQ_Less_def)
    have p: "par j < PQ_Len pq" using par_less [OF j(1)] "1.prems"(2) by simp
    let ?r = "PQ_Swap (par j) j pq"
    note r = PQ_Swap_rearranged(1) [OF "1.prems"(1) p "1.prems"(2)]
    have "up_inv (pq_key ?r) (PQ_Len pq) (par j)"
      using up_inv_step [OF "1.prems"(3) j(1) "1.prems"(2) j(2)]
        order_cong(2) [of "PQ_Len pq" "pq_key ?r" "swapped (pq_key pq) (par j) j" "par j"]
        PQ_Swap_key [OF "1.prems"(1) p "1.prems"(2)] by simp
    then have "rearranged ?r (heap_up (par j) ?r) \<and> heap_ok (pq_key (heap_up (par j) ?r)) (PQ_Len pq)"
      using "1.IH" [OF False] r p rearranged_Len [OF r] by (simp add: rearranged_def)
    moreover have "heap_up j pq = heap_up (par j) ?r" using False by (simp add: heap_up.simps [of j])
    ultimately show ?thesis using rearranged_trans [OF r] by simp
  qed
qed


lemma heap_down_loop_spec:
  assumes "shape_ok pq" "n \<le> PQ_Len pq" "down_inv (pq_key pq) n i" "heap_down_loop i n pq = (i', r)"
  shows "rearranged pq r \<and> heap_ok (pq_key r) n \<and> (\<forall>k. n \<le> k \<longrightarrow> k < PQ_Len pq \<longrightarrow> pq_items r ! k = pq_items pq ! k)
    \<and> i \<le> i' \<and> (i' = i \<longrightarrow> r = pq)"
  using assms
proof (induction i n pq arbitrary: i' r rule: heap_down_loop.induct)
  case (1 i n pq)
  let ?j = "down_child i n pq"
  have child: "c = 2 * i + 1 \<or> c = 2 * i + 2" if "0 < c" "par c = i" for c using par_children that by blast
  show ?case
  proof (cases "n \<le> 2 * i + 1")
    case True
    then have "heap_down_loop i n pq = (i, pq)" by (simp add: heap_down_loop.simps)
    moreover have "heap_ok (pq_key pq) n"
    proof (rule down_inv_done [OF "1.prems"(3)])
      show "pq_key pq i \<le> pq_key pq c" if "0 < c" "c < n" "par c = i" for c
        using child [OF that(1,3)] that(2) True by auto
    qed
    ultimately show ?thesis using "1.prems" by simp
  next
    case in_range: False
    then have j: "0 < ?j" "?j < n" "par ?j = i" "i < ?j"
      by (auto simp: down_child_def par_def)
    have min: "pq_key pq ?j \<le> pq_key pq c" if "0 < c" "c < n" "par c = i" for c
      using child [OF that(1,3)] that(2) by (auto simp: down_child_def PQ_Less_def)
    show ?thesis
    proof (cases "PQ_Less pq ?j i")
      case False
      then have "heap_down_loop i n pq = (i, pq)" using in_range by (simp add: heap_down_loop.simps)
      moreover have "heap_ok (pq_key pq) n"
      proof (rule down_inv_done [OF "1.prems"(3)])
        show "pq_key pq i \<le> pq_key pq c" if "0 < c" "c < n" "par c = i" for c
          using min [OF that] False unfolding PQ_Less_def by linarith
      qed
      ultimately show ?thesis using "1.prems" by simp
    next
      case True
      let ?s = "PQ_Swap i ?j pq"
      have ij: "i < PQ_Len pq" "?j < PQ_Len pq" using j "1.prems"(2) by simp_all
      note s = PQ_Swap_rearranged [OF "1.prems"(1) ij]
      have less: "pq_key pq ?j < pq_key pq i" using True by (simp only: PQ_Less_def)
      have "pq_key ?s k = swapped (pq_key pq) i ?j k" if "k < n" for k
        using PQ_Swap_key [OF "1.prems"(1) ij, of k] that "1.prems"(2) by simp
      then have "down_inv (pq_key ?s) n ?j = down_inv (swapped (pq_key pq) i ?j) n ?j" by (rule order_cong(3))
      with down_inv_step [OF "1.prems"(3) j(1-3) min less] have "down_inv (pq_key ?s) n ?j" by blast
      moreover have "heap_down_loop ?j n ?s = (i', r)"
        using "1.prems"(4) True in_range by (simp add: heap_down_loop.simps [of i] Let_def)
      ultimately have IH: "rearranged ?s r \<and> heap_ok (pq_key r) n
          \<and> (\<forall>k. n \<le> k \<longrightarrow> k < PQ_Len ?s \<longrightarrow> pq_items r ! k = pq_items ?s ! k) \<and> ?j \<le> i'"
        using "1.IH" [OF in_range refl, of i' r] True s(1) "1.prems"(2) rearranged_Len [OF s(1)]
        by (simp add: rearranged_def)
      have "pq_items ?s ! k = pq_items pq ! k" if "n \<le> k" "k < PQ_Len pq" for k
        using s(2) [OF that(2)] that j by (simp add: swapped_def)
      with IH show ?thesis
        using rearranged_trans [OF s(1)] rearranged_Len [OF s(1)] j(4) by auto
    qed
  qed
qed

section \<open>The contract of a priority queue\<close>

text \<open>\<open>rep q M\<close>: the queue holds the multiset \<open>M\<close> of values with their keys.\<close>

fun drain :: "('q \<Rightarrow> ('a option \<times> 'q) option) \<Rightarrow> nat \<Rightarrow> 'q \<Rightarrow> ('a list \<times> 'q) option" where
  "drain deq 0 q = Some ([], q)"
| "drain deq (Suc n) q =
     (case deq q of
        None \<Rightarrow> None
      | Some (None, q') \<Rightarrow> drain deq n q'
      | Some (Some v, q') \<Rightarrow> map_option (\<lambda>(vs, q''). (v # vs, q'')) (drain deq n q'))"

locale priority_queue =
  fixes empty :: 'q
    and enq :: "'a \<Rightarrow> int \<Rightarrow> 'q \<Rightarrow> 'q"
    and deq :: "'q \<Rightarrow> ('a option \<times> 'q) option"
    and rep :: "'q \<Rightarrow> (int \<times> 'a) multiset \<Rightarrow> bool"
  assumes rep_empty: "rep empty {#}"
    and rep_enq: "rep q M \<Longrightarrow> rep (enq v k q) (add_mset (k, v) M)"
    and rep_deq_empty: "rep q {#} \<Longrightarrow> deq q = Some (None, q)"
    and rep_deq_min: "rep q M \<Longrightarrow> M \<noteq> {#} \<Longrightarrow>
      \<exists>k v q'. deq q = Some (Some v, q') \<and> (k, v) \<in># M \<and> (\<forall>x \<in># M. k \<le> fst x) \<and> rep q' (M - {#(k, v)#})"
begin

lemma rep_enq_list: "rep q M \<Longrightarrow> rep (fold (\<lambda>(k, v). enq v k) kvs q) (mset kvs + M)"
proof (induction kvs arbitrary: q M)
  case (Cons kv kvs)
  then show ?case using rep_enq [OF Cons.prems, of "snd kv" "fst kv"] Cons.IH [of "enq (snd kv) (fst kv) q" "add_mset kv M"]
    by (cases kv) simp
qed simp

text \<open>Taking everything out yields all values, ordered by key.\<close>

lemma drain_sorted:
  "rep q M \<Longrightarrow> \<exists>kvs q'. drain deq (size M) q = Some (map snd kvs, q') \<and> sorted (map fst kvs)
     \<and> mset kvs = M \<and> rep q' {#}"
proof (induction "size M" arbitrary: q M)
  case 0
  then show ?case by (intro exI [of _ "[]"] exI [of _ q]) simp
next
  case (Suc n)
  then have "M \<noteq> {#}" by auto
  from rep_deq_min [OF Suc.prems this] obtain k v q1 where
    d: "deq q = Some (Some v, q1)" "(k, v) \<in># M" "\<forall>x \<in># M. k \<le> fst x" "rep q1 (M - {#(k, v)#})" by blast
  have n: "n = size (M - {#(k, v)#})" using Suc.hyps(2) d(2) by (simp add: size_Diff_singleton)
  from Suc.hyps(1) [OF n d(4)] obtain kvs q' where
    IH: "drain deq n q1 = Some (map snd kvs, q')" "sorted (map fst kvs)" "mset kvs = M - {#(k, v)#}" "rep q' {#}"
    using n by auto
  have m: "mset ((k, v) # kvs) = M" using IH(3) d(2) by simp
  then have "set kvs \<subseteq> set_mset M" by (metis set_mset_mset set_subset_Cons)
  then have "sorted (map fst ((k, v) # kvs))" using IH(2) d(3) by auto
  moreover have "drain deq (size M) q = Some (map snd ((k, v) # kvs), q')"
    using d(1) IH(1) Suc.hyps(2) [symmetric] by simp
  ultimately show ?case using m IH(4) by blast
qed

end

section \<open>The retry queue implements it\<close>

definition pq_inv :: "'a PriorityQueue \<Rightarrow> bool" where
  "pq_inv pq \<longleftrightarrow> shape_ok pq \<and> heap_ok (pq_key pq) (PQ_Len pq)"

definition pq_rep :: "'a PriorityQueue \<Rightarrow> (int \<times> 'a) multiset \<Rightarrow> bool" where
  "pq_rep pq M \<longleftrightarrow> pq_inv pq \<and> elems pq = M"

lemma pq_key_nth: "i < PQ_Len pq \<Longrightarrow> (pq_key pq i, x_Value (pq_store pq ! (pq_items pq ! i))) \<in># elems pq"
  by (auto simp: elems_def pq_key_def content_def PQ_Len_def)

lemma enqueue_rep:
  assumes "pq_inv pq"
  shows "pq_inv (PQ_Enqueue v k pq)" "elems (PQ_Enqueue v k pq) = add_mset (k, v) (elems pq)"
proof -
  let ?n = "PQ_Len pq" and ?a = "length (pq_store pq)"
  let ?item = "\<lparr>x_Value = v, x_index = 0, x_waitToTime = k\<rparr>"
  let ?p = "PQ_Push ?a (pq\<lparr>pq_store := pq_store pq @ [?item], pq_seq := pq_seq pq + 1\<rparr>)"
  have shape: "shape_ok pq" and heap: "heap_ok (pq_key pq) ?n" using assms by (simp_all add: pq_inv_def)
  have old: "a < ?a" if "a \<in> set (pq_items pq)" for a using shape that by (simp add: shape_ok_def)
  have p: "pq_items ?p = pq_items pq @ [?a]"
    "pq_store ?p = set_index ?a (int ?n) (pq_store pq @ [?item])" "PQ_Len ?p = Suc ?n"
    by (simp_all add: PQ_Push_def PQ_Len_def)
  have nth: "pq_items pq ! i < ?a" if "i < ?n" for i using old that by (simp add: PQ_Len_def)
  have cont: "content ?p a = content pq a" if "a < ?a" for a
    using that by (simp add: content_def p(2) content_set_index nth_append)
  have conta: "content ?p ?a = (k, v)" by (simp add: content_def p(2) content_set_index)
  have shape_p: "shape_ok ?p"
    unfolding shape_ok_def p
  proof (intro conjI allI impI ballI)
    show "distinct (pq_items pq @ [?a])" using shape old by (force simp: shape_ok_def)
    show "a < length (set_index ?a (int ?n) (pq_store pq @ [?item]))" if "a \<in> set (pq_items pq @ [?a])" for a
      using that old by (auto simp: content_set_index less_Suc_eq)
    show "x_index (set_index ?a (int ?n) (pq_store pq @ [?item]) ! ((pq_items pq @ [?a]) ! i)) = int i" if "i < Suc ?n" for i
    proof (cases "i = ?n")
      case False
      with that have i: "i < ?n" by simp
      let ?b = "pq_items pq ! i"
      have "x_index (set_index ?a (int ?n) (pq_store pq @ [?item]) ! ?b) = x_index (pq_store pq ! ?b)"
        using index_set_index [of ?b "pq_store pq @ [?item]" ?a "int ?n"] nth [OF i] by (simp add: nth_append)
      then show ?thesis using shape i by (simp add: nth_append shape_ok_def PQ_Len_def)
    qed (simp add: index_set_index PQ_Len_def)
  qed
  have "heap_ok (pq_key ?p) ?n"
  proof (subst order_cong(1))
    show "pq_key ?p i = pq_key pq i" if "i < ?n" for i
      using that cont [OF nth [OF that]] by (simp add: pq_key_content p(1) nth_append PQ_Len_def)
  qed (rule heap)
  then have up: "up_inv (pq_key ?p) (PQ_Len ?p) ?n" unfolding p(3) by (rule up_inv_append)
  have "?n < PQ_Len ?p" by (simp add: p(3))
  from heap_up_spec [OF shape_p this up]
  have r: "rearranged ?p (heap_up ?n ?p)" "heap_ok (pq_key (heap_up ?n ?p)) (PQ_Len ?p)" by simp_all
  have e: "PQ_Enqueue v k pq = heap_up ?n ?p"
    by (simp add: PQ_Enqueue_def heap_Push_def Let_def p(3) del: One_nat_def)
  show "pq_inv (PQ_Enqueue v k pq)"
    unfolding e pq_inv_def using r rearranged_Len [OF r(1)] by (simp add: rearranged_def)
  have "image_mset (content ?p) (mset (pq_items pq)) = image_mset (content pq) (mset (pq_items pq))"
    using cont old by (auto intro: image_mset_cong)
  then show "elems (PQ_Enqueue v k pq) = add_mset (k, v) (elems pq)"
    unfolding e rearranged_elems [OF r(1)] by (simp add: elems_def p(1) conta)
qed

lemma elems_empty_iff: "elems pq = {#} \<longleftrightarrow> pq_items pq = []"
  by (simp add: elems_def)

lemma dequeue_rep:
  assumes "pq_inv pq" "pq_items pq \<noteq> []"
  shows "\<exists>k v pq'. PQ_Dequeue pq = Some (Some v, pq') \<and> (k, v) \<in># elems pq \<and> (\<forall>x \<in># elems pq. k \<le> fst x)
    \<and> pq_inv pq' \<and> elems pq' = elems pq - {#(k, v)#}"
proof -
  let ?n = "PQ_Len pq - 1" and ?a = "pq_items pq ! 0"
  let ?s = "PQ_Swap 0 ?n pq"
  have shape: "shape_ok pq" and heap: "heap_ok (pq_key pq) (PQ_Len pq)" using assms(1) by (simp_all add: pq_inv_def)
  have len: "0 < PQ_Len pq" "?n < PQ_Len pq" using assms(2) by (simp_all add: PQ_Len_def)
  note s = PQ_Swap_rearranged [OF shape len]
  have key: "pq_key ?s i = pq_key pq i" if "0 < i" "i < ?n" for i
    using PQ_Swap_key [OF shape len, of i] that by (simp add: swapped_def)
  have "down_inv (pq_key ?s) ?n 0"
  proof (rule down_inv_root)
    show "pq_key ?s (par i) \<le> pq_key ?s i" if "0 < i" "i < ?n" "par i \<noteq> 0" for i
      using key [of i] key [of "par i"] heap that par_less [OF that(1)] by (simp add: heap_ok_def)
  qed
  moreover obtain i' r where down: "heap_down_loop 0 ?n ?s = (i', r)" by (meson surj_pair)
  ultimately have d: "rearranged ?s r" "heap_ok (pq_key r) ?n" "pq_items r ! ?n = pq_items ?s ! ?n"
    using heap_down_loop_spec [of ?s ?n 0 i' r] s(1) rearranged_Len [OF s(1)] len by (auto simp: rearranged_def)
  have r: "rearranged pq r" using rearranged_trans [OF s(1) d(1)] .
  have lenr: "PQ_Len r = PQ_Len pq" using rearranged_Len [OF r] .
  have ne: "pq_items r \<noteq> []" using lenr len by (auto simp: PQ_Len_def)
  have last: "last (pq_items r) = ?a"
    using d(3) s(2) [OF len(2)] ne lenr by (simp add: last_conv_nth PQ_Len_def swapped_def split: if_splits)
  let ?q = "r\<lparr>pq_store := set_index ?a (- 1) (pq_store r), pq_items := butlast (pq_items r)\<rparr>"
  have split: "pq_items r = butlast (pq_items r) @ [?a]" using ne last by (metis append_butlast_last_id)
  have shape_r: "shape_ok r" using r by (simp add: rearranged_def)
  have a_out: "?a \<notin> set (butlast (pq_items r))"
    using shape_r split by (metis shape_ok_def distinct_append not_distinct_conv_prefix)
  have lenq: "PQ_Len ?q = ?n" using lenr by (simp add: PQ_Len_def)
  have nthq: "pq_items ?q ! i = pq_items r ! i" if "i < ?n" for i
    using that lenr by (simp add: nth_butlast PQ_Len_def)
  have contq: "content ?q = content r" by (intro ext) (simp add: content_def content_set_index)
  have "shape_ok ?q"
    unfolding shape_ok_def lenq
  proof (intro conjI ballI allI impI)
    show "distinct (pq_items ?q)" using shape_r by (simp add: shape_ok_def distinct_butlast)
    show "a < length (pq_store ?q)" if "a \<in> set (pq_items ?q)" for a
      using that shape_r by (auto simp: shape_ok_def content_set_index dest: in_set_butlastD)
    show "x_index (pq_store ?q ! (pq_items ?q ! i)) = int i" if "i < ?n" for i
    proof -
      have "pq_items ?q ! i \<in> set (butlast (pq_items r))" using that lenq nth_mem [of i "pq_items ?q"] by (simp add: PQ_Len_def)
      then have "pq_items r ! i \<noteq> ?a" using a_out nthq [OF that] by auto
      moreover have "pq_items r ! i < length (pq_store r)" "x_index (pq_store r ! (pq_items r ! i)) = int i"
        using shape_r that lenr by (auto simp: shape_ok_def PQ_Len_def)
      ultimately show ?thesis using nthq [OF that] by (simp add: index_set_index)
    qed
  qed
  moreover have "heap_ok (pq_key ?q) ?n"
  proof (subst order_cong(1))
    show "pq_key ?q i = pq_key r i" if "i < ?n" for i using nthq [OF that] contq by (simp add: pq_key_content)
  qed (rule d(2))
  ultimately have inv: "pq_inv ?q" unfolding pq_inv_def lenq by blast
  have "elems pq = add_mset (content r ?a) (elems ?q)"
    using rearranged_elems [OF r] split contq by (simp add: elems_def) (metis add_mset_add_single image_mset_add_mset mset_append mset_single_iff_right)
  moreover have "content r ?a = (pq_key pq 0, x_Value (pq_store pq ! ?a))"
    using r by (simp add: rearranged_def content_def pq_key_def)
  ultimately have el: "elems ?q = elems pq - {#(pq_key pq 0, x_Value (pq_store pq ! ?a))#}" by simp
  have min: "pq_key pq 0 \<le> fst x" if "x \<in># elems pq" for x
  proof -
    from that obtain i where "i < PQ_Len pq" "fst x = pq_key pq i"
      by (auto simp: elems_def pq_key_content PQ_Len_def in_set_conv_nth)
    with heap_root [OF heap] show ?thesis by simp
  qed
  have "heap_Pop pq = Some (?a, ?q)"
    using assms(2) down ne last by (simp add: heap_Pop_def heap_down_def PQ_Pop_def Let_def)
  moreover have "x_Value (pq_store ?q ! ?a) = x_Value (pq_store pq ! ?a)"
    using contq r by (simp add: content_def fun_eq_iff rearranged_def)
  ultimately have "PQ_Dequeue pq = Some (Some (x_Value (pq_store pq ! ?a)), ?q)"
    using assms(2) by (simp add: PQ_Dequeue_def)
  then show ?thesis using inv el min pq_key_nth [OF len(1)] by blast
qed

lemma NewPriorityQueue_eq: "NewPriorityQueue = \<lparr>pq_store = [], pq_items = [], pq_seq = 0\<rparr>"
  by (simp add: NewPriorityQueue_def heap_Init_def PQ_Len_def)

interpretation retry_pq: priority_queue NewPriorityQueue PQ_Enqueue PQ_Dequeue pq_rep
proof
  show "pq_rep NewPriorityQueue {#}"
    by (simp add: pq_rep_def pq_inv_def shape_ok_def heap_ok_def elems_def NewPriorityQueue_eq PQ_Len_def)
  show "pq_rep (PQ_Enqueue v k q) (add_mset (k, v) M)" if "pq_rep q M" for q M k and v :: 'a
    using that enqueue_rep [of q v k] by (auto simp: pq_rep_def)
  show "PQ_Dequeue q = Some (None, q)" if "pq_rep q {#}" for q :: "'a PriorityQueue"
    using that by (simp add: pq_rep_def elems_empty_iff PQ_Dequeue_def)
  show "\<exists>k v q'. PQ_Dequeue q = Some (Some v, q') \<and> (k, v) \<in># M \<and> (\<forall>x \<in># M. k \<le> fst x) \<and> pq_rep q' (M - {#(k, v)#})"
    if "pq_rep q M" "M \<noteq> {#}" for q and M :: "(int \<times> 'a) multiset"
    using that dequeue_rep [of q] elems_empty_iff [of q] unfolding pq_rep_def by blast
qed

text \<open>\<^verbatim>\<open>Update\<close> replaces a value and not the key, so \<^verbatim>\<open>heap.Fix\<close> moves nothing.\<close>

lemma heap_Fix_heap:
  assumes "heap_ok (pq_key pq) (PQ_Len pq)" "i < PQ_Len pq"
  shows "heap_Fix i pq = pq"
proof -
  have e: "pq_key pq (par c) \<le> pq_key pq c" if "0 < c" "c < PQ_Len pq" for c
    using assms(1) that by (simp add: heap_ok_def)
  have "\<not> PQ_Less pq (down_child i (PQ_Len pq) pq) i" if "\<not> PQ_Len pq \<le> 2 * i + 1"
  proof -
    have c: "0 < down_child i (PQ_Len pq) pq" "down_child i (PQ_Len pq) pq < PQ_Len pq"
      "par (down_child i (PQ_Len pq) pq) = i"
      using that by (auto simp: down_child_def par_def)
    show ?thesis using e [OF c(1,2)] c(3) by (simp add: PQ_Less_def)
  qed
  then have "heap_down_loop i (PQ_Len pq) pq = (i, pq)" by (simp add: heap_down_loop.simps [of i] Let_def)
  moreover have "heap_up i pq = pq"
    using e [of i] assms(2) by (auto simp: heap_up.simps [of i] PQ_Less_def)
  ultimately show ?thesis by (simp add: heap_Fix_def heap_down_def)
qed

lemma PQ_Update_spec:
  assumes inv: "pq_inv pq" and a: "a \<in> set (pq_items pq)"
  shows "PQ_Update a v pq = Some (pq\<lparr>pq_store := (pq_store pq)[a := (pq_store pq ! a)\<lparr>x_Value := v\<rparr>]\<rparr>)"
proof -
  let ?s = "(pq_store pq)[a := (pq_store pq ! a)\<lparr>x_Value := v\<rparr>]"
  let ?p = "pq\<lparr>pq_store := ?s\<rparr>"
  have shape: "shape_ok pq" and heap: "heap_ok (pq_key pq) (PQ_Len pq)" using inv by (simp_all add: pq_inv_def)
  obtain i where i: "i < PQ_Len pq" "pq_items pq ! i = a" using a by (auto simp: in_set_conv_nth PQ_Len_def)
  have la: "a < length (pq_store pq)" using shape a by (simp add: shape_ok_def)
  have "x_waitToTime (?s ! b) = x_waitToTime (pq_store pq ! b)" for b
    using la by (cases "b = a") simp_all
  then have "pq_key ?p = pq_key pq" by (intro ext) (simp add: pq_key_def)
  then have "heap_Fix i ?p = ?p" using heap heap_Fix_heap [of ?p i] i(1) by (simp add: PQ_Len_def)
  moreover have "x_index (?s ! a) = int i" using la shape i by (auto simp: shape_ok_def)
  ultimately show ?thesis using i(1) by (simp add: PQ_Update_def Let_def PQ_Len_def)
qed

section \<open>Properties\<close>

text \<open>
  C28. The retry queue loses nothing and orders by time: after any list of \<open>Enqueue\<close> calls on
  a new queue, as many \<open>Dequeue\<close> calls return exactly the enqueued jobs, in the order of
  their wait times; no call panics, \<open>Size\<close> counts the jobs, and the queue ends empty.
\<close>

theorem retry_queue_sorted:
  "\<exists>out q'. drain PQ_Dequeue (length kvs) (fold (\<lambda>(k, v). PQ_Enqueue v k) kvs NewPriorityQueue) = Some (map snd out, q')
     \<and> mset out = mset kvs \<and> sorted (map fst out) \<and> PQ_Size q' = 0
     \<and> PQ_Size (fold (\<lambda>(k, v). PQ_Enqueue v k) kvs NewPriorityQueue) = length kvs"
proof -
  let ?q = "fold (\<lambda>(k, v). PQ_Enqueue v k) kvs NewPriorityQueue"
  have rep: "pq_rep ?q (mset kvs)" using retry_pq.rep_enq_list [OF retry_pq.rep_empty, of kvs] by simp
  have size: "PQ_Size q = size M" if "pq_rep q M" for q and M :: "(int \<times> 'a) multiset"
    using that by (auto simp: PQ_Size_def pq_rep_def elems_def)
  from retry_pq.drain_sorted [OF rep] size [OF rep] show ?thesis using size by fastforce
qed

text \<open>
  \<open>Update\<close> of an item that is in the queue finds it by its stored index, replaces its
  value and keeps the queue: the heap order and all index fields stay correct, the array is
  not rearranged, and no other item changes.
\<close>

theorem update_keeps_queue:
  assumes inv: "pq_inv pq" and a: "a \<in> set (pq_items pq)"
  shows "\<exists>pq'. PQ_Update a v pq = Some pq' \<and> pq_inv pq' \<and> pq_items pq' = pq_items pq
     \<and> content pq' a = (fst (content pq a), v) \<and> (\<forall>b. b \<noteq> a \<longrightarrow> content pq' b = content pq b)"
proof -
  let ?s = "(pq_store pq)[a := (pq_store pq ! a)\<lparr>x_Value := v\<rparr>]"
  let ?p = "pq\<lparr>pq_store := ?s\<rparr>"
  have la: "a < length (pq_store pq)" using inv a by (simp add: pq_inv_def shape_ok_def)
  have f: "x_waitToTime (?s ! b) = x_waitToTime (pq_store pq ! b)" "x_index (?s ! b) = x_index (pq_store pq ! b)" for b
    using la by (cases "b = a"; simp)+
  then have "pq_key ?p = pq_key pq" by (intro ext) (simp add: pq_key_def)
  then have "pq_inv ?p" using inv f by (simp add: pq_inv_def shape_ok_def PQ_Len_def)
  with PQ_Update_spec [OF inv a, of v] la show ?thesis by (auto simp: content_def)
qed

theorem update_keeps_queue_witness:
  "\<exists>pq'. PQ_Update 0 ''y'' (PQ_Enqueue ''x'' 7 NewPriorityQueue) = Some pq' \<and> pq_inv pq' \<and> content pq' 0 = (7, ''y'')"
proof -
  have q: "PQ_Enqueue ''x'' 7 NewPriorityQueue
      = \<lparr>pq_store = [\<lparr>x_Value = ''x'', x_index = 0, x_waitToTime = 7\<rparr>], pq_items = [0], pq_seq = 1\<rparr>"
    by code_simp
  have "pq_inv (PQ_Enqueue ''x'' 7 NewPriorityQueue)"
    using retry_pq.rep_enq [OF retry_pq.rep_empty, of "''x''" 7] by (simp add: pq_rep_def)
  from update_keeps_queue [OF this, of 0 "''y''"] show ?thesis by (auto simp: q content_def)
qed

end
