(* ===== verification/Worker_Pool.thy ===== *)
theory Worker_Pool
  imports Linked_Queue Priority_Queue Go_Num
begin

text \<open>
  \<^verbatim>\<open>pkg/worker_pool/worker_pool.go\<close>. The pool's goroutines (the workers, the job loop, the
  retry loop and the caller of \<^verbatim>\<open>Stop\<close>) run concurrently; each is a program counter
  (a phase) and each atomic access to shared state is one action. \<open>pool_act\<close> executes an
  action and returns \<open>None\<close> where the goroutine is not at that point or would block. The
  tasks (\<^verbatim>\<open>Do\<close>, \<^verbatim>\<open>GetWaitDuration\<close>, \<^verbatim>\<open>OnDone\<close>) are the caller's: the result
  of \<^verbatim>\<open>Do\<close>, the wait duration and the clock are arguments of the actions. The ghost
  fields \<open>p_submitted\<close> and \<open>p_completed\<close> record the tasks accepted and the tasks whose
  \<^verbatim>\<open>Do\<close> returned nil.
\<close>

section \<open>State\<close>

record 't PoolJob =
  wj_task :: 't
  wj_waitToTime :: int

datatype 't worker_phase =
    WIdle
  | WTaken "'t PoolJob"
  | WRunning "'t PoolJob"
  | WFinished "'t PoolJob"
  | WLeaving
  | WExited

datatype 't jobs_phase = JSelect | JDequeue | JSending "'t PoolJob" | JExited

datatype 't retry_phase = RSelect | RInner | RDue | RHolding "'t PoolJob" | RExited

datatype stop_phase = StopNotCalled | StopCheck nat | StopCloseStop | StopCloseJobs | StopWait | StopReturned

record 't WorkerPool =
  p_workerCount :: int
  p_capacity :: int
  p_jobsQ :: "'t PoolJob LinkedQueue"
  p_retryQ :: "'t PoolJob PriorityQueue"
  p_jobChan :: "'t PoolJob list"
  p_jobClosed :: bool
  p_stopClosed :: bool
  p_ctxDone :: bool
  p_busyCount :: int
  p_workers :: "'t worker_phase list"
  p_jobs :: "'t jobs_phase"
  p_retry :: "'t retry_phase"
  p_stop :: stop_phase
  p_panicked :: bool
  p_submitted :: "'t multiset"
  p_completed :: "'t multiset"

definition zero_pool :: "'t WorkerPool" where
  "zero_pool = \<lparr>p_workerCount = 0, p_capacity = 0, p_jobsQ = NewLinkedQueue,
     p_retryQ = \<lparr>pq_store = [], pq_items = [], pq_seq = 0\<rparr>, p_jobChan = [], p_jobClosed = False,
     p_stopClosed = False, p_ctxDone = False, p_busyCount = 0, p_workers = [], p_jobs = JExited,
     p_retry = RExited, p_stop = StopNotCalled, p_panicked = False, p_submitted = {#}, p_completed = {#}\<rparr>"

definition WithWorkerCount :: "int \<Rightarrow> 't WorkerPool \<Rightarrow> 't WorkerPool" where
  "WithWorkerCount n p = p\<lparr>p_workerCount := n\<rparr>"

definition WithCapacity :: "int \<Rightarrow> 't WorkerPool \<Rightarrow> 't WorkerPool" where
  "WithCapacity capacity p = p\<lparr>p_capacity := capacity\<rparr>"

text \<open>A negative capacity makes \<^verbatim>\<open>make(chan Job, capacity)\<close> panic.\<close>

definition NewWorkerPool :: "('t WorkerPool \<Rightarrow> 't WorkerPool) list \<Rightarrow> 't WorkerPool option" where
  "NewWorkerPool opts =
     (let p = fold (\<lambda>opt. opt) opts zero_pool;
          p1 = (if p_workerCount p = 0 then p\<lparr>p_workerCount := 5\<rparr> else p);
          p2 = (if p_capacity p1 = 0 then p1\<lparr>p_capacity := 128\<rparr> else p1)
      in if p_capacity p2 < 0 then None else Some p2)"

definition WorkerPool_Start :: "'t WorkerPool \<Rightarrow> 't WorkerPool" where
  "WorkerPool_Start p =
     p\<lparr>p_workers := p_workers p @ replicate (nat (p_workerCount p)) WIdle, p_jobs := JSelect, p_retry := RSelect\<rparr>"

definition WorkerPool_BusyCount :: "'t WorkerPool \<Rightarrow> int" where
  "WorkerPool_BusyCount p = p_busyCount p"

section \<open>Channels and queues\<close>

datatype 't send_result = Sent "'t WorkerPool" | SendBlocked | SendPanic "'t WorkerPool"

definition chan_send :: "'t PoolJob \<Rightarrow> 't WorkerPool \<Rightarrow> 't send_result" where
  "chan_send job p =
     (if p_jobClosed p then SendPanic (p\<lparr>p_panicked := True\<rparr>)
      else if int (length (p_jobChan p)) < p_capacity p then Sent (p\<lparr>p_jobChan := p_jobChan p @ [job]\<rparr>)
      else SendBlocked)"

definition WorkerPool_Submit :: "'t \<Rightarrow> 't WorkerPool \<Rightarrow> 't WorkerPool option" where
  "WorkerPool_Submit task p =
     (case chan_send \<lparr>wj_task = task, wj_waitToTime = 0\<rparr> p of
        Sent p' \<Rightarrow> Some (p'\<lparr>p_submitted := add_mset task (p_submitted p')\<rparr>)
      | SendBlocked \<Rightarrow> None
      | SendPanic p' \<Rightarrow> Some p')"

definition WorkerPool_TrySubmit :: "'t \<Rightarrow> 't WorkerPool \<Rightarrow> bool \<times> 't WorkerPool" where
  "WorkerPool_TrySubmit task p =
     (case chan_send \<lparr>wj_task = task, wj_waitToTime = 0\<rparr> p of
        Sent p' \<Rightarrow> (True, p'\<lparr>p_submitted := add_mset task (p_submitted p')\<rparr>)
      | SendBlocked \<Rightarrow> (False, p)
      | SendPanic p' \<Rightarrow> (False, p'))"

definition pool_queue :: "'t PoolJob \<Rightarrow> 't WorkerPool \<Rightarrow> 't WorkerPool" where
  "pool_queue job p =
     (case LinkedQueue_Queue job (p_jobsQ p) of
        None \<Rightarrow> p\<lparr>p_panicked := True\<rparr>
      | Some q \<Rightarrow> p\<lparr>p_jobsQ := q\<rparr>)"

definition moveToRetry :: "int \<Rightarrow> int \<Rightarrow> 't PoolJob \<Rightarrow> 't WorkerPool \<Rightarrow> 't WorkerPool" where
  "moveToRetry now wait job p =
     (let job' = job\<lparr>wj_waitToTime := int64 (now + wait)\<rparr>
      in p\<lparr>p_retryQ := PQ_Enqueue job' (wj_waitToTime job') (p_retryQ p)\<rparr>)"

section \<open>The goroutines\<close>

definition set_worker :: "nat \<Rightarrow> 't worker_phase \<Rightarrow> 't WorkerPool \<Rightarrow> 't WorkerPool" where
  "set_worker i ph p = p\<lparr>p_workers := (p_workers p)[i := ph]\<rparr>"

text \<open>
  A worker: receive or exit; count itself busy; run the task; on an error move the job to the
  retry queue; count itself free. \<open>ctx\<close> chooses the branch of the \<^verbatim>\<open>select\<close> when the
  context is done, \<open>err\<close> is the result of \<^verbatim>\<open>Do\<close>.
\<close>

fun worker_step :: "bool \<Rightarrow> bool \<Rightarrow> int \<Rightarrow> int \<Rightarrow> nat \<Rightarrow> 't worker_phase \<Rightarrow> 't WorkerPool \<Rightarrow> 't WorkerPool option" where
  "worker_step ctx err now wait i WIdle p =
     (if ctx then (if p_ctxDone p then Some (set_worker i WExited p) else None)
      else (case p_jobChan p of
              job # rest \<Rightarrow> Some (set_worker i (WTaken job) (p\<lparr>p_jobChan := rest\<rparr>))
            | [] \<Rightarrow> if p_jobClosed p then Some (set_worker i WExited p) else None))"
| "worker_step ctx err now wait i (WTaken job) p =
     Some (set_worker i (WRunning job) (p\<lparr>p_busyCount := int32 (p_busyCount p + 1)\<rparr>))"
| "worker_step ctx err now wait i (WRunning job) p =
     (if err then Some (set_worker i (WFinished job) p)
      else Some (set_worker i WLeaving (p\<lparr>p_completed := add_mset (wj_task job) (p_completed p)\<rparr>)))"
| "worker_step ctx err now wait i (WFinished job) p =
     Some (set_worker i WLeaving (moveToRetry now wait job p))"
| "worker_step ctx err now wait i WLeaving p =
     Some (set_worker i WIdle (p\<lparr>p_busyCount := int32 (p_busyCount p - 1)\<rparr>))"
| "worker_step ctx err now wait i WExited p = None"

fun jobs_step :: "'t jobs_phase \<Rightarrow> 't WorkerPool \<Rightarrow> 't WorkerPool option" where
  "jobs_step JSelect p =
     Some (if p_ctxDone p \<or> p_stopClosed p then p\<lparr>p_jobs := JExited\<rparr> else p\<lparr>p_jobs := JDequeue\<rparr>)"
| "jobs_step JDequeue p =
     (case LinkedQueue_Dequeue (p_jobsQ p) of
        (None, q) \<Rightarrow> Some (p\<lparr>p_jobsQ := q, p_jobs := JSelect\<rparr>)
      | (Some job, q) \<Rightarrow> Some (p\<lparr>p_jobsQ := q, p_jobs := JSending job\<rparr>))"
| "jobs_step (JSending job) p =
     (case chan_send job p of
        Sent p' \<Rightarrow> Some (p'\<lparr>p_jobs := JSelect\<rparr>)
      | SendBlocked \<Rightarrow> None
      | SendPanic p' \<Rightarrow> Some p')"
| "jobs_step JExited p = None"

fun retry_step :: "int \<Rightarrow> 't retry_phase \<Rightarrow> 't WorkerPool \<Rightarrow> 't WorkerPool option" where
  "retry_step now RSelect p =
     Some (if p_ctxDone p \<or> p_stopClosed p then p\<lparr>p_retry := RExited\<rparr> else p\<lparr>p_retry := RInner\<rparr>)"
| "retry_step now RInner p =
     (case PQ_Top (p_retryQ p) of
        None \<Rightarrow> Some (p\<lparr>p_retry := RSelect\<rparr>)
      | Some a \<Rightarrow> if x_waitToTime (pq_store (p_retryQ p) ! a) > now then Some (p\<lparr>p_retry := RSelect\<rparr>)
                  else Some (p\<lparr>p_retry := RDue\<rparr>))"
| "retry_step now RDue p =
     (case PQ_Dequeue (p_retryQ p) of
        None \<Rightarrow> Some (p\<lparr>p_panicked := True\<rparr>)
      | Some (None, q) \<Rightarrow> Some (p\<lparr>p_retryQ := q, p_retry := RSelect\<rparr>)
      | Some (Some job, q) \<Rightarrow> Some (p\<lparr>p_retryQ := q, p_retry := RHolding job\<rparr>))"
| "retry_step now (RHolding job) p = Some ((pool_queue job p)\<lparr>p_retry := RInner\<rparr>)"
| "retry_step now RExited p = None"

text \<open>The four operands of the loop condition of \<^verbatim>\<open>Stop\<close>, read one after the other.\<close>

definition stop_operand :: "nat \<Rightarrow> 't WorkerPool \<Rightarrow> bool" where
  "stop_operand n p =
     (if n = 0 then LinkedQueue_Size (p_jobsQ p) \<noteq> 0
      else if n = 1 then PQ_Size (p_retryQ p) \<noteq> 0
      else if n = 2 then p_jobChan p \<noteq> []
      else p_busyCount p \<noteq> 0)"

fun stop_step :: "stop_phase \<Rightarrow> 't WorkerPool \<Rightarrow> 't WorkerPool option" where
  "stop_step StopNotCalled p = Some (p\<lparr>p_stop := StopCheck 0\<rparr>)"
| "stop_step (StopCheck n) p =
     Some (if stop_operand n p then p\<lparr>p_stop := StopCheck 0\<rparr>
           else if n < 3 then p\<lparr>p_stop := StopCheck (Suc n)\<rparr>
           else p\<lparr>p_stop := StopCloseStop\<rparr>)"
| "stop_step StopCloseStop p = Some (p\<lparr>p_stopClosed := True, p_stop := StopCloseJobs\<rparr>)"
| "stop_step StopCloseJobs p = Some (p\<lparr>p_jobClosed := True, p_stop := StopWait\<rparr>)"
| "stop_step StopWait p =
     (if list_all (\<lambda>ph. ph = WExited) (p_workers p) then Some (p\<lparr>p_stop := StopReturned\<rparr>) else None)"
| "stop_step StopReturned p = None"

section \<open>Runs\<close>

datatype 't pool_action =
    ActSubmit 't
  | ActTrySubmit 't
  | ActWorker nat bool bool int int
  | ActJobs
  | ActRetry int
  | ActStop
  | ActCancelCtx

definition pool_act :: "'t pool_action \<Rightarrow> 't WorkerPool \<Rightarrow> 't WorkerPool option" where
  "pool_act act p =
     (if p_panicked p then None
      else (case act of
        ActSubmit t \<Rightarrow> WorkerPool_Submit t p
      | ActTrySubmit t \<Rightarrow> Some (snd (WorkerPool_TrySubmit t p))
      | ActWorker i ctx err now wait \<Rightarrow>
          if i < length (p_workers p) then worker_step ctx err now wait i (p_workers p ! i) p else None
      | ActJobs \<Rightarrow> jobs_step (p_jobs p) p
      | ActRetry now \<Rightarrow> retry_step now (p_retry p) p
      | ActStop \<Rightarrow> stop_step (p_stop p) p
      | ActCancelCtx \<Rightarrow> Some (p\<lparr>p_ctxDone := True\<rparr>)))"

fun pool_run :: "'t pool_action list \<Rightarrow> 't WorkerPool \<Rightarrow> 't WorkerPool option" where
  "pool_run [] p = Some p"
| "pool_run (act # acts) p = (case pool_act act p of None \<Rightarrow> None | Some p' \<Rightarrow> pool_run acts p')"

section \<open>No task is lost or duplicated\<close>

fun worker_tasks :: "'t worker_phase \<Rightarrow> 't multiset" where
  "worker_tasks (WTaken j) = {#wj_task j#}"
| "worker_tasks (WRunning j) = {#wj_task j#}"
| "worker_tasks (WFinished j) = {#wj_task j#}"
| "worker_tasks _ = {#}"

fun jobs_tasks :: "'t jobs_phase \<Rightarrow> 't multiset" where
  "jobs_tasks (JSending j) = {#wj_task j#}"
| "jobs_tasks _ = {#}"

fun retry_tasks :: "'t retry_phase \<Rightarrow> 't multiset" where
  "retry_tasks (RHolding j) = {#wj_task j#}"
| "retry_tasks _ = {#}"

fun worker_busy :: "'t worker_phase \<Rightarrow> nat" where
  "worker_busy (WRunning j) = 1"
| "worker_busy (WFinished j) = 1"
| "worker_busy WLeaving = 1"
| "worker_busy _ = 0"

definition held :: "'t WorkerPool \<Rightarrow> 't multiset" where
  "held p = sum_list (map worker_tasks (p_workers p)) + jobs_tasks (p_jobs p) + retry_tasks (p_retry p)"

definition busy :: "'t WorkerPool \<Rightarrow> nat" where
  "busy p = sum_list (map worker_busy (p_workers p))"

definition waiting :: "'t PoolJob list \<Rightarrow> (int \<times> 't PoolJob) multiset \<Rightarrow> 't WorkerPool \<Rightarrow> 't multiset" where
  "waiting xs M p = mset (map wj_task xs) + image_mset (\<lambda>x. wj_task (snd x)) M + mset (map wj_task (p_jobChan p))"

definition pool_inv :: "'t WorkerPool \<Rightarrow> bool" where
  "pool_inv p \<longleftrightarrow> (\<exists>xs M. lq_rep (p_jobsQ p) xs \<and> pq_rep (p_retryQ p) M
       \<and> p_submitted p = p_completed p + waiting xs M p + held p)
     \<and> p_busyCount p = int32 (int (busy p))
     \<and> int (length (p_jobChan p)) \<le> p_capacity p
     \<and> (p_jobClosed p \<longrightarrow> p_stop p \<in> {StopWait, StopReturned})"

lemma sum_list_put:
  fixes f :: "'a \<Rightarrow> 'b::comm_monoid_add"
  shows "i < length xs \<Longrightarrow> sum_list (map f (xs[i := x])) + f (xs ! i) = sum_list (map f xs) + f x"
proof (induction xs arbitrary: i)
  case (Cons y ys)
  show ?case
  proof (cases i)
    case 0
    then show ?thesis by (simp add: ac_simps)
  next
    case (Suc j)
    then show ?thesis using Cons.IH [of j] Cons.prems by (simp add: add.assoc)
  qed
qed simp

lemma held_worker:
  assumes "i < length (p_workers p)"
  shows "held (set_worker i ph p) + worker_tasks (p_workers p ! i) = held p + worker_tasks ph"
    and "busy (set_worker i ph p) + worker_busy (p_workers p ! i) = busy p + worker_busy ph"
  using sum_list_put [OF assms, of worker_tasks ph] sum_list_put [OF assms, of worker_busy ph]
  by (simp_all add: held_def busy_def set_worker_def union_ac)

lemma held_cong:
  "p_workers p' = p_workers p \<Longrightarrow> p_jobs p' = p_jobs p \<Longrightarrow> p_retry p' = p_retry p \<Longrightarrow> held p' = held p"
  "p_workers p' = p_workers p \<Longrightarrow> busy p' = busy p"
  by (simp_all add: held_def busy_def)

lemma int32_add: "int32 (int32 x + y) = int32 (x + y)"
  unfolding int32_def by (metis take_bit_add signed_take_bit_eq_iff_take_bit_eq take_bit_signed_take_bit order_refl lessI less_Suc_eq_le)

lemma set_worker_fields [simp]:
  "p_jobsQ (set_worker i ph p) = p_jobsQ p" "p_retryQ (set_worker i ph p) = p_retryQ p"
  "p_jobChan (set_worker i ph p) = p_jobChan p" "p_submitted (set_worker i ph p) = p_submitted p"
  "p_completed (set_worker i ph p) = p_completed p" "p_busyCount (set_worker i ph p) = p_busyCount p"
  "p_capacity (set_worker i ph p) = p_capacity p" "p_jobClosed (set_worker i ph p) = p_jobClosed p"
  "p_stop (set_worker i ph p) = p_stop p" "p_panicked (set_worker i ph p) = p_panicked p"
  "p_workerCount (set_worker i ph p) = p_workerCount p" "length (p_workers (set_worker i ph p)) = length (p_workers p)"
  by (simp_all add: set_worker_def)

lemma pool_invE:
  assumes "pool_inv p"
  obtains xs M where "lq_rep (p_jobsQ p) xs" "pq_rep (p_retryQ p) M"
    "p_submitted p = p_completed p + waiting xs M p + held p" "p_busyCount p = int32 (int (busy p))"
    "int (length (p_jobChan p)) \<le> p_capacity p" "p_jobClosed p \<longrightarrow> p_stop p \<in> {StopWait, StopReturned}"
  using assms unfolding pool_inv_def by blast

lemma pool_invI:
  assumes "lq_rep (p_jobsQ p) xs" "pq_rep (p_retryQ p) M"
    "p_submitted p = p_completed p + waiting xs M p + held p" "p_busyCount p = int32 (int (busy p))"
    "int (length (p_jobChan p)) \<le> p_capacity p" "p_jobClosed p \<longrightarrow> p_stop p \<in> {StopWait, StopReturned}"
  shows "pool_inv p"
  using assms unfolding pool_inv_def by blast

lemmas pool_frame = waiting_def held_def busy_def

lemma send_inv:
  assumes "pool_inv p" "chan_send job p = Sent p'"
  shows "pool_inv (p'\<lparr>p_submitted := add_mset (wj_task job) (p_submitted p')\<rparr>)"
proof -
  from assms(1) obtain xs M where i: "lq_rep (p_jobsQ p) xs" "pq_rep (p_retryQ p) M"
    "p_submitted p = p_completed p + waiting xs M p + held p" "p_busyCount p = int32 (int (busy p))"
    "int (length (p_jobChan p)) \<le> p_capacity p" "p_jobClosed p \<longrightarrow> p_stop p \<in> {StopWait, StopReturned}"
    by (rule pool_invE)
  from assms(2) have p': "p' = p\<lparr>p_jobChan := p_jobChan p @ [job]\<rparr>" "int (length (p_jobChan p)) < p_capacity p"
    by (auto simp: chan_send_def split: if_splits)
  show ?thesis
    unfolding p'(1) by (rule pool_invI [of _ xs M]) (use i p'(2) in \<open>simp_all add: pool_frame\<close>)
qed

lemma worker_inv:
  assumes inv: "pool_inv p" and n: "i < length (p_workers p)"
    and step: "worker_step ctx err now wait i (p_workers p ! i) p = Some p'"
  shows "pool_inv p'"
proof -
  from inv obtain xs M where a: "lq_rep (p_jobsQ p) xs" "pq_rep (p_retryQ p) M"
    "p_submitted p = p_completed p + waiting xs M p + held p" "p_busyCount p = int32 (int (busy p))"
    "int (length (p_jobChan p)) \<le> p_capacity p" "p_jobClosed p \<longrightarrow> p_stop p \<in> {StopWait, StopReturned}"
    by (rule pool_invE)
  note h = held_worker [OF n]
  have exit: "pool_inv (set_worker i WExited p)" if "p_workers p ! i = WIdle"
    by (rule pool_invI [of _ xs M]) (use a h [of WExited] that in \<open>simp_all add: waiting_def\<close>)
  show ?thesis
  proof (cases "p_workers p ! i")
    case WIdle
    show ?thesis
    proof (cases "ctx \<or> p_jobChan p = []")
      case True
      then have "p' = set_worker i WExited p" using step WIdle by (auto split: if_splits list.splits)
      then show ?thesis using exit [OF WIdle] by simp
    next
      case False
      then obtain job rest where c: "p_jobChan p = job # rest" by (cases "p_jobChan p") auto
      let ?q = "p\<lparr>p_jobChan := rest\<rparr>"
      have p': "p' = set_worker i (WTaken job) ?q" using step WIdle False c by simp
      have "held (set_worker i (WTaken job) ?q) = held p + {#wj_task job#}" "busy (set_worker i (WTaken job) ?q) = busy p"
        using held_worker [of i ?q "WTaken job"] n WIdle held_cong [of ?q p] by simp_all
      then show ?thesis
        unfolding p' by (intro pool_invI [of _ xs M]) (use a c in \<open>simp_all add: waiting_def ac_simps\<close>)
    qed
  next
    case (WTaken job)
    let ?q = "p\<lparr>p_busyCount := int32 (p_busyCount p + 1)\<rparr>"
    have p': "p' = set_worker i (WRunning job) ?q" using step WTaken by simp
    have "held (set_worker i (WRunning job) ?q) = held p" "busy (set_worker i (WRunning job) ?q) = busy p + 1"
      using held_worker [of i ?q "WRunning job"] n WTaken held_cong [of ?q p] by simp_all
    moreover have "int32 (p_busyCount p + 1) = int32 (int (busy p + 1))"
      using a(4) int32_add [of "int (busy p)" 1] by (simp add: add.commute)
    ultimately show ?thesis
      unfolding p' by (intro pool_invI [of _ xs M]) (use a in \<open>simp_all add: waiting_def\<close>)
  next
    case (WRunning job)
    show ?thesis
    proof (cases err)
      case True
      then have p': "p' = set_worker i (WFinished job) p" using step WRunning by simp
      show ?thesis
        unfolding p' by (intro pool_invI [of _ xs M]) (use a h [of "WFinished job"] WRunning in \<open>simp_all add: waiting_def\<close>)
    next
      case False
      let ?q = "p\<lparr>p_completed := add_mset (wj_task job) (p_completed p)\<rparr>"
      have p': "p' = set_worker i WLeaving ?q" using step WRunning False by simp
      have "held p = add_mset (wj_task job) (held (set_worker i WLeaving ?q))" "busy (set_worker i WLeaving ?q) = busy p"
        using held_worker [of i ?q WLeaving] n WRunning held_cong [of ?q p] by simp_all
      then show ?thesis
        unfolding p' by (intro pool_invI [of _ xs M]) (use a in \<open>simp_all add: waiting_def\<close>)
    qed
  next
    case (WFinished job)
    let ?job = "job\<lparr>wj_waitToTime := int64 (now + wait)\<rparr>"
    let ?q = "p\<lparr>p_retryQ := PQ_Enqueue ?job (int64 (now + wait)) (p_retryQ p)\<rparr>"
    have p': "p' = set_worker i WLeaving ?q" using step WFinished by (simp add: moveToRetry_def Let_def)
    have "held p = add_mset (wj_task job) (held (set_worker i WLeaving ?q))" "busy (set_worker i WLeaving ?q) = busy p"
      using held_worker [of i ?q WLeaving] n WFinished held_cong [of ?q p] by simp_all
    moreover have "pq_rep (PQ_Enqueue ?job (int64 (now + wait)) (p_retryQ p)) (add_mset (int64 (now + wait), ?job) M)"
      using retry_pq.rep_enq [OF a(2)] .
    ultimately show ?thesis
      unfolding p' by (intro pool_invI [of _ xs "add_mset (int64 (now + wait), ?job) M"]) (use a in \<open>simp_all add: waiting_def\<close>)
  next
    case WLeaving
    let ?q = "p\<lparr>p_busyCount := int32 (p_busyCount p - 1)\<rparr>"
    have p': "p' = set_worker i WIdle ?q" using step WLeaving by simp
    have hb: "held (set_worker i WIdle ?q) = held p" "busy p = Suc (busy (set_worker i WIdle ?q))"
      using held_worker [of i ?q WIdle] n WLeaving held_cong [of ?q p] by simp_all
    have "int32 (p_busyCount p - 1) = int32 (int (busy (set_worker i WIdle ?q)))"
      using a(4) hb(2) int32_add [of "int (busy p)" "- 1"] by simp
    then show ?thesis
      unfolding p' by (intro pool_invI [of _ xs M]) (use a hb(1) in \<open>simp_all add: waiting_def\<close>)
  next
    case WExited
    then show ?thesis using step by simp
  qed
qed

lemma jobs_inv:
  assumes inv: "pool_inv p" and step: "jobs_step (p_jobs p) p = Some p'"
  shows "pool_inv p'"
proof -
  from inv obtain xs M where a: "lq_rep (p_jobsQ p) xs" "pq_rep (p_retryQ p) M"
    "p_submitted p = p_completed p + waiting xs M p + held p" "p_busyCount p = int32 (int (busy p))"
    "int (length (p_jobChan p)) \<le> p_capacity p" "p_jobClosed p \<longrightarrow> p_stop p \<in> {StopWait, StopReturned}"
    by (rule pool_invE)
  show ?thesis
  proof (cases "p_jobs p")
    case JSelect
    with step have "p' = (if p_ctxDone p \<or> p_stopClosed p then p\<lparr>p_jobs := JExited\<rparr> else p\<lparr>p_jobs := JDequeue\<rparr>)" by simp
    then show ?thesis using a JSelect by (intro pool_invI [of p' xs M]) (simp_all add: pool_frame)
  next
    case JDequeue
    show ?thesis
    proof (cases xs)
      case Nil
      with a(1) have "LinkedQueue_Dequeue (p_jobsQ p) = (None, p_jobsQ p)" using linked.rep_deq_Nil by blast
      with step JDequeue have "p' = p\<lparr>p_jobsQ := p_jobsQ p, p_jobs := JSelect\<rparr>" by simp
      then show ?thesis using a JDequeue by (intro pool_invI [of p' xs M]) (simp_all add: pool_frame)
    next
      case (Cons job ys)
      with a(1) obtain q where q: "LinkedQueue_Dequeue (p_jobsQ p) = (Some job, q)" "lq_rep q ys"
        using linked.rep_deq_Cons [of "p_jobsQ p" job ys] by auto
      with step JDequeue have "p' = p\<lparr>p_jobsQ := q, p_jobs := JSending job\<rparr>" by simp
      then show ?thesis using a q(2) JDequeue Cons by (intro pool_invI [of p' ys M]) (simp_all add: pool_frame)
    qed
  next
    case (JSending job)
    show ?thesis
    proof (cases "chan_send job p")
      case (Sent p1)
      then have "p1 = p\<lparr>p_jobChan := p_jobChan p @ [job]\<rparr>" "int (length (p_jobChan p)) < p_capacity p" "p' = p1\<lparr>p_jobs := JSelect\<rparr>"
        using step JSending by (auto simp: chan_send_def split: if_splits)
      then show ?thesis using a JSending by (intro pool_invI [of p' xs M]) (simp_all add: pool_frame)
    next
      case SendBlocked
      then show ?thesis using step JSending by simp
    next
      case (SendPanic p1)
      then have "p' = p\<lparr>p_panicked := True\<rparr>" using step JSending by (auto simp: chan_send_def split: if_splits)
      then show ?thesis using a by (intro pool_invI [of p' xs M]) (simp_all add: pool_frame)
    qed
  next
    case JExited
    then show ?thesis using step by simp
  qed
qed

lemma retry_inv:
  assumes inv: "pool_inv p" and step: "retry_step now (p_retry p) p = Some p'"
  shows "pool_inv p'"
proof -
  from inv obtain xs M where a: "lq_rep (p_jobsQ p) xs" "pq_rep (p_retryQ p) M"
    "p_submitted p = p_completed p + waiting xs M p + held p" "p_busyCount p = int32 (int (busy p))"
    "int (length (p_jobChan p)) \<le> p_capacity p" "p_jobClosed p \<longrightarrow> p_stop p \<in> {StopWait, StopReturned}"
    by (rule pool_invE)
  have move: "pool_inv (p\<lparr>p_retry := ph\<rparr>)" if "retry_tasks (p_retry p) = {#}" "retry_tasks ph = {#}" for ph
    by (rule pool_invI [of _ xs M]) (use a that in \<open>simp_all add: pool_frame\<close>)
  show ?thesis
  proof (cases "p_retry p")
    case RSelect
    then show ?thesis using step move by (auto split: if_splits)
  next
    case RInner
    then show ?thesis using step move by (auto split: if_splits option.splits)
  next
    case RDue
    show ?thesis
    proof (cases "M = {#}")
      case True
      with a(2) have "PQ_Dequeue (p_retryQ p) = Some (None, p_retryQ p)" using retry_pq.rep_deq_empty by blast
      with step RDue have "p' = p\<lparr>p_retryQ := p_retryQ p, p_retry := RSelect\<rparr>" by simp
      then show ?thesis using move [of RSelect] RDue by simp
    next
      case False
      from retry_pq.rep_deq_min [OF a(2) False] obtain k job q where
        q: "PQ_Dequeue (p_retryQ p) = Some (Some job, q)" "(k, job) \<in># M" "pq_rep q (M - {#(k, job)#})" by blast
      then have "p' = p\<lparr>p_retryQ := q, p_retry := RHolding job\<rparr>" using step RDue by simp
      moreover obtain N where "M = add_mset (k, job) N" using q(2) by (metis insert_DiffM)
      ultimately show ?thesis using a q(3) RDue
        by (intro pool_invI [of p' xs "M - {#(k, job)#}"]) (simp_all add: pool_frame)
    qed
  next
    case (RHolding job)
    from linked.rep_enq [OF a(1), of job] obtain q where q: "LinkedQueue_Queue job (p_jobsQ p) = Some q" "lq_rep q (xs @ [job])" by blast
    then have "p' = p\<lparr>p_jobsQ := q, p_retry := RInner\<rparr>" using step RHolding by (simp add: pool_queue_def)
    then show ?thesis using a q(2) RHolding by (intro pool_invI [of p' "xs @ [job]" M]) (simp_all add: pool_frame)
  next
    case RExited
    then show ?thesis using step by simp
  qed
qed

lemma stop_inv:
  assumes inv: "pool_inv p" and step: "stop_step (p_stop p) p = Some p'"
  shows "pool_inv p'"
proof -
  from inv obtain xs M where a: "lq_rep (p_jobsQ p) xs" "pq_rep (p_retryQ p) M"
    "p_submitted p = p_completed p + waiting xs M p + held p" "p_busyCount p = int32 (int (busy p))"
    "int (length (p_jobChan p)) \<le> p_capacity p" "p_jobClosed p \<longrightarrow> p_stop p \<in> {StopWait, StopReturned}"
    by (rule pool_invE)
  have same: "p_jobsQ p' = p_jobsQ p \<and> p_retryQ p' = p_retryQ p \<and> p_submitted p' = p_submitted p
      \<and> p_completed p' = p_completed p \<and> p_jobChan p' = p_jobChan p \<and> p_workers p' = p_workers p
      \<and> p_jobs p' = p_jobs p \<and> p_retry p' = p_retry p \<and> p_busyCount p' = p_busyCount p \<and> p_capacity p' = p_capacity p
      \<and> (p_jobClosed p' \<longrightarrow> p_stop p' \<in> {StopWait, StopReturned})"
    using step a(6) by (cases "p_stop p") (auto split: if_splits)
  then show ?thesis using a by (intro pool_invI [of p' xs M]) (simp_all add: pool_frame)
qed

lemma pool_submit_inv:
  assumes inv: "pool_inv p"
  shows "WorkerPool_Submit t p = Some p' \<Longrightarrow> pool_inv p'" "pool_inv (snd (WorkerPool_TrySubmit t p))"
proof -
  let ?job = "\<lparr>wj_task = t, wj_waitToTime = 0\<rparr>"
  have panic: "pool_inv p1" if "chan_send ?job p = SendPanic p1" for p1
  proof -
    have "p1 = p\<lparr>p_panicked := True\<rparr>" using that by (auto simp: chan_send_def split: if_splits)
    then show ?thesis using inv unfolding pool_inv_def by (simp add: pool_frame)
  qed
  have sent: "pool_inv (p1\<lparr>p_submitted := add_mset t (p_submitted p1)\<rparr>)" if "chan_send ?job p = Sent p1" for p1
    using send_inv [OF inv that] by simp
  show "WorkerPool_Submit t p = Some p' \<Longrightarrow> pool_inv p'"
    using panic sent by (auto simp: WorkerPool_Submit_def split: send_result.splits)
  show "pool_inv (snd (WorkerPool_TrySubmit t p))"
    using panic sent inv by (simp add: WorkerPool_TrySubmit_def split: send_result.splits)
qed

lemma pool_act_inv: "pool_inv p \<Longrightarrow> pool_act act p = Some p' \<Longrightarrow> pool_inv p'"
proof (cases act)
  case ActCancelCtx
  moreover assume "pool_inv p" "pool_act act p = Some p'"
  ultimately have "p' = p\<lparr>p_ctxDone := True\<rparr>" "pool_inv p" by (auto simp: pool_act_def split: if_splits)
  then show ?thesis by (simp add: pool_inv_def pool_frame)
next
  case (ActSubmit t)
  moreover assume "pool_inv p" "pool_act act p = Some p'"
  ultimately show ?thesis using pool_submit_inv(1) by (auto simp: pool_act_def split: if_splits)
next
  case (ActTrySubmit t)
  moreover assume "pool_inv p" "pool_act act p = Some p'"
  ultimately show ?thesis using pool_submit_inv(2) by (auto simp: pool_act_def split: if_splits)
next
  case (ActWorker i ctx err now wait)
  assume "pool_inv p" "pool_act act p = Some p'"
  with ActWorker show ?thesis using worker_inv [of p i ctx err now wait p'] by (simp add: pool_act_def split: if_splits)
next
  case ActJobs
  assume "pool_inv p" "pool_act act p = Some p'"
  with ActJobs show ?thesis using jobs_inv [of p p'] by (simp add: pool_act_def split: if_splits)
next
  case (ActRetry now)
  assume "pool_inv p" "pool_act act p = Some p'"
  with ActRetry show ?thesis using retry_inv [of p now p'] by (simp add: pool_act_def split: if_splits)
next
  case ActStop
  assume "pool_inv p" "pool_act act p = Some p'"
  with ActStop show ?thesis using stop_inv [of p p'] by (simp add: pool_act_def split: if_splits)
qed

lemma pool_run_inv: "pool_inv p \<Longrightarrow> pool_run acts p = Some p' \<Longrightarrow> pool_inv p'"
  by (induction acts arbitrary: p) (auto split: option.splits dest: pool_act_inv)

lemma sum_list_empty_msets [simp]: "sum_list (replicate n {#}) = {#}"
  by (induction n) simp_all

lemma NewWorkerPool_form:
  assumes "NewWorkerPool opts = Some p" and opts: "set opts \<subseteq> range WithWorkerCount \<union> range WithCapacity"
  shows "\<exists>wc c. p = zero_pool\<lparr>p_workerCount := wc, p_capacity := c\<rparr> \<and> 0 \<le> c"
proof -
  have zero: "\<exists>wc c. fold (\<lambda>opt. opt) opts q = q\<lparr>p_workerCount := wc, p_capacity := c\<rparr>" for q :: "'a WorkerPool"
    using opts
  proof (induction opts arbitrary: q)
    case Nil
    show ?case by (intro exI [of _ "p_workerCount q"] exI [of _ "p_capacity q"]) simp
  next
    case (Cons opt opts)
    then obtain n where "opt = WithWorkerCount n \<or> opt = WithCapacity n" by auto
    moreover obtain wc c where "fold (\<lambda>opt. opt) opts (opt q) = (opt q)\<lparr>p_workerCount := wc, p_capacity := c\<rparr>"
      using Cons.IH [of "opt q"] Cons.prems by auto
    ultimately show ?case
      by (intro exI [of _ wc] exI [of _ c]) (auto simp: WithWorkerCount_def WithCapacity_def)
  qed
  obtain wc c where q: "fold (\<lambda>opt. opt) opts zero_pool = (zero_pool :: 'a WorkerPool)\<lparr>p_workerCount := wc, p_capacity := c\<rparr>"
    using zero by blast
  have "p = zero_pool\<lparr>p_workerCount := (if wc = 0 then 5 else wc), p_capacity := (if c = 0 then 128 else c)\<rparr>
      \<and> 0 \<le> (if c = 0 then 128 else c)"
    using assms(1) unfolding NewWorkerPool_def q Let_def by (cases "wc = 0"; cases "c = 0") (auto simp: zero_pool_def split: if_splits)
  then show ?thesis by blast
qed

lemma started_pool_inv:
  assumes "NewWorkerPool opts = Some p" and "set opts \<subseteq> range WithWorkerCount \<union> range WithCapacity"
  shows "pool_inv (WorkerPool_Start p)"
proof -
  obtain wc c where p: "p = zero_pool\<lparr>p_workerCount := wc, p_capacity := c\<rparr>" "0 \<le> c"
    using NewWorkerPool_form [OF assms] by blast
  have "pq_rep NewPriorityQueue {#}" by (rule retry_pq.rep_empty)
  then have "pool_inv (WorkerPool_Start p)"
    using p(2) linked.rep_empty
    by (intro pool_invI [of _ "[]" "{#}"])
       (simp_all add: p(1) zero_pool_def WorkerPool_Start_def pool_frame NewPriorityQueue_eq sum_list_replicate int32_def)
  then show ?thesis .
qed

lemma worker_step_workers:
  "worker_step ctx err now wait i ph p = Some p' \<Longrightarrow> length (p_workers p') = length (p_workers p)"
  by (cases ph) (auto simp: set_worker_def moveToRetry_def Let_def split: if_splits list.splits)

lemma jobs_step_workers: "jobs_step ph p = Some p' \<Longrightarrow> p_workers p' = p_workers p"
  by (cases ph) (auto simp: chan_send_def split: if_splits option.splits prod.splits send_result.splits)

lemma retry_step_workers: "retry_step now ph p = Some p' \<Longrightarrow> p_workers p' = p_workers p"
  by (cases ph) (auto simp: pool_queue_def split: if_splits option.splits prod.splits)

lemma stop_step_workers: "stop_step ph p = Some p' \<Longrightarrow> p_workers p' = p_workers p"
  by (cases ph) (auto split: if_splits)

lemmas other_steps_workers = jobs_step_workers retry_step_workers stop_step_workers

lemma pool_act_workers: "pool_act act p = Some p' \<Longrightarrow> length (p_workers p') = length (p_workers p)"
  by (cases act)
     (auto simp: pool_act_def WorkerPool_Submit_def WorkerPool_TrySubmit_def chan_send_def
        dest: worker_step_workers other_steps_workers split: if_splits send_result.splits)

lemma pool_run_workers: "pool_run acts p = Some p' \<Longrightarrow> length (p_workers p') = length (p_workers p)"
  by (induction acts arbitrary: p) (auto split: option.splits dest: pool_act_workers)

lemma busy_le: "busy p \<le> length (p_workers p)"
proof -
  have "worker_busy ph \<le> 1" for ph :: "'a worker_phase" by (cases ph) auto
  then have "sum_list (map worker_busy ws) \<le> length ws" for ws :: "'a worker_phase list"
    by (induction ws) (auto intro: add_mono [of 1, simplified] order_trans [OF add_mono])
  then show ?thesis by (simp add: busy_def)
qed

section \<open>Properties\<close>

text \<open>
  C11. The pool neither loses nor duplicates a task: in every interleaving of submissions,
  workers, the two loops, \<open>Stop\<close> and cancellation of the context, the tasks accepted so far
  are exactly those whose \<open>Do\<close> returned nil together with those waiting in the job queue,
  in the retry queue or in the channel, and those held by a worker or a loop; and the channel
  never holds more than its capacity.
\<close>

theorem pool_conserves_tasks:
  assumes "NewWorkerPool opts = Some p0" and "set opts \<subseteq> range WithWorkerCount \<union> range WithCapacity"
    and "pool_run acts (WorkerPool_Start p0) = Some p"
  shows "\<exists>xs M. lq_rep (p_jobsQ p) xs \<and> pq_rep (p_retryQ p) M
      \<and> p_submitted p = p_completed p + waiting xs M p + held p \<and> int (length (p_jobChan p)) \<le> p_capacity p"
  using pool_run_inv [OF started_pool_inv [OF assms(1,2)] assms(3)] unfolding pool_inv_def by blast

definition small_pool :: "string WorkerPool" where
  "small_pool = the (NewWorkerPool [WithWorkerCount 1, WithCapacity 1])"

lemma small_pool_new:
  "NewWorkerPool [WithWorkerCount 1, WithCapacity 1] = Some small_pool"
  by (simp add: small_pool_def NewWorkerPool_def WithWorkerCount_def WithCapacity_def zero_pool_def Let_def)

text \<open>A run in which \<^verbatim>\<open>Stop\<close> reads the retry queue just before the worker fills it.\<close>

definition lost_retry_run :: "string pool_action list" where
  "lost_retry_run =
     [ActSubmit ''t'', ActWorker 0 False False 0 0, ActWorker 0 False False 0 0,
      ActStop, ActStop, ActStop,
      ActWorker 0 False True 0 0, ActWorker 0 False False 0 5, ActWorker 0 False False 0 0,
      ActStop, ActStop, ActStop, ActStop,
      ActWorker 0 False False 0 0, ActJobs, ActRetry 0, ActStop]"

definition lost_retry_pool :: "string WorkerPool" where
  "lost_retry_pool = the (pool_run lost_retry_run (WorkerPool_Start small_pool))"

lemma lost_retry_state:
  "pool_run lost_retry_run (WorkerPool_Start small_pool) = Some lost_retry_pool"
  "p_stop lost_retry_pool = StopReturned \<and> \<not> p_panicked lost_retry_pool \<and> p_workers lost_retry_pool = [WExited]
    \<and> p_jobs lost_retry_pool = JExited \<and> p_retry lost_retry_pool = RExited
    \<and> PQ_Size (p_retryQ lost_retry_pool) = 1"
  by code_simp+

lemma lost_retry_ghosts: "p_submitted lost_retry_pool = {#''t''#}" "p_completed lost_retry_pool = {#}"
  by code_simp+

theorem pool_conserves_tasks_witness:
  "\<exists>xs M. lq_rep (p_jobsQ lost_retry_pool) xs \<and> pq_rep (p_retryQ lost_retry_pool) M
     \<and> {#''t''#} = waiting xs M lost_retry_pool + held lost_retry_pool"
  using pool_conserves_tasks [OF small_pool_new _ lost_retry_state(1)] lost_retry_ghosts by auto

text \<open>
  The busy counter that the heartbeat reports is, in every interleaving, the number of
  workers that are executing a task, and never exceeds the number of workers (for any pool of
  fewer than $2^{31}$ workers, so that the 32-bit counter does not wrap).
\<close>

theorem busy_count_exact:
  assumes "NewWorkerPool opts = Some p0" and "set opts \<subseteq> range WithWorkerCount \<union> range WithCapacity"
    and "pool_run acts (WorkerPool_Start p0) = Some p" and "p_workerCount p0 < 2 ^ 31"
  shows "WorkerPool_BusyCount p = int (busy p) \<and> busy p \<le> nat (p_workerCount p0)"
proof -
  have len: "length (p_workers p) = nat (p_workerCount p0)"
    using pool_run_workers [OF assms(3)] NewWorkerPool_form [OF assms(1,2)]
    by (auto simp: WorkerPool_Start_def zero_pool_def)
  have "p_busyCount p = int32 (int (busy p))"
    using pool_run_inv [OF started_pool_inv [OF assms(1,2)] assms(3)] unfolding pool_inv_def by blast
  moreover have "int (nat (p_workerCount p0)) < 2 ^ 31" using assms(4) by (simp add: int_nat_eq)
  then have "int (busy p) < 2 ^ 31" using busy_le [of p] len by linarith
  ultimately show ?thesis using busy_le [of p] len by (simp add: int32_id WorkerPool_BusyCount_def)
qed

theorem busy_count_exact_witness:
  "WorkerPool_BusyCount lost_retry_pool = int (busy lost_retry_pool) \<and> busy lost_retry_pool \<le> 1"
proof -
  have "p_workerCount small_pool = 1" by code_simp
  with busy_count_exact [OF small_pool_new _ lost_retry_state(1)] show ?thesis by simp
qed

text \<open>
  \<open>Stop\<close> can lose a task that waits for a retry: because it reads the four operands of
  its condition one after the other, there is a run of a pool with one worker in which
  \<open>Stop\<close> returns normally, all goroutines have exited, and the only submitted task, whose
  \<open>Do\<close> failed once, sits in the retry queue and is never executed again.
\<close>

theorem stop_loses_retry:
  "\<exists>p0 acts p. NewWorkerPool [WithWorkerCount 1, WithCapacity 1] = Some p0
     \<and> pool_run acts (WorkerPool_Start p0) = Some p \<and> p_stop p = StopReturned \<and> \<not> p_panicked p
     \<and> p_workers p = [WExited] \<and> p_jobs p = JExited \<and> p_retry p = RExited
     \<and> p_submitted p = {#''t''#} \<and> p_completed p = {#} \<and> PQ_Size (p_retryQ p) = 1"
  using small_pool_new lost_retry_state lost_retry_ghosts by blast

definition panic_run :: "string pool_action list" where
  "panic_run =
     [ActSubmit ''t'', ActWorker 0 False False 0 0, ActWorker 0 False False 0 0,
      ActWorker 0 False True 0 0, ActWorker 0 False False 0 5, ActWorker 0 False False 0 0,
      ActRetry 9, ActRetry 9, ActRetry 9, ActRetry 9, ActJobs, ActJobs,
      ActStop, ActStop, ActStop, ActStop, ActStop, ActStop, ActStop, ActJobs]"

lemma panic_state: "map_option p_panicked (pool_run panic_run (WorkerPool_Start small_pool)) = Some True"
  by code_simp

text \<open>
  \<open>Stop\<close> can crash the process: there is a run in which it finds both queues and the
  channel empty and no worker busy while the job loop holds a retried job, closes the
  channel, and the job loop's pending send panics.
\<close>

theorem stop_can_panic:
  "\<exists>p0 acts p. NewWorkerPool [WithWorkerCount 1, WithCapacity 1] = Some p0
     \<and> pool_run acts (WorkerPool_Start p0) = Some (p :: string WorkerPool) \<and> p_panicked p"
proof -
  obtain p where "pool_run panic_run (WorkerPool_Start small_pool) = Some p" "p_panicked p"
    using panic_state by (auto simp: map_option_eq_Some)
  with small_pool_new show ?thesis by blast
qed

end
