(* ===== verification/Worker_Service.thy ===== *)
theory Worker_Service
  imports Worker_Task Worker_Pool Worker_Client Engine
begin

text \<open>
  The service of a worker (\<^verbatim>\<open>worker/service\<close>) and its gRPC handlers
  (\<^verbatim>\<open>worker/server/grpc_server.go\<close>): accepting tasks, the set of tasks in flight
  (\<open>unique\<close>), cancellation, heartbeats. A cancellable context is a number;
  \<open>s_cancelled\<close> lists the contexts that \<^verbatim>\<open>CancelTasks\<close> has cancelled.
\<close>

section \<open>Tasks in flight\<close>

text \<open>\<open>None\<close> is the nil pointer that the methods of \<^verbatim>\<open>*unique\<close> allow.\<close>

type_synonym unique = "nat option gomap option"

definition newUnique :: unique where
  "newUnique = Some []"

definition unique_Add :: "string \<Rightarrow> unique \<Rightarrow> bool \<times> unique" where
  "unique_Add i u =
     (case u of
        None \<Rightarrow> (True, None)
      | Some items \<Rightarrow>
          if map_of items i = None then (True, Some (AList.update i None items)) else (False, Some items))"

definition unique_Remove :: "string \<Rightarrow> unique \<Rightarrow> unique" where
  "unique_Remove i u = map_option (AList.delete i) u"

definition unique_SetCancel :: "string \<Rightarrow> nat \<Rightarrow> unique \<Rightarrow> unique" where
  "unique_SetCancel i cancel u = map_option (AList.update i (Some cancel)) u"

text \<open>The context that \<^verbatim>\<open>Cancel\<close> cancels; its result is whether there is one.\<close>

definition unique_Cancel :: "string \<Rightarrow> unique \<Rightarrow> nat option" where
  "unique_Cancel i u =
     (case u of
        None \<Rightarrow> None
      | Some items \<Rightarrow> (case map_of items i of None \<Rightarrow> None | Some cancel \<Rightarrow> cancel))"

section \<open>Tracked tasks\<close>

text \<open>The closures \<^verbatim>\<open>setCancel\<close> and \<^verbatim>\<open>onDone\<close> capture the key and the service.\<close>

record TrackedTask =
  tt_inner :: ExecutableTask
  tt_key :: string

definition trackedTask_begin :: "TrackedTask \<Rightarrow> nat \<Rightarrow> unique \<Rightarrow> unique" where
  "trackedTask_begin t ctx u = unique_SetCancel (tt_key t) ctx u"

definition trackedTask_OnDone :: "TrackedTask \<Rightarrow> bool \<Rightarrow> unique \<Rightarrow> unique" where
  "trackedTask_OnDone t err u = (if err then u else unique_Remove (tt_key t) u)"

definition trackedTask_GetWaitDuration :: "TrackedTask \<Rightarrow> int" where
  "trackedTask_GetWaitDuration t = ExecutableTask_GetWaitDuration (tt_inner t)"

section \<open>The service\<close>

record 'c WorkerService =
  s_workerPool :: "TrackedTask WorkerPool"
  s_executionRegistry :: "executor ExecutorRegistry"
  s_clusterClient :: "'c ClusterClient"
  s_unique :: unique
  s_node :: WorkerNode
  s_suspended :: bool
  s_cancelled :: "nat list"
  s_contexts :: nat

definition NewWorkerService ::
  "WorkerNode \<Rightarrow> TrackedTask WorkerPool \<Rightarrow> executor ExecutorRegistry \<Rightarrow> 'c ClusterClient \<Rightarrow> 'c WorkerService" where
  "NewWorkerService node pool executionRegistry clusterClient =
     \<lparr>s_workerPool = pool, s_executionRegistry = executionRegistry, s_clusterClient = clusterClient,
      s_unique = newUnique, s_node = node, s_suspended = False, s_cancelled = [], s_contexts = 0\<rparr>"

datatype register_error = RegisterFailed string cluster_error | RegistrationRejected string

definition registration_request :: "WorkerNode \<Rightarrow> RegisterRequest" where
  "registration_request node =
     \<lparr>rr_WorkerId = n_ID node, rr_Address = n_Address node, rr_Labels = n_Labels node,
      rr_Capabilities = n_Capabilities node, rr_Capacity = int32 (n_Capacity node)\<rparr>"

definition WorkerService_register ::
  "(string \<Rightarrow> string + 'c) \<Rightarrow> ('c \<Rightarrow> RegisterRequest \<Rightarrow> string + RegisterResponse) \<Rightarrow> 'c WorkerService \<Rightarrow>
   register_error option \<times> 'c WorkerService" where
  "WorkerService_register dial call s =
     (case ClusterClient_Register dial call (registration_request (s_node s)) (s_clusterClient s) of
        (Inl err, c) \<Rightarrow> (Some (RegisterFailed (n_ID (s_node s)) err), s\<lparr>s_clusterClient := c\<rparr>)
      | (Inr resp, c) \<Rightarrow>
          (if \<not> rres_Accepted resp then Some (RegistrationRejected (rres_Reason resp)) else None, s\<lparr>s_clusterClient := c\<rparr>))"

definition WorkerService_Start ::
  "(string \<Rightarrow> string + 'c) \<Rightarrow> ('c \<Rightarrow> RegisterRequest \<Rightarrow> string + RegisterResponse) \<Rightarrow> 'c WorkerService \<Rightarrow>
   register_error option \<times> 'c WorkerService" where
  "WorkerService_Start dial call s =
     (case WorkerService_register dial call s of
        (Some err, s') \<Rightarrow> (Some err, s')
      | (None, s') \<Rightarrow> (None, s'\<lparr>s_workerPool := WorkerPool_Start (s_workerPool s')\<rparr>))"

datatype dispatch_error = WorkerSuspended | GetExecutorError executor_error | WorkerPoolFull

text \<open>\<^verbatim>\<open>DispatchTask\<close> up to the submission, and the submission.\<close>

datatype acceptance = Refused dispatch_error | AlreadyInFlight | NewTask TrackedTask

definition request_task :: "DispatchRequest \<Rightarrow> executor \<Rightarrow> TrackedTask" where
  "request_task req executor =
     \<lparr>tt_inner = NewExecutableTask
        \<lparr>ti_ID = dr_TaskId req, ti_WorkflowID = dr_WorkflowId req,
         ti_Spec = \<lparr>ts_Type = '''', ts_Payload = dr_Payload req\<rparr>,
         ti_TimeoutInSeconds = dr_TimeoutSeconds req\<rparr> executor,
      tt_key = dr_TaskId req\<rparr>"

definition dispatch_accept :: "DispatchRequest \<Rightarrow> 'c WorkerService \<Rightarrow> acceptance \<times> 'c WorkerService" where
  "dispatch_accept req s =
     (if s_suspended s then (Refused WorkerSuspended, s)
      else (case unique_Add (dr_TaskId req) (s_unique s) of
              (False, u) \<Rightarrow> (AlreadyInFlight, s\<lparr>s_unique := u\<rparr>)
            | (True, u) \<Rightarrow>
                (case ExecutorRegistry_Get (dr_Type req) (s_executionRegistry s) of
                   Inl err \<Rightarrow> (Refused (GetExecutorError err), s\<lparr>s_unique := u\<rparr>)
                 | Inr executor \<Rightarrow> (NewTask (request_task req executor), s\<lparr>s_unique := u\<rparr>))))"

definition dispatch_submit :: "TrackedTask \<Rightarrow> 'c WorkerService \<Rightarrow> dispatch_error option \<times> 'c WorkerService" where
  "dispatch_submit t s =
     (case WorkerPool_TrySubmit t (s_workerPool s) of
        (True, p) \<Rightarrow> (None, s\<lparr>s_workerPool := p\<rparr>)
      | (False, p) \<Rightarrow> (Some WorkerPoolFull, s\<lparr>s_workerPool := p, s_unique := unique_Remove (tt_key t) (s_unique s)\<rparr>))"

definition DispatchTask :: "DispatchRequest \<Rightarrow> 'c WorkerService \<Rightarrow> dispatch_error option \<times> 'c WorkerService" where
  "DispatchTask req s =
     (case dispatch_accept req s of
        (Refused err, s') \<Rightarrow> (Some err, s')
      | (AlreadyInFlight, s') \<Rightarrow> (None, s')
      | (NewTask t, s') \<Rightarrow> dispatch_submit t s')"

fun cancel_loop :: "string list \<Rightarrow> bool gomap \<Rightarrow> 'c WorkerService \<Rightarrow> bool gomap \<times> 'c WorkerService" where
  "cancel_loop [] cancelled s = (cancelled, s)"
| "cancel_loop (taskID # taskIDs) cancelled s =
     (case unique_Cancel taskID (s_unique s) of
        None \<Rightarrow> cancel_loop taskIDs (AList.update taskID False cancelled) s
      | Some ctx \<Rightarrow> cancel_loop taskIDs (AList.update taskID True cancelled) (s\<lparr>s_cancelled := s_cancelled s @ [ctx]\<rparr>))"

definition WorkerService_CancelTasks :: "string list \<Rightarrow> 'c WorkerService \<Rightarrow> bool gomap \<times> 'c WorkerService" where
  "WorkerService_CancelTasks taskIDs s = cancel_loop taskIDs [] s"

definition sendHeartbeat ::
  "(string \<Rightarrow> string + 'c) \<Rightarrow> ('c \<Rightarrow> HeartbeatRequest \<Rightarrow> string + bool) \<Rightarrow> ('c \<Rightarrow> RegisterRequest \<Rightarrow> string + RegisterResponse) \<Rightarrow>
   'c WorkerService \<Rightarrow> 'c WorkerService" where
  "sendHeartbeat dial heartbeat register s =
     (case ClusterClient_Heartbeat dial heartbeat
             \<lparr>hbr_WorkerId = n_ID (s_node s), hbr_RunningTasks = WorkerPool_BusyCount (s_workerPool s)\<rparr> (s_clusterClient s) of
        (Inr ok, c) \<Rightarrow> s\<lparr>s_clusterClient := c\<rparr>
      | (Inl err, c) \<Rightarrow>
          (case WorkerService_register dial register (s\<lparr>s_clusterClient := c, s_suspended := True\<rparr>) of
             (Some regErr, s') \<Rightarrow> s'
           | (None, s') \<Rightarrow> s'\<lparr>s_suspended := False\<rparr>))"

section \<open>The gRPC handlers\<close>

definition GRPCServer_Dispatch :: "DispatchRequest \<Rightarrow> 'c WorkerService \<Rightarrow> DispatchResponse \<times> 'c WorkerService" where
  "GRPCServer_Dispatch request s =
     (case DispatchTask request s of
        (Some err, s') \<Rightarrow> (\<lparr>dres_Accepted = False, dres_Reason = ''''\<rparr>, s')
      | (None, s') \<Rightarrow> (\<lparr>dres_Accepted = True, dres_Reason = ''''\<rparr>, s'))"

definition GRPCServer_CancelTasks :: "string list \<Rightarrow> 'c WorkerService \<Rightarrow> bool gomap \<times> 'c WorkerService" where
  "GRPCServer_CancelTasks taskIds s = WorkerService_CancelTasks taskIds s"

section \<open>Runs\<close>

text \<open>
  The pool runs the tracked tasks: \<^verbatim>\<open>Do\<close> sets the cancel function of a new context when a
  worker starts it, and \<^verbatim>\<open>OnDone\<close> is called when it ends. The other steps are the two
  halves of \<^verbatim>\<open>DispatchTask\<close>, \<^verbatim>\<open>CancelTasks\<close> and the heartbeat.
\<close>

definition pool_callback :: "TrackedTask pool_action \<Rightarrow> 'c WorkerService \<Rightarrow> unique \<times> nat" where
  "pool_callback act s =
     (case act of
        ActWorker i ctx err now wait \<Rightarrow>
          (case p_workers (s_workerPool s) ! i of
             WTaken job \<Rightarrow> (trackedTask_begin (wj_task job) (s_contexts s) (s_unique s), Suc (s_contexts s))
           | WRunning job \<Rightarrow> (trackedTask_OnDone (wj_task job) err (s_unique s), s_contexts s)
           | _ \<Rightarrow> (s_unique s, s_contexts s))
      | _ \<Rightarrow> (s_unique s, s_contexts s))"

datatype 'c service_action =
    SvAccept DispatchRequest
  | SvSubmit nat
  | SvPool "TrackedTask pool_action"
  | SvCancel "string list"
  | SvHeartbeat "string \<Rightarrow> string + 'c" "'c \<Rightarrow> HeartbeatRequest \<Rightarrow> string + bool" "'c \<Rightarrow> RegisterRequest \<Rightarrow> string + RegisterResponse"

text \<open>
  The second component of a state lists the accepted tasks not yet submitted; \<open>SvSubmit n\<close>
  is the second half of \<^verbatim>\<open>DispatchTask\<close> for the \<open>n\<close>-th of them.
\<close>

definition service_act ::
  "'c service_action \<Rightarrow> 'c WorkerService \<times> TrackedTask list \<Rightarrow> ('c WorkerService \<times> TrackedTask list) option" where
  "service_act act x = (case x of (s, pend) \<Rightarrow>
     (case act of
        SvAccept req \<Rightarrow>
          (case dispatch_accept req s of
             (NewTask t, s') \<Rightarrow> Some (s', t # pend)
           | (_, s') \<Rightarrow> Some (s', pend))
      | SvSubmit n \<Rightarrow>
          if n < length pend then Some (snd (dispatch_submit (pend ! n) s), take n pend @ drop (Suc n) pend) else None
      | SvPool act \<Rightarrow>
          (case act of
             ActSubmit t \<Rightarrow> None
           | ActTrySubmit t \<Rightarrow> None
           | _ \<Rightarrow>
               (case pool_act act (s_workerPool s) of
                  None \<Rightarrow> None
                | Some p \<Rightarrow> (case pool_callback act s of
                     (u, n) \<Rightarrow> Some (s\<lparr>s_workerPool := p, s_unique := u, s_contexts := n\<rparr>, pend))))
      | SvCancel ids \<Rightarrow> Some (snd (WorkerService_CancelTasks ids s), pend)
      | SvHeartbeat dial hb reg \<Rightarrow> Some (sendHeartbeat dial hb reg s, pend)))"

fun service_run ::
  "'c service_action list \<Rightarrow> 'c WorkerService \<times> TrackedTask list \<Rightarrow> ('c WorkerService \<times> TrackedTask list) option" where
  "service_run [] x = Some x"
| "service_run (a # as) x = (case service_act a x of None \<Rightarrow> None | Some y \<Rightarrow> service_run as y)"

section \<open>Tasks in flight are unique\<close>

lemma worker_step_ghost:
  "worker_step ctx err now wait i ph p = Some p' \<Longrightarrow> p_submitted p' = p_submitted p
     \<and> p_completed p' = (case ph of WRunning job \<Rightarrow> if err then p_completed p else add_mset (wj_task job) (p_completed p)
                        | _ \<Rightarrow> p_completed p)"
  by (cases ph) (auto simp: set_worker_def moveToRetry_def Let_def split: if_splits list.splits)

lemma jobs_step_ghost: "jobs_step ph p = Some p' \<Longrightarrow> p_submitted p' = p_submitted p \<and> p_completed p' = p_completed p"
  by (cases ph) (auto simp: chan_send_def split: if_splits option.splits prod.splits send_result.splits)

lemma retry_step_ghost: "retry_step now ph p = Some p' \<Longrightarrow> p_submitted p' = p_submitted p \<and> p_completed p' = p_completed p"
  by (cases ph) (auto simp: pool_queue_def split: if_splits option.splits prod.splits)

lemma stop_step_ghost: "stop_step ph p = Some p' \<Longrightarrow> p_submitted p' = p_submitted p \<and> p_completed p' = p_completed p"
  by (cases ph) (auto split: if_splits)

lemmas other_steps_ghost = jobs_step_ghost retry_step_ghost stop_step_ghost

text \<open>The task an action of the pool completes.\<close>

definition completes :: "'t pool_action \<Rightarrow> 't WorkerPool \<Rightarrow> 't multiset" where
  "completes act p = (case act of
     ActWorker i ctx err now wait \<Rightarrow>
       (case p_workers p ! i of WRunning job \<Rightarrow> if err then {#} else {#wj_task job#} | _ \<Rightarrow> {#})
   | _ \<Rightarrow> {#})"

lemma pool_act_ghost:
  assumes "pool_act act p = Some p'" "\<And>t. act \<noteq> ActSubmit t" "\<And>t. act \<noteq> ActTrySubmit t"
  shows "p_submitted p' = p_submitted p \<and> p_completed p' = p_completed p + completes act p"
  using assms
  by (cases act)
     (auto simp: pool_act_def completes_def dest!: worker_step_ghost other_steps_ghost
        split: if_splits worker_phase.splits)

lemma pool_inv_sub: "pool_inv p \<Longrightarrow> p_completed p \<subseteq># p_submitted p"
  by (elim pool_invE) simp

definition in_flight :: "'c WorkerService \<times> TrackedTask list \<Rightarrow> TrackedTask multiset" where
  "in_flight x = (case x of (s, pend) \<Rightarrow>
     p_submitted (s_workerPool s) - p_completed (s_workerPool s) + mset pend)"

definition known :: "unique \<Rightarrow> string \<Rightarrow> bool" where
  "known u k = (case u of None \<Rightarrow> False | Some items \<Rightarrow> map_of items k \<noteq> None)"

definition tracked :: "unique \<Rightarrow> TrackedTask multiset \<Rightarrow> bool" where
  "tracked u F \<longleftrightarrow> u \<noteq> None \<and> (\<forall>k. count (image_mset tt_key F) k \<le> (if known u k then 1 else 0))"

definition service_inv :: "'c WorkerService \<times> TrackedTask list \<Rightarrow> bool" where
  "service_inv x \<longleftrightarrow> pool_inv (s_workerPool (fst x)) \<and> tracked (s_unique (fst x)) (in_flight x)"

lemma known_simps [simp]:
  "u \<noteq> None \<Longrightarrow> known (unique_Remove i u) k \<longleftrightarrow> k \<noteq> i \<and> known u k"
  "u \<noteq> None \<Longrightarrow> known (unique_SetCancel i ctx u) k \<longleftrightarrow> k = i \<or> known u k"
  "unique_Remove i u = None \<longleftrightarrow> u = None" "unique_SetCancel i ctx u = None \<longleftrightarrow> u = None"
  by (auto simp: known_def unique_Remove_def unique_SetCancel_def split: option.splits)

lemma unique_Add_known:
  "u \<noteq> None \<Longrightarrow> unique_Add i u = (b, u') \<Longrightarrow> u' \<noteq> None \<and> b = (\<not> known u i) \<and> known u' k = (k = i \<or> known u k)"
  by (auto simp: known_def unique_Add_def split: option.splits if_splits)

lemma trackedD: "tracked u F \<Longrightarrow> count (image_mset tt_key F) k \<le> (if known u k then 1 else 0)"
  by (simp add: tracked_def)

lemma tracked_remove:
  assumes "tracked u (add_mset t F)"
  shows "tracked (unique_Remove (tt_key t) u) F"
proof -
  have "count (image_mset tt_key F) k \<le> (if known (unique_Remove (tt_key t) u) k then 1 else 0)" for k
    using assms trackedD [OF assms, of k] by (cases "k = tt_key t") (auto simp: tracked_def split: if_splits)
  then show ?thesis using assms by (simp add: tracked_def)
qed

lemma tracked_mono:
  assumes "tracked u F" "u' \<noteq> None" "\<And>k. known u k \<Longrightarrow> known u' k"
  shows "tracked u' F"
proof -
  have "count (image_mset tt_key F) k \<le> (if known u' k then 1 else 0)" for k
    using trackedD [OF assms(1), of k] assms(3) [of k] by (auto split: if_splits)
  then show ?thesis using assms(2) by (simp add: tracked_def)
qed

lemma tracked_add:
  assumes "tracked u F" "unique_Add (tt_key t) u = (True, u')"
  shows "tracked u' (add_mset t F)"
proof -
  have u: "u \<noteq> None" using assms(1) by (simp add: tracked_def)
  have "count (image_mset tt_key (add_mset t F)) k \<le> (if known u' k then 1 else 0)" for k
    using trackedD [OF assms(1), of k] unique_Add_known [OF u assms(2), of k] by (auto split: if_splits)
  then show ?thesis using unique_Add_known [OF u assms(2)] by (simp add: tracked_def)
qed

lemma in_flight_simp [simp]:
  "in_flight (s, pend) = p_submitted (s_workerPool s) - p_completed (s_workerPool s) + mset pend"
  by (simp add: in_flight_def)

lemma service_inv_simp [simp]:
  "service_inv (s, pend) \<longleftrightarrow> pool_inv (s_workerPool s) \<and> tracked (s_unique s) (in_flight (s, pend))"
  by (simp add: service_inv_def)

lemma accept_inv:
  assumes "service_inv (s, pend)" "dispatch_accept req s = (a, s')"
  shows "case a of NewTask t \<Rightarrow> service_inv (s', t # pend) | _ \<Rightarrow> service_inv (s', pend)"
proof -
  from assms(1) have tr: "tracked (s_unique s) (in_flight (s, pend))" and pool: "pool_inv (s_workerPool s)" by simp_all
  then have u: "s_unique s \<noteq> None" by (simp add: tracked_def)
  obtain b u' where add: "unique_Add (dr_TaskId req) (s_unique s) = (b, u')" by (cases "unique_Add (dr_TaskId req) (s_unique s)")
  have mono: "tracked u' (in_flight (s, pend))"
    by (rule tracked_mono [OF tr]) (simp_all add: unique_Add_known [OF u add])
  show ?thesis
  proof (cases "s_suspended s \<or> \<not> b")
    case True
    then show ?thesis using assms(2) add mono tr pool by (cases "s_suspended s") (auto simp: dispatch_accept_def)
  next
    case False
    show ?thesis
    proof (cases "ExecutorRegistry_Get (dr_Type req) (s_executionRegistry s)")
      case (Inl err)
      then show ?thesis using False assms(2) add mono pool by (auto simp: dispatch_accept_def)
    next
      case (Inr ex)
      have "tracked u' (add_mset (request_task req ex) (in_flight (s, pend)))"
        by (rule tracked_add [OF tr]) (use add False in \<open>simp add: request_task_def\<close>)
      moreover have "a = NewTask (request_task req ex) \<and> s' = s\<lparr>s_unique := u'\<rparr>"
        using False assms(2) add Inr by (simp add: dispatch_accept_def)
      ultimately show ?thesis using pool by simp
    qed
  qed
qed

lemma service_submit_inv:
  assumes "service_inv (s, pend)" "mset pend = add_mset t (mset pend')"
  shows "service_inv (snd (dispatch_submit t s), pend')"
proof -
  let ?p = "s_workerPool s"
  from assms(1) have tr: "tracked (s_unique s) (in_flight (s, pend))" and pool: "pool_inv ?p" by simp_all
  note M = assms(2)
  obtain b p where r: "WorkerPool_TrySubmit t ?p = (b, p)" by (cases "WorkerPool_TrySubmit t ?p")
  have inv: "pool_inv p" using pool_submit_inv(2) [OF pool, of t] r by simp
  have ghost: "p_completed p = p_completed ?p" "p_submitted p = (if b then add_mset t (p_submitted ?p) else p_submitted ?p)"
    using r by (auto simp: WorkerPool_TrySubmit_def chan_send_def split: if_splits)
  show ?thesis
  proof (cases b)
    case True
    have "add_mset t (p_submitted ?p) - p_completed ?p = add_mset t (p_submitted ?p - p_completed ?p)"
      using multiset_diff_union_assoc [OF pool_inv_sub [OF pool], of "{#t#}"] by simp
    then show ?thesis using True tr inv ghost M r by (simp add: dispatch_submit_def)
  next
    case False
    have "tracked (unique_Remove (tt_key t) (s_unique s)) (p_submitted ?p - p_completed ?p + mset pend')"
      using tr M by (intro tracked_remove) simp
    then show ?thesis using False inv ghost r by (simp add: dispatch_submit_def)
  qed
qed

text \<open>An action of the pool ends the flight of the task it completes, and only that key is removed.\<close>

lemma pool_step_flight:
  assumes inv: "service_inv (s, pend)" and act: "pool_act act (s_workerPool s) = Some p"
    and no: "\<And>t. act \<noteq> ActSubmit t" "\<And>t. act \<noteq> ActTrySubmit t"
  shows "in_flight (s, pend) = p_submitted p - p_completed p + mset pend + completes act (s_workerPool s)"
proof -
  let ?p = "s_workerPool s"
  have pool: "pool_inv p" using pool_act_inv [OF _ act] inv by simp
  have ghost: "p_submitted p = p_submitted ?p" "p_completed p = p_completed ?p + completes act ?p"
    using pool_act_ghost [OF act no] by auto
  obtain R where R: "p_submitted p = p_completed p + R" using pool_inv_sub [OF pool] by (metis subset_mset.add_diff_inverse)
  then have "p_submitted ?p - p_completed ?p = completes act ?p + R" using ghost by (simp add: ac_simps)
  moreover have "p_submitted p - p_completed p = R" using R by simp
  ultimately show ?thesis by (simp add: ac_simps)
qed

lemma pool_callback_unique:
  assumes "pool_callback act s = (u, n)"
  shows "(\<exists>t. completes act (s_workerPool s) = {#t#} \<and> u = unique_Remove (tt_key t) (s_unique s))
    \<or> completes act (s_workerPool s) = {#} \<and> (u = s_unique s \<or> (\<exists>i ctx. u = unique_SetCancel i ctx (s_unique s)))"
  using assms
  by (auto simp: completes_def pool_callback_def trackedTask_OnDone_def trackedTask_begin_def
      split: pool_action.splits worker_phase.splits if_splits)

lemma pool_inv_step:
  assumes inv: "service_inv (s, pend)" and act: "pool_act act (s_workerPool s) = Some p"
    and no: "\<And>t. act \<noteq> ActSubmit t" "\<And>t. act \<noteq> ActTrySubmit t" and cb: "pool_callback act s = (u, n)"
  shows "service_inv (s\<lparr>s_workerPool := p, s_unique := u, s_contexts := n\<rparr>, pend)"
proof -
  let ?p = "s_workerPool s"
  let ?F = "in_flight (s, pend)" and ?F' = "p_submitted p - p_completed p + mset pend"
  from inv have tr: "tracked (s_unique s) ?F" and pool: "pool_inv ?p" by simp_all
  from tr have un: "s_unique s \<noteq> None" by (simp add: tracked_def)
  have inv': "pool_inv p" using pool_act_inv [OF pool act] .
  have F: "?F = ?F' + completes act ?p" using pool_step_flight [OF inv act no] .
  have "tracked u ?F'"
    using pool_callback_unique [OF cb]
  proof (elim disjE exE conjE)
    fix t assume "completes act ?p = {#t#}" "u = unique_Remove (tt_key t) (s_unique s)"
    then show ?thesis using tr F by (simp add: tracked_remove)
  next
    assume "completes act ?p = {#}" "u = s_unique s"
    then show ?thesis using tr F by simp
  next
    fix i ctx assume u: "completes act ?p = {#}" "u = unique_SetCancel i ctx (s_unique s)"
    then have "tracked u ?F" using known_simps(2) [OF un] known_simps(4) un by (intro tracked_mono [OF tr]) simp_all
    then show ?thesis using F u(1) by simp
  qed
  with inv' show ?thesis by simp
qed

lemma cancel_loop_frame:
  "cancel_loop ids m s = (m', s') \<Longrightarrow> s_workerPool s' = s_workerPool s \<and> s_unique s' = s_unique s"
  by (induction ids m s rule: cancel_loop.induct) (auto split: option.splits)

lemma register_frame:
  "WorkerService_register dial call s = (e, s') \<Longrightarrow> s_workerPool s' = s_workerPool s \<and> s_unique s' = s_unique s"
  by (auto simp: WorkerService_register_def split: prod.splits sum.splits if_splits)

lemma heartbeat_frame:
  "s_workerPool (sendHeartbeat dial hb reg s) = s_workerPool s \<and> s_unique (sendHeartbeat dial hb reg s) = s_unique s"
  by (auto simp: sendHeartbeat_def split: prod.splits sum.splits option.splits dest: register_frame)

lemma service_inv_frame:
  "service_inv (s, pend) \<Longrightarrow> s_workerPool s' = s_workerPool s \<Longrightarrow> s_unique s' = s_unique s \<Longrightarrow> service_inv (s', pend)"
  by simp

lemma service_act_inv:
  assumes "service_inv x" "service_act act x = Some y"
  shows "service_inv y"
proof -
  obtain s pend where x: "x = (s, pend)" by (cases x)
  show ?thesis
  proof (cases act)
    case (SvAccept req)
    obtain a s' where a: "dispatch_accept req s = (a, s')" by (cases "dispatch_accept req s")
    show ?thesis using accept_inv [OF assms(1) [unfolded x] a] assms(2) SvAccept x a
      by (cases a) (simp_all add: service_act_def del: service_inv_simp)
  next
    case (SvSubmit n)
    then have n: "n < length pend" using assms(2) x by (simp add: service_act_def split: if_splits)
    then have "mset pend = add_mset (pend ! n) (mset (take n pend @ drop (Suc n) pend))"
      by (metis id_take_nth_drop mset.simps(2) mset_append union_mset_add_mset_right)
    then show ?thesis using service_submit_inv [of s pend "pend ! n"] assms x SvSubmit n
      by (auto simp: service_act_def simp del: service_inv_simp)
  next
    case (SvPool pact)
    obtain u n where cb: "pool_callback pact s = (u, n)" by (cases "pool_callback pact s")
    show ?thesis
      using assms SvPool x cb pool_inv_step [OF _ _ _ _ cb, of pend]
      by (cases pact) (auto simp: service_act_def simp del: service_inv_simp split: option.splits)
  next
    case (SvCancel ids)
    obtain m s' where c: "cancel_loop ids [] s = (m, s')" by (cases "cancel_loop ids [] s")
    show ?thesis using service_inv_frame [of s pend s'] cancel_loop_frame [OF c] c assms SvCancel x
      by (simp add: service_act_def WorkerService_CancelTasks_def del: service_inv_simp)
  next
    case (SvHeartbeat dial hb reg)
    show ?thesis
      using service_inv_frame [of s pend "sendHeartbeat dial hb reg s"] heartbeat_frame [of dial hb reg s] assms SvHeartbeat x
      by (simp add: service_act_def del: service_inv_simp)
  qed
qed

lemma service_run_inv: "service_inv x \<Longrightarrow> service_run acts x = Some y \<Longrightarrow> service_inv y"
  by (induction acts arbitrary: x) (auto split: option.splits dest: service_act_inv)

section \<open>Keys without a task\<close>

text \<open>A key in the set of tasks in flight that belongs to no task stays there for good.\<close>

definition stray :: "string \<Rightarrow> 'c WorkerService \<times> TrackedTask list \<Rightarrow> bool" where
  "stray k x \<longleftrightarrow> service_inv x \<and> known (s_unique (fst x)) k \<and> (\<forall>t \<in># in_flight x. tt_key t \<noteq> k)"

lemma strayD:
  assumes "stray k (s, pend)"
  shows "service_inv (s, pend)" "known (s_unique s) k" "t \<in># in_flight (s, pend) \<Longrightarrow> tt_key t \<noteq> k" "s_unique s \<noteq> None"
  using assms by (auto simp: stray_def tracked_def)

lemma strayI:
  assumes "service_inv (s', pend')" "known (s_unique s') k" "in_flight (s', pend') \<subseteq># in_flight (s, pend)" "stray k (s, pend)"
  shows "stray k (s', pend')"
  unfolding stray_def fst_conv
  by (intro conjI ballI assms(1,2) strayD(3) [OF assms(4)]) (rule mset_subset_eqD [OF assms(3)])

lemma dispatch_known:
  assumes "known (s_unique s) (dr_TaskId req)"
  shows "dispatch_accept req s = (if s_suspended s then Refused WorkerSuspended else AlreadyInFlight, s)"
  using assms by (auto simp: dispatch_accept_def unique_Add_def known_def split: option.splits)

lemma stray_accept:
  assumes ph: "stray k (s, pend)" and acc: "dispatch_accept req s = (a, s')"
  shows "stray k (s', case a of NewTask t \<Rightarrow> t # pend | _ \<Rightarrow> pend)"
proof (cases "dr_TaskId req = k")
  case True
  then have "s' = s" "a = Refused WorkerSuspended \<or> a = AlreadyInFlight"
    using dispatch_known [of s req] strayD(2) [OF ph] acc by (auto split: if_splits)
  then show ?thesis using ph by auto
next
  case False
  note u = unique_Add_known [OF strayD(4) [OF ph]]
  have pool: "s_workerPool s' = s_workerPool s" and k: "known (s_unique s') k"
    and key: "\<And>t. a = NewTask t \<Longrightarrow> tt_key t = dr_TaskId req"
    using acc strayD(2) [OF ph] u [of "dr_TaskId req" _ _ k]
    by (auto simp: dispatch_accept_def request_task_def split: if_splits prod.splits bool.splits sum.splits)
  have inv: "service_inv (s', case a of NewTask t \<Rightarrow> t # pend | _ \<Rightarrow> pend)"
    using accept_inv [OF strayD(1) [OF ph] acc] by (cases a) simp_all
  show ?thesis
    using inv k key False strayD(3) [OF ph] unfolding stray_def
    by (cases a) (auto simp: pool)
qed

lemma stray_submit:
  assumes ph: "stray k (s, pend)" and M: "mset pend = add_mset t (mset pend')"
  shows "stray k (snd (dispatch_submit t s), pend')"
proof -
  have "t \<in># in_flight (s, pend)" by (simp add: M)
  then have key: "tt_key t \<noteq> k" by (rule strayD(3) [OF ph])
  note inv = service_submit_inv [OF strayD(1) [OF ph] M]
  have known: "known (s_unique (snd (dispatch_submit t s))) k"
    using strayD(2,4) [OF ph] key by (auto simp: dispatch_submit_def split: prod.splits bool.splits)
  have sub: "p_completed (s_workerPool s) \<subseteq># p_submitted (s_workerPool s)"
    using strayD(1) [OF ph] by (auto intro: pool_inv_sub)
  have "in_flight (snd (dispatch_submit t s), pend') \<subseteq># in_flight (s, pend)"
    using multiset_diff_union_assoc [OF sub, of "{#t#}"] M
    by (auto simp: dispatch_submit_def WorkerPool_TrySubmit_def chan_send_def split: if_splits)
  then show ?thesis by (rule strayI [OF inv known _ ph])
qed

lemma stray_pool:
  assumes ph: "stray k (s, pend)" and act: "pool_act act (s_workerPool s) = Some p"
    and no: "\<And>t. act \<noteq> ActSubmit t" "\<And>t. act \<noteq> ActTrySubmit t" and cb: "pool_callback act s = (u, n)"
  shows "stray k (s\<lparr>s_workerPool := p, s_unique := u, s_contexts := n\<rparr>, pend)"
proof -
  note inv = strayD(1) [OF ph]
  note flight = pool_step_flight [OF inv act no]
  have "known u k"
    using pool_callback_unique [OF cb]
  proof (elim disjE exE conjE)
    fix t assume t: "completes act (s_workerPool s) = {#t#}" "u = unique_Remove (tt_key t) (s_unique s)"
    have "t \<in># in_flight (s, pend)" unfolding flight t(1) by simp
    then have "tt_key t \<noteq> k" by (rule strayD(3) [OF ph])
    then show ?thesis unfolding t(2) using strayD(2,4) [OF ph] by simp
  qed (use strayD(2,4) [OF ph] in simp_all)
  moreover have "in_flight (s\<lparr>s_workerPool := p, s_unique := u, s_contexts := n\<rparr>, pend) \<subseteq># in_flight (s, pend)"
    unfolding flight by simp
  ultimately show ?thesis by (intro strayI [OF pool_inv_step [OF inv act no cb] _ _ ph]) simp_all
qed

lemma stray_frame:
  "stray k (s, pend) \<Longrightarrow> s_workerPool s' = s_workerPool s \<Longrightarrow> s_unique s' = s_unique s \<Longrightarrow> stray k (s', pend)"
  by (simp add: stray_def)

lemma stray_act:
  assumes ph: "stray k (s, pend)" and act: "service_act act (s, pend) = Some (s', pend')"
  shows "stray k (s', pend')"
proof (cases act)
  case (SvAccept req)
  obtain a s1 where a: "dispatch_accept req s = (a, s1)" by force
  show ?thesis using stray_accept [OF ph a] act SvAccept a by (cases a) (simp_all add: service_act_def)
next
  case (SvSubmit n)
  then have n: "n < length pend" "s' = snd (dispatch_submit (pend ! n) s)" "pend' = take n pend @ drop (Suc n) pend"
    using act by (simp_all add: service_act_def split: if_splits)
  then have "mset pend = add_mset (pend ! n) (mset pend')"
    by (metis id_take_nth_drop mset.simps(2) mset_append union_mset_add_mset_right)
  from stray_submit [OF ph this] show ?thesis by (simp add: n(2))
next
  case (SvPool pact)
  obtain u n where cb: "pool_callback pact s = (u, n)" by force
  show ?thesis using stray_pool [OF ph _ _ _ cb] act SvPool cb
    by (cases pact) (auto simp: service_act_def split: option.splits)
next
  case (SvCancel ids)
  obtain m s1 where c: "cancel_loop ids [] s = (m, s1)" by force
  show ?thesis using stray_frame [OF ph, of s1] cancel_loop_frame [OF c] c act SvCancel
    by (auto simp add: service_act_def WorkerService_CancelTasks_def)
next
  case (SvHeartbeat dial hb reg)
  show ?thesis using stray_frame [OF ph, of "sendHeartbeat dial hb reg s"] heartbeat_frame [of dial hb reg s] act SvHeartbeat
    by (auto simp: service_act_def)
qed

lemma stray_run: "stray k x \<Longrightarrow> service_run acts x = Some y \<Longrightarrow> stray k y"
proof (induction acts arbitrary: x)
  case (Cons a acts)
  then show ?case using stray_act [of k "fst x" "snd x" a] by (auto split: option.splits)
qed simp

lemma started_service_inv:
  assumes "NewWorkerPool opts = Some p0" "set opts \<subseteq> range WithWorkerCount \<union> range WithCapacity"
    and "WorkerService_Start dial call (NewWorkerService node p0 reg cl) = (None, s)"
  shows "service_inv (s, [])"
proof -
  have s: "s_workerPool s = WorkerPool_Start p0" "s_unique s = Some []"
    using assms(3) by (auto simp: WorkerService_Start_def NewWorkerService_def newUnique_def
        split: prod.splits option.splits dest!: register_frame)
  have "p_submitted (WorkerPool_Start p0) = {#}" "p_completed (WorkerPool_Start p0) = {#}"
    using NewWorkerPool_form [OF assms(1,2)] by (auto simp: WorkerPool_Start_def zero_pool_def)
  then show ?thesis using s started_pool_inv [OF assms(1,2)] by (simp add: tracked_def)
qed

section \<open>Properties\<close>

text \<open>
  C9. A worker never runs a task twice at the same time: after any interleaving of dispatches
  (also repeated ones for the same task), pool steps, failures with retries, cancellations and
  heartbeats, the tasks accepted and not finished (those waiting in the pool, held by one of its
  goroutines, or between acceptance and submission) have pairwise different keys, and a further
  dispatch of such a task does not create another one.
\<close>

theorem task_runs_once:
  assumes "NewWorkerPool opts = Some p0" and "set opts \<subseteq> range WithWorkerCount \<union> range WithCapacity"
    and "WorkerService_Start dial call (NewWorkerService node p0 reg cl) = (None, s0)"
    and "service_run acts (s0, []) = Some (s, pend)"
  shows "\<exists>xs M. lq_rep (p_jobsQ (s_workerPool s)) xs \<and> pq_rep (p_retryQ (s_workerPool s)) M
     \<and> (\<forall>k. count (image_mset tt_key (waiting xs M (s_workerPool s) + held (s_workerPool s) + mset pend)) k \<le> 1)
     \<and> (\<forall>req t s'. dr_TaskId req \<in># image_mset tt_key (waiting xs M (s_workerPool s) + held (s_workerPool s) + mset pend)
          \<longrightarrow> dispatch_accept req s \<noteq> (NewTask t, s'))"
proof -
  let ?p = "s_workerPool s"
  from service_run_inv [OF started_service_inv [OF assms(1-3)] assms(4)]
  have pool: "pool_inv ?p" and tr: "tracked (s_unique s) (p_submitted ?p - p_completed ?p + mset pend)" by simp_all
  from pool obtain xs M where rep: "lq_rep (p_jobsQ ?p) xs" "pq_rep (p_retryQ ?p) M"
    "p_submitted ?p = p_completed ?p + waiting xs M ?p + held ?p" by (rule pool_invE)
  let ?F = "waiting xs M ?p + held ?p + mset pend"
  from tr rep(3) have F: "tracked (s_unique s) ?F" by (simp add: add.assoc)
  have "count (image_mset tt_key ?F) k \<le> 1" for k using trackedD [OF F, of k] by (auto split: if_splits)
  moreover have "dispatch_accept req s \<noteq> (NewTask t, s')" if k: "dr_TaskId req \<in># image_mset tt_key ?F" for req t s'
  proof -
    have "0 < count (image_mset tt_key ?F) (dr_TaskId req)" using k by (simp only: count_greater_zero_iff)
    then have "known (s_unique s) (dr_TaskId req)" using trackedD [OF F, of "dr_TaskId req"] by presburger
    then show ?thesis by (auto simp: dispatch_accept_def unique_Add_def known_def split: option.splits if_splits prod.splits sum.splits)
  qed
  ultimately show ?thesis using rep(1,2) by blast
qed

definition echo_pool :: "TrackedTask WorkerPool" where
  "echo_pool = the (NewWorkerPool [WithWorkerCount 1, WithCapacity 1])"

definition new_echo_service :: "string WorkerService" where
  "new_echo_service = NewWorkerService \<lparr>n_ID = ''w'', n_Address = ''w:1'', n_Labels = [], n_Capabilities = [''shell''],
       n_Capacity = 1, n_RunningTasks = 0, n_LastHeartbeat = 0, n_status = WorkerAlive\<rparr>
     echo_pool \<lparr>er_executors = [(''shell'', et_exec demo_task)]\<rparr> (NewClusterClient ''cp:1'')"

definition echo_service :: "string WorkerService" where
  "echo_service = snd (WorkerService_Start (\<lambda>a. Inr a) (\<lambda>conn req. Inr \<lparr>rres_Accepted = True, rres_Reason = ''''\<rparr>) new_echo_service)"

definition echo_request :: DispatchRequest where
  "echo_request = \<lparr>dr_WorkflowId = ''wf'', dr_TaskId = ''t'', dr_Type = ''shell'', dr_Payload = ''p'', dr_TimeoutSeconds = 30\<rparr>"

text \<open>The task is dispatched again while it runs, and cancelled.\<close>

definition repeated_run :: "string service_action list" where
  "repeated_run =
     [SvAccept echo_request, SvSubmit 0, SvPool (ActWorker 0 False False 0 0), SvPool (ActWorker 0 False False 0 0),
      SvCancel [''t''], SvAccept echo_request]"

definition repeated_service :: "string WorkerService" where
  "repeated_service = fst (the (service_run repeated_run (echo_service, [])))"

lemmas echo_defs = echo_service_def new_echo_service_def NewWorkerService_def NewClusterClient_def WorkerService_Start_def
  WorkerService_register_def ClusterClient_Register_def ClusterClient_getOrDial_def echo_pool_def NewWorkerPool_def
  WithWorkerCount_def WithCapacity_def zero_pool_def WorkerPool_Start_def newUnique_def

lemma echo_service_state:
  "s_suspended echo_service = False" "s_unique echo_service = Some []" "s_cancelled echo_service = []" "s_contexts echo_service = 0"
  "s_executionRegistry echo_service = \<lparr>er_executors = [(''shell'', et_exec demo_task)]\<rparr>"
  "p_workers (s_workerPool echo_service) = [WIdle]" "p_panicked (s_workerPool echo_service) = False"
  "p_jobClosed (s_workerPool echo_service) = False" "p_jobChan (s_workerPool echo_service) = []" "p_capacity (s_workerPool echo_service) = 1"
  by (simp_all add: echo_defs Let_def)

lemma repeated_evaluated:
  "\<exists>s. service_run repeated_run (echo_service, []) = Some (s, []) \<and> s_cancelled s = [0]
     \<and> p_workers (s_workerPool s) = [WRunning \<lparr>wj_task = request_task echo_request (et_exec demo_task), wj_waitToTime = 0\<rparr>]"
  by (simp add: repeated_run_def service_act_def dispatch_accept_def echo_service_state unique_Add_def echo_request_def
      ExecutorRegistry_Get_def dispatch_submit_def WorkerPool_TrySubmit_def chan_send_def pool_act_def set_worker_def pool_callback_def
      trackedTask_begin_def unique_SetCancel_def request_task_def WorkerService_CancelTasks_def unique_Cancel_def)

lemma repeated_reached:
  "service_run repeated_run (echo_service, []) = Some (repeated_service, [])"
  "s_cancelled repeated_service = [0]"
  "p_workers (s_workerPool repeated_service) = [WRunning \<lparr>wj_task = request_task echo_request (et_exec demo_task), wj_waitToTime = 0\<rparr>]"
  using repeated_evaluated by (auto simp: repeated_service_def)

lemma echo_started:
  "WorkerService_Start (\<lambda>a. Inr a) (\<lambda>conn req. Inr \<lparr>rres_Accepted = True, rres_Reason = ''''\<rparr>) new_echo_service = (None, echo_service)"
  unfolding echo_service_def
  by (simp add: new_echo_service_def NewWorkerService_def NewClusterClient_def WorkerService_Start_def WorkerService_register_def
      ClusterClient_Register_def ClusterClient_getOrDial_def)

theorem task_runs_once_witness:
  "(\<exists>xs M. lq_rep (p_jobsQ (s_workerPool repeated_service)) xs \<and> pq_rep (p_retryQ (s_workerPool repeated_service)) M
     \<and> (\<forall>k. count (image_mset tt_key (waiting xs M (s_workerPool repeated_service) + held (s_workerPool repeated_service))) k \<le> 1))
   \<and> s_cancelled repeated_service = [0]"
proof -
  have p: "NewWorkerPool [WithWorkerCount 1, WithCapacity 1] = Some echo_pool"
    by (simp add: echo_pool_def NewWorkerPool_def WithWorkerCount_def WithCapacity_def zero_pool_def Let_def)
  from task_runs_once [OF p _ echo_started [unfolded new_echo_service_def] repeated_reached(1)] repeated_reached(2)
  show ?thesis by fastforce
qed

text \<open>
  The error of a dispatch says what happened to the task: a suspended worker and an unknown
  type hand nothing to the pool; a full (or closed) pool refuses the task and forgets its key
  again, so that a later dispatch of the task is not taken for a repetition; and an accepted
  task is appended to the pool's channel under its key, with identity, payload and timeout of
  the request.
\<close>

theorem dispatch_outcomes:
  assumes "s_unique s = Some items" and "map_of items (dr_TaskId req) = None"
  shows "case DispatchTask req s of
     (Some WorkerSuspended, s') \<Rightarrow> s_suspended s \<and> s' = s
   | (Some (GetExecutorError err), s') \<Rightarrow> ExecutorRegistry_Get (dr_Type req) (s_executionRegistry s) = Inl err
       \<and> s_workerPool s' = s_workerPool s
   | (Some WorkerPoolFull, s') \<Rightarrow> p_jobChan (s_workerPool s') = p_jobChan (s_workerPool s)
       \<and> (p_jobClosed (s_workerPool s) \<or> p_capacity (s_workerPool s) \<le> int (length (p_jobChan (s_workerPool s))))
       \<and> (\<forall>k. known (s_unique s') k = known (s_unique s) k)
   | (None, s') \<Rightarrow> \<exists>ex t. ExecutorRegistry_Get (dr_Type req) (s_executionRegistry s) = Inr ex \<and> known (s_unique s') (dr_TaskId req)
       \<and> p_jobChan (s_workerPool s') = p_jobChan (s_workerPool s) @ [\<lparr>wj_task = t, wj_waitToTime = 0\<rparr>]
       \<and> tt_key t = dr_TaskId req \<and> et_exec (tt_inner t) = ex \<and> ti_ID (et_task (tt_inner t)) = dr_TaskId req
       \<and> ti_WorkflowID (et_task (tt_inner t)) = dr_WorkflowId req \<and> ts_Payload (ti_Spec (et_task (tt_inner t))) = dr_Payload req
       \<and> ti_TimeoutInSeconds (et_task (tt_inner t)) = dr_TimeoutSeconds req"
proof (cases "s_suspended s")
  case True
  then show ?thesis by (simp add: DispatchTask_def dispatch_accept_def)
next
  case False
  let ?s = "s\<lparr>s_unique := Some (AList.update (dr_TaskId req) None items)\<rparr>"
  show ?thesis
  proof (cases "ExecutorRegistry_Get (dr_Type req) (s_executionRegistry s)")
    case (Inl err)
    then show ?thesis using False assms by (simp add: DispatchTask_def dispatch_accept_def unique_Add_def)
  next
    case (Inr ex)
    have "DispatchTask req s = dispatch_submit (request_task req ex) ?s"
      using False assms Inr by (simp add: DispatchTask_def dispatch_accept_def unique_Add_def)
    then show ?thesis
      using assms Inr
      by (simp add: dispatch_submit_def WorkerPool_TrySubmit_def chan_send_def request_task_def NewExecutableTask_def
          known_def unique_Remove_def)
  qed
qed

theorem dispatch_outcomes_witness:
  "case DispatchTask echo_request echo_service of (err, s') \<Rightarrow> err \<noteq> None
     \<or> (\<exists>t. p_jobChan (s_workerPool s') = [\<lparr>wj_task = t, wj_waitToTime = 0\<rparr>] \<and> tt_key t = ''t'')"
  using dispatch_outcomes [of echo_service "[]" echo_request] echo_service_state
  by (auto simp: echo_request_def split: prod.splits option.splits)

text \<open>
  C37. A dispatch with a type the worker has no executor for leaves its key in the set of tasks
  in flight for good: that dispatch ends with an error, and after whatever the worker does next
  (dispatches, the pool's steps, cancellations, heartbeats) it holds no task with the key, and a
  dispatch of the same task, also with a type the worker can run, is refused if the worker is
  suspended and otherwise answered as accepted without any effect.
\<close>

theorem unknown_type_swallowed:
  assumes "NewWorkerPool opts = Some p0" and "set opts \<subseteq> range WithWorkerCount \<union> range WithCapacity"
    and "WorkerService_Start dial call (NewWorkerService node p0 reg cl) = (None, s0)"
    and "service_run acts (s0, []) = Some (s, pend)"
    and "\<not> s_suspended s" and "\<not> known (s_unique s) (dr_TaskId req)"
    and "ExecutorRegistry_Get (dr_Type req) (s_executionRegistry s) = Inl err"
    and "service_run acts' (snd (DispatchTask req s), pend) = Some (s', pend')" and "dr_TaskId req' = dr_TaskId req"
  shows "fst (DispatchTask req s) = Some (GetExecutorError err)
    \<and> (\<forall>t \<in># in_flight (s', pend'). tt_key t \<noteq> dr_TaskId req)
    \<and> GRPCServer_Dispatch req' s' = (\<lparr>dres_Accepted = \<not> s_suspended s', dres_Reason = ''''\<rparr>, s')"
proof -
  let ?k = "dr_TaskId req"
  have inv: "service_inv (s, pend)" using service_run_inv [OF started_service_inv [OF assms(1-3)] assms(4)] .
  then have tr: "tracked (s_unique s) (in_flight (s, pend))" by simp
  then have "count (image_mset tt_key (in_flight (s, pend))) ?k = 0" using trackedD [OF tr, of ?k] assms(6) by simp
  then have "?k \<notin># image_mset tt_key (in_flight (s, pend))" by (simp only: count_eq_zero_iff not_False_eq_True)
  then have none: "tt_key t \<noteq> ?k" if "t \<in># in_flight (s, pend)" for t
    using that by (metis image_eqI set_image_mset)
  obtain b u where u: "unique_Add ?k (s_unique s) = (b, u)" by force
  have un: "s_unique s \<noteq> None" using tr by (simp add: tracked_def)
  have acc: "dispatch_accept req s = (Refused (GetExecutorError err), s\<lparr>s_unique := u\<rparr>)"
    using assms(5-7) u unique_Add_known [OF un u] by (simp add: dispatch_accept_def)
  then have d: "DispatchTask req s = (Some (GetExecutorError err), s\<lparr>s_unique := u\<rparr>)" by (simp add: DispatchTask_def)
  have "service_inv (s\<lparr>s_unique := u\<rparr>, pend)" using accept_inv [OF inv acc] by simp
  then have "stray ?k (snd (DispatchTask req s), pend)"
    unfolding d stray_def using unique_Add_known [OF un u, of ?k] none by (auto simp: in_flight_def)
  then have ph: "stray ?k (s', pend')" by (rule stray_run [OF _ assms(8)])
  then have "known (s_unique s') (dr_TaskId req')" using strayD(2) assms(9) by metis
  then show ?thesis using d strayD(3) [OF ph] dispatch_known [of s' req']
    by (auto simp: GRPCServer_Dispatch_def DispatchTask_def simp del: in_flight_simp)
qed

theorem unknown_type_swallowed_witness:
  "fst (GRPCServer_Dispatch echo_request (snd (DispatchTask (echo_request\<lparr>dr_Type := ''SHELL''\<rparr>) echo_service)))
     = \<lparr>dres_Accepted = True, dres_Reason = ''''\<rparr>"
proof -
  let ?req = "echo_request\<lparr>dr_Type := ''SHELL''\<rparr>" and ?s = "snd (DispatchTask (echo_request\<lparr>dr_Type := ''SHELL''\<rparr>) echo_service)"
  have p: "NewWorkerPool [WithWorkerCount 1, WithCapacity 1] = Some echo_pool"
    by (simp add: echo_pool_def NewWorkerPool_def WithWorkerCount_def WithCapacity_def zero_pool_def Let_def)
  have "service_run [] (echo_service, []) = Some (echo_service, [])" "service_run [] (?s, []) = Some (?s, [])" by simp_all
  moreover have "\<not> s_suspended ?s"
    by (simp add: DispatchTask_def dispatch_accept_def echo_service_state unique_Add_def ExecutorRegistry_Get_def echo_request_def)
  ultimately show ?thesis
    using unknown_type_swallowed [OF p _ echo_started [unfolded new_echo_service_def], of "[]" echo_service "[]" ?req "UnknownTaskType ''SHELL''" "[]" ?s "[]" echo_request]
    by (auto simp: echo_service_state ExecutorRegistry_Get_def echo_request_def known_def)
qed

text \<open>
  Runs of the pool in which the result of an attempt is that of \<^verbatim>\<open>Do\<close>, and no attempt of a
  task whose executor returns a Go error completes it.
\<close>

fun do_result :: "(string \<Rightarrow> string + 'c) \<Rightarrow> 'c reporter \<Rightarrow> 'c ClusterClient \<Rightarrow> TrackedTask pool_action \<Rightarrow> TrackedTask WorkerPool \<Rightarrow> bool" where
  "do_result dial report c (ActWorker i ctx err now wait) p =
     (case p_workers p ! i of
        WRunning job \<Rightarrow> err = (fst (ExecutableTask_Do dial report (tt_inner (wj_task job)) c) \<noteq> None)
      | _ \<Rightarrow> True)"
| "do_result dial report c act p = True"

fun do_run :: "(string \<Rightarrow> string + 'c) \<Rightarrow> 'c reporter \<Rightarrow> 'c ClusterClient \<Rightarrow> TrackedTask pool_action list \<Rightarrow> TrackedTask WorkerPool \<Rightarrow> bool" where
  "do_run dial report c [] p = True"
| "do_run dial report c (a # as) p =
     (do_result dial report c a p \<and> (case pool_act a p of None \<Rightarrow> True | Some p' \<Rightarrow> do_run dial report c as p'))"

lemma pool_act_completed: "pool_act act p = Some p' \<Longrightarrow> p_completed p' = p_completed p + completes act p"
  by (cases act)
     (auto simp: pool_act_def completes_def WorkerPool_Submit_def WorkerPool_TrySubmit_def chan_send_def
        dest!: worker_step_ghost other_steps_ghost split: if_splits worker_phase.splits send_result.splits option.splits)

lemma do_result_completes:
  "do_result dial report c act p \<Longrightarrow> exec_error (tt_inner t) \<noteq> None \<Longrightarrow> t \<notin># completes act p"
  by (cases act) (auto simp: completes_def Do_error_iff split: worker_phase.splits)

lemma never_completed:
  "pool_run acts p = Some p' \<Longrightarrow> do_run dial report c acts p \<Longrightarrow> exec_error (tt_inner t) \<noteq> None \<Longrightarrow>
   t \<notin># p_completed p \<Longrightarrow> t \<notin># p_completed p'"
proof (induction acts arbitrary: p)
  case (Cons a acts)
  then obtain p1 where p1: "pool_act a p = Some p1" "pool_run acts p1 = Some p'" by (auto split: option.splits)
  have "t \<notin># p_completed p1"
    using pool_act_completed [OF p1(1)] do_result_completes [of dial report c a p t] Cons.prems by auto
  then show ?case using Cons p1 by simp
qed simp

text \<open>
  C39. A task whose executor returns a Go error (an undecodable payload, a command that does not
  start, and so on) is never reported as finished and never leaves the pool: every report of an
  attempt has status RUNNING, and in every run of the pool in which each attempt ends as its
  \<^verbatim>\<open>Do\<close> says, the accepted task is not completed but waits in a queue or is held by a
  goroutine, however many attempts it has had.
\<close>

theorem executor_error_unreported:
  assumes "exec_error (tt_inner t) \<noteq> None"
    and "NewWorkerPool opts = Some p0" and "set opts \<subseteq> range WithWorkerCount \<union> range WithCapacity"
    and "pool_run acts (WorkerPool_Start p0) = Some p" and "do_run dial report c acts (WorkerPool_Start p0)"
    and "t \<in># p_submitted p"
  shows "(\<forall>r \<in> set (fst (snd (ExecutableTask_Do dial report (tt_inner t) c))). res_Status r = TASK_REPORT_RUNNING)
    \<and> t \<notin># p_completed p
    \<and> (\<exists>xs M. lq_rep (p_jobsQ p) xs \<and> pq_rep (p_retryQ p) M \<and> t \<in># waiting xs M p + held p)"
proof -
  have "p_completed (WorkerPool_Start p0) = {#}"
    using NewWorkerPool_form [OF assms(2,3)] by (auto simp: WorkerPool_Start_def zero_pool_def)
  then have no: "t \<notin># p_completed p" using never_completed [OF assms(4,5,1)] by simp
  obtain xs M where rep: "lq_rep (p_jobsQ p) xs" "pq_rep (p_retryQ p) M" "p_submitted p = p_completed p + waiting xs M p + held p"
    using pool_run_inv [OF started_pool_inv [OF assms(2,3)] assms(4)] by (rule pool_invE)
  then have "t \<in># waiting xs M p + held p" using assms(6) no by auto
  then show ?thesis using Do_error_reports [OF assms(1)] no rep(1,2) by blast
qed

definition garbled_task :: TrackedTask where
  "garbled_task = \<lparr>tt_inner = NewExecutableTask (et_task demo_task) (shell_Execute (\<lambda>s. Inl ''unexpected end'') (\<lambda>c a t. echo_outcome)),
     tt_key = ''t''\<rparr>"

definition garbled_run :: "TrackedTask pool_action list" where
  "garbled_run = [ActTrySubmit garbled_task, ActWorker 0 False False 0 0, ActWorker 0 False False 0 0, ActWorker 0 False True 0 0]"

theorem executor_error_unreported_witness:
  "\<exists>p. pool_run garbled_run (WorkerPool_Start echo_pool) = Some p \<and> p_submitted p = {#garbled_task#} \<and> garbled_task \<notin># p_completed p"
proof -
  have p0: "NewWorkerPool [WithWorkerCount 1, WithCapacity 1] = Some echo_pool"
    by (simp add: echo_pool_def NewWorkerPool_def WithWorkerCount_def WithCapacity_def zero_pool_def Let_def)
  have e: "exec_error (tt_inner garbled_task) \<noteq> None"
    by (simp add: exec_error_def garbled_task_def NewExecutableTask_def shell_Execute_def)
  have d: "fst (ExecutableTask_Do (\<lambda>a. Inr a) (\<lambda>n conn req. Inr True) (tt_inner garbled_task) (NewClusterClient ''cp:1'')) \<noteq> None"
    using e by (simp only: Do_error_iff not_False_eq_True)
  have start: "WorkerPool_Start echo_pool = zero_pool\<lparr>p_workerCount := 1, p_capacity := 1, p_workers := [WIdle], p_jobs := JSelect, p_retry := RSelect\<rparr>"
    by (simp add: echo_pool_def NewWorkerPool_def WithWorkerCount_def WithCapacity_def zero_pool_def WorkerPool_Start_def Let_def)
  obtain p where p: "pool_run garbled_run (WorkerPool_Start echo_pool) = Some p" "p_submitted p = {#garbled_task#}"
    "do_run (\<lambda>a. Inr a) (\<lambda>n conn req. Inr True) (NewClusterClient ''cp:1'') garbled_run (WorkerPool_Start echo_pool)"
    using d by (simp add: garbled_run_def start zero_pool_def pool_act_def WorkerPool_TrySubmit_def chan_send_def set_worker_def)
  from executor_error_unreported [OF e p0 _ p(1,3)] p show ?thesis by auto
qed

text \<open>
  C38. A worker that was suspended by a failed heartbeat and could not register again at once
  stays suspended for as long as its heartbeats succeed: however many heartbeats the control
  plane acknowledges (it then lists the worker as alive), each dispatch is refused.
\<close>

theorem suspended_despite_heartbeats:
  assumes "s_suspended s" and "fst (ClusterClient_getOrDial dial (s_clusterClient s)) = Inr conn" and "\<And>req. \<exists>ok. hb conn req = Inr ok"
  shows "DispatchTask req ((sendHeartbeat dial hb reg ^^ n) s) = (Some WorkerSuspended, (sendHeartbeat dial hb reg ^^ n) s)"
proof -
  have "s_suspended ((sendHeartbeat dial hb reg ^^ n) s) \<and> fst (ClusterClient_getOrDial dial (s_clusterClient ((sendHeartbeat dial hb reg ^^ n) s))) = Inr conn"
  proof (induction n)
    case (Suc n)
    let ?t = "(sendHeartbeat dial hb reg ^^ n) s"
    obtain c where c: "ClusterClient_getOrDial dial (s_clusterClient ?t) = (Inr conn, c)"
      using Suc by (cases "ClusterClient_getOrDial dial (s_clusterClient ?t)") auto
    obtain ok where "hb conn \<lparr>hbr_WorkerId = n_ID (s_node ?t), hbr_RunningTasks = WorkerPool_BusyCount (s_workerPool ?t)\<rparr> = Inr ok"
      using assms(3) by blast
    then have "sendHeartbeat dial hb reg ?t = ?t\<lparr>s_clusterClient := c\<rparr>"
      using c by (simp add: sendHeartbeat_def ClusterClient_Heartbeat_def)
    moreover have "fst (ClusterClient_getOrDial dial c) = Inr conn"
      using getOrDial_conn [OF c] by (simp add: ClusterClient_getOrDial_def)
    ultimately show ?case using Suc by simp
  qed (use assms in simp)
  then show ?thesis by (simp add: DispatchTask_def dispatch_accept_def)
qed

theorem suspended_despite_heartbeats_witness:
  "let s = sendHeartbeat (\<lambda>a. Inr a) (\<lambda>c req. Inl ''unavailable'') (\<lambda>c req. Inl ''unavailable'') echo_service
   in fst (DispatchTask echo_request
        ((sendHeartbeat (\<lambda>a. Inr a) (\<lambda>c req. Inr True) (\<lambda>c req. Inl ''unavailable'') ^^ 1000) s)) = Some WorkerSuspended"
proof -
  let ?s = "sendHeartbeat (\<lambda>a. Inr a) (\<lambda>c req. Inl ''unavailable'') (\<lambda>c req. Inl ''unavailable'') echo_service"
  have "s_suspended ?s" "fst (ClusterClient_getOrDial (\<lambda>a. Inr a) (s_clusterClient ?s)) = Inr ''cp:1''"
    by (simp_all add: sendHeartbeat_def echo_defs ClusterClient_Heartbeat_def Let_def)
  moreover have "\<exists>ok. (Inr True :: string + bool) = Inr ok" by blast
  ultimately have "DispatchTask echo_request ((sendHeartbeat (\<lambda>a. Inr a) (\<lambda>c req. Inr True) (\<lambda>c req. Inl ''unavailable'') ^^ 1000) ?s)
      = (Some WorkerSuspended, (sendHeartbeat (\<lambda>a. Inr a) (\<lambda>c req. Inr True) (\<lambda>c req. Inl ''unavailable'') ^^ 1000) ?s)"
    by (rule suspended_despite_heartbeats)
  then show ?thesis by (simp add: Let_def)
qed

text \<open>
  What the control plane queues for a task reaches the executor: the request built from the
  task is turned by the worker into a task with the same ID, workflow and payload, and a
  timeout given in whole seconds (below about 292 years) survives the conversion to seconds and
  back; only the type is left out of the executed specification.
\<close>

lemma dispatch_roundtrip:
  assumes "t_Timeout task = s * Second" and "\<bar>s\<bar> < 2 ^ 33"
  shows "case et_task (tt_inner (request_task (j_Request (task_job task)) ex)) of info \<Rightarrow>
     ti_ID info = t_ID task \<and> ti_WorkflowID info = t_WorkflowID task
   \<and> ti_Spec info = \<lparr>ts_Type = '''', ts_Payload = ts_Payload (t_Spec task)\<rparr>
   \<and> int64 (ti_TimeoutInSeconds info * Second) = t_Timeout task"
proof -
  have "\<bar>s\<bar> < 2 ^ 53" using assms(2) by simp
  moreover have "int64 (s * Second) = s * Second"
    using assms(2) by (intro int64_id) (simp_all add: Second_def abs_less_iff)
  ultimately show ?thesis
    by (simp add: request_task_def task_job_def NewExecutableTask_def assms(1) whole_seconds)
qed

end
