(* ===== verification/Grpc_Server.thy ===== *)
theory Grpc_Server
  imports Control_Plane Worker_Service
begin

text \<open>
  The gRPC services of the control plane (\<^verbatim>\<open>control-plane/server\<close>): the orchestration
  service for clients and the cluster service for workers. A handler turns a request message
  into a call of the engine or the registry and the outcome into a response or a status error.
  The panic of a handler is the outcome \<open>Panic\<close>. Whether a \<^verbatim>\<open>stream.Send\<close> succeeds is
  a parameter.
\<close>

section \<open>Errors\<close>

datatype status_code = InvalidArgument | Internal | NotFound

text \<open>
  A wrapped \<^verbatim>\<open>status.Error\<close>: the prefix of the wrapper, the code and the message; and the
  wrapped errors that carry no status.
\<close>

datatype grpc_error =
    GrpcStatus string status_code string
  | SubscribeError bus_error
  | ReportTaskResult engine_error
  | FailedToHeartbeat registry_error

fun engine_error_msg :: "engine_error \<Rightarrow> string" where
  "engine_error_msg (WorkflowNotFound w) = ''workflow not found '' @ w"
| "engine_error_msg (TaskNotFound t) = ''task not found '' @ t"
| "engine_error_msg (TaskAlreadyTerminal t s) = ''task '' @ t @ '' already terminal: '' @ TaskStatus_String s"

section \<open>The orchestration service\<close>

record TaskDefinition =
  td_Name :: string
  td_DependsOn :: "string list"
  td_Type :: string
  td_Payload :: string
  td_MaxRetries :: int
  td_RetryBackoffSeconds :: int
  td_TimeoutSeconds :: int

definition definition_task :: "TaskDefinition \<Rightarrow> Task" where
  "definition_task task =
     \<lparr>t_ID = '''', t_WorkflowID = '''', t_Name = td_Name task, t_DependsOn = td_DependsOn task,
      t_Spec = \<lparr>ts_Type = td_Type task, ts_Payload = td_Payload task\<rparr>,
      t_MaxRetries = td_MaxRetries task,
      t_RetryBackoff = int64 (td_RetryBackoffSeconds task * Second),
      t_Timeout = int64 (td_TimeoutSeconds task * Second),
      t_status = TaskPending, t_AssignedTo = '''', t_Attempt = 0, t_result = None, t_CreatedAt = 0, t_UpdatedAt = 0\<rparr>"

text \<open>
  The engine's \<open>SubmitWorkflow\<close> returns no error, so the handler's second error branch is not
  taken.
\<close>

definition Server_SubmitWorkflow ::
  "rng \<Rightarrow> rng \<Rightarrow> (nat \<Rightarrow> string) \<Rightarrow> int \<Rightarrow> int \<Rightarrow> string \<Rightarrow> TaskDefinition list \<Rightarrow> 'h Engine \<Rightarrow>
   (grpc_error, string) outcome \<times> 'h Engine" where
  "Server_SubmitWorkflow rng rng' uuid created now name tasks e =
     (case NewWorkflow rng uuid created ''admin'' name (map definition_task tasks) of
        Err err \<Rightarrow>
          (Err (GrpcStatus ''orchestration request: '' InvalidArgument (''failed to submit workflow: '' @ workflow_error_msg err)), e)
      | Panic \<Rightarrow> (Panic, e)
      | OutOfFuel \<Rightarrow> (OutOfFuel, e)
      | Ok w \<Rightarrow> (case SubmitWorkflow rng' now w e of (i, e') \<Rightarrow> (Ok i, e')))"

record TaskStatusInfo =
  tsi_Id :: string
  tsi_Name :: string
  tsi_Status :: string
  tsi_AssignedTo :: string
  tsi_Attempt :: int
  tsi_Error :: string

record WorkflowStatusResponse =
  wsr_WorkflowId :: string
  wsr_Name :: string
  wsr_Status :: string
  wsr_Tasks :: "TaskStatusInfo list"

definition task_info :: "Task \<Rightarrow> TaskStatusInfo" where
  "task_info task =
     \<lparr>tsi_Id = t_ID task, tsi_Name = t_Name task, tsi_Status = TaskStatus_String (t_status task),
      tsi_AssignedTo = t_AssignedTo task, tsi_Attempt = int32 (t_Attempt task),
      tsi_Error = (case Task_GetResult task of None \<Rightarrow> '''' | Some res \<Rightarrow> tr_Error res)\<rparr>"

fun info_loop :: "Task gomap \<Rightarrow> string list \<Rightarrow> TaskStatusInfo list" where
  "info_loop ts [] = []"
| "info_loop ts (k # ks) =
     (case map_of ts k of None \<Rightarrow> info_loop ts ks | Some task \<Rightarrow> task_info task # info_loop ts ks)"

definition Server_GetWorkflow :: "rng \<Rightarrow> string \<Rightarrow> 'h Engine \<Rightarrow> grpc_error + WorkflowStatusResponse" where
  "Server_GetWorkflow rng workflowId e =
     (case GetWorkflow workflowId e of
        Inl err \<Rightarrow> Inl (GrpcStatus ''orchestration request: '' NotFound (''workflow not found: '' @ workflowId))
      | Inr w \<Rightarrow> Inr \<lparr>wsr_WorkflowId = w_ID w, wsr_Name = w_Name w, wsr_Status = WorkflowStatus_String (w_status w),
                     wsr_Tasks = info_loop (w_Tasks w) (rng 0 (keys (w_Tasks w)))\<rparr>)"

definition Server_CancelWorkflow :: "rng \<Rightarrow> int \<Rightarrow> string \<Rightarrow> 'h Engine \<Rightarrow> (grpc_error + bool) \<times> 'h Engine" where
  "Server_CancelWorkflow rng now workflowId e =
     (case CancelWorkflow rng now workflowId e of
        (Some err, e') \<Rightarrow>
          (Inl (GrpcStatus ''orchestration request: '' NotFound (''failed to cancel workflow: '' @ engine_error_msg err)), e')
      | (None, e') \<Rightarrow> (Inr True, e'))"

definition Server_CancelTask :: "rng \<Rightarrow> int \<Rightarrow> string \<Rightarrow> 'h Engine \<Rightarrow> (grpc_error + bool) \<times> 'h Engine" where
  "Server_CancelTask rng now taskId e =
     (case CancelTask rng now taskId e of
        (Some err, e') \<Rightarrow>
          (Inl (GrpcStatus ''orchestration request: '' NotFound (''failed to cancel task: '' @ engine_error_msg err)), e')
      | (None, e') \<Rightarrow> (Inr True, e'))"

section \<open>The cluster service\<close>

text \<open>
  \<^verbatim>\<open>Registry.Register\<close> returns no error; \<open>None\<close> is the nil dereference of its model.
\<close>

definition Server_Register ::
  "int \<Rightarrow> RegisterRequest \<Rightarrow> ('i, 's) WorkerRegistry \<Rightarrow> (RegisterResponse \<times> ('i, 's) WorkerRegistry) option" where
  "Server_Register now request r =
     (case Registry_Register now (request_node request) r of
        None \<Rightarrow> None
      | Some r' \<Rightarrow> Some (\<lparr>rres_Accepted = True, rres_Reason = ''''\<rparr>, r'))"

definition Server_Heartbeat ::
  "int \<Rightarrow> HeartbeatRequest \<Rightarrow> ('i, 's) WorkerRegistry \<Rightarrow> (grpc_error + bool) \<times> ('i, 's) WorkerRegistry" where
  "Server_Heartbeat now request r =
     (case Registry_Heartbeat now (hbr_WorkerId request) (hbr_RunningTasks request) r of
        (Some err, r') \<Rightarrow> (Inl (FailedToHeartbeat err), r')
      | (None, r') \<Rightarrow> (Inr True, r'))"

definition request_result :: "ResultRequest \<Rightarrow> TaskResult" where
  "request_result request =
     \<lparr>tr_Status = FromProtoTaskStatus (res_Status request), tr_ExitCode = res_ExitCode request,
      tr_Stdout = res_Stdout request, tr_Stderr = res_Stderr request, tr_Error = res_Error request,
      tr_Duration = res_Duration request\<rparr>"

definition Server_ReportResult :: "rng \<Rightarrow> int \<Rightarrow> ResultRequest \<Rightarrow> 'h Engine \<Rightarrow> (grpc_error + bool) \<times> 'h Engine" where
  "Server_ReportResult rng now request e =
     (case OnTaskResponse rng now (res_WorkflowId request) (res_TaskId request) (request_result request) e of
        (Some err, e') \<Rightarrow> (Inl (ReportTaskResult err), e')
      | (None, e') \<Rightarrow> (Inr True, e'))"

section \<open>Workflow event streams\<close>

text \<open>
  A stream: the buffered channel \<open>out\<close> that the subscriber's handler fills, the messages sent
  to the client, whether the client's context is done and whether the handler has returned.
\<close>

definition stream_cap :: nat where
  "stream_cap = 64"

record EventStream =
  st_out :: "Event list"
  st_sent :: "WorkflowEvent list"
  st_ctxDone :: bool
  st_returned :: bool

definition snapshotToEvent :: "int \<Rightarrow> Workflow \<Rightarrow> WorkflowEvent" where
  "snapshotToEvent now w =
     \<lparr>we_WorkflowId = w_ID w, we_TaskId = '''', we_EventType = '''',
      we_Status = WorkflowStatus_String (w_status w), we_Timestamp = Unix now\<rparr>"

text \<open>
  The handler up to its loop: \<open>None\<close> in the first component is a return with nil, before
  anything was sent. The snapshot is read from one state of the engine and bus, the subscription
  made in a later one (\<open>bus\<close>).
\<close>

definition StreamWorkflowEvents ::
  "int \<Rightarrow> string option \<Rightarrow> string \<Rightarrow> string \<Rightarrow> 'k \<Rightarrow> 'h Engine \<Rightarrow> (Event, 'k) Bus \<Rightarrow>
   (grpc_error + EventStream option) \<times> (Event, 'k) Bus" where
  "StreamWorkflowEvents now sendErr uuid wfID handler e bus =
     (case GetWorkflow wfID e of
        Inl err \<Rightarrow> (Inl (GrpcStatus ''stream workflow events: '' NotFound (''workflow not found: '' @ wfID)), bus)
      | Inr w \<Rightarrow>
          if Workflow_IsFinished w then (Inr None, bus)
          else (case sendErr of
             Some err \<Rightarrow>
               (Inl (GrpcStatus ''stream workflow events: '' Internal (''failed to send workflow event: '' @ err)), bus)
           | None \<Rightarrow>
               (case Bus_Subscribe (wfID @ ''/'' @ uuid) handler bus of
                  (Some err, bus') \<Rightarrow> (Inl (SubscribeError err), bus')
                | (None, bus') \<Rightarrow>
                    (Inr (Some \<lparr>st_out = [], st_sent = [snapshotToEvent now w], st_ctxDone = False, st_returned = False\<rparr>), bus'))))"

text \<open>
  The subscriber's handler. When the context is done and the channel has room, the
  \<^verbatim>\<open>select\<close> takes either branch (\<open>choice\<close>).
\<close>

definition stream_handler :: "bool \<Rightarrow> Event \<Rightarrow> EventStream \<Rightarrow> EventStream" where
  "stream_handler choice ev s =
     (if st_ctxDone s \<and> (choice \<or> length (st_out s) \<ge> stream_cap) then s
      else if length (st_out s) < stream_cap then s\<lparr>st_out := st_out s @ [ev]\<rparr>
      else s)"

text \<open>\<open>ok\<close>: whether \<^verbatim>\<open>stream.Send\<close> succeeds; the result is whether the stream ends.\<close>

definition stream_send :: "bool \<Rightarrow> Event \<Rightarrow> EventStream \<Rightarrow> EventStream" where
  "stream_send ok ev s = (if ok then s\<lparr>st_sent := st_sent s @ [Event_ToProto ev]\<rparr> else s)"

definition sendWorkflowEvent :: "bool \<Rightarrow> string \<Rightarrow> Event \<Rightarrow> EventStream \<Rightarrow> bool \<times> EventStream" where
  "sendWorkflowEvent ok wfID ev s =
     (if Event_GetType ev = WorkflowStatusChanged then
        (case ev of
           WorkflowStatusChangedEvent w status ts \<Rightarrow>
             if WorkflowStatus_IsTerminated status then (True, s)
             else if w \<noteq> wfID then (False, s)
             else (False, stream_send ok ev s)
         | _ \<Rightarrow> (False, s))
      else if Event_GetType ev = TaskStatusChanged then
        (case ev of
           TaskStatusChangedEvent w t status ts \<Rightarrow> (False, stream_send ok ev s)
         | _ \<Rightarrow> (False, s))
      else (False, s))"

datatype stream_action = StDeliver bool Event | StCtxDone | StReturn | StReceive bool

text \<open>The loop of the handler interleaved with the subscriber's goroutine.\<close>

definition stream_act :: "string \<Rightarrow> stream_action \<Rightarrow> EventStream \<Rightarrow> EventStream option" where
  "stream_act wfID act s =
     (case act of
        StDeliver choice ev \<Rightarrow> Some (stream_handler choice ev s)
      | StCtxDone \<Rightarrow> Some (s\<lparr>st_ctxDone := True\<rparr>)
      | StReturn \<Rightarrow> if st_returned s \<or> \<not> st_ctxDone s then None else Some (s\<lparr>st_returned := True\<rparr>)
      | StReceive ok \<Rightarrow>
          if st_returned s then None
          else (case st_out s of
             [] \<Rightarrow> None
           | ev # rest \<Rightarrow>
               (case sendWorkflowEvent ok wfID ev (s\<lparr>st_out := rest\<rparr>) of
                  (ends, s') \<Rightarrow> Some (s'\<lparr>st_returned := ends\<rparr>))))"

fun stream_run :: "string \<Rightarrow> stream_action list \<Rightarrow> EventStream \<Rightarrow> EventStream option" where
  "stream_run wfID [] s = Some s"
| "stream_run wfID (a # as) s = (case stream_act wfID a s of None \<Rightarrow> None | Some s' \<Rightarrow> stream_run wfID as s')"

fun delivered :: "stream_action list \<Rightarrow> Event list" where
  "delivered [] = []"
| "delivered (StDeliver choice ev # as) = ev # delivered as"
| "delivered (_ # as) = delivered as"

section \<open>Reports and requests\<close>

text \<open>
  C31. A report arrives as the worker made it: the engine is called for the task's own workflow
  and ID, with RUNNING, SUCCEEDED or FAILED exactly as the worker decided, and with exit code
  (within 32 bits), output and error text of the execution. The measured duration is not sent:
  it arrives as 0.
\<close>

theorem report_roundtrip:
  assumes "- (2 ^ 31) \<le> tr_ExitCode r" "tr_ExitCode r < 2 ^ 31"
  shows "Server_ReportResult rng now (status_request task status (Some r)) e
     = (case OnTaskResponse rng now (ti_WorkflowID task) (ti_ID task)
               (r\<lparr>tr_Status := FromProtoTaskStatus status, tr_Duration := 0\<rparr>) e of
          (err, e') \<Rightarrow> (case err of None \<Rightarrow> Inr True | Some x \<Rightarrow> Inl (ReportTaskResult x), e'))"
proof -
  have "request_result (status_request task status (Some r)) = r\<lparr>tr_Status := FromProtoTaskStatus status, tr_Duration := 0\<rparr>"
    using assms by (cases r) (simp add: status_request_def request_result_def Let_def int32_id)
  moreover have "res_WorkflowId (status_request task status (Some r)) = ti_WorkflowID task"
    "res_TaskId (status_request task status (Some r)) = ti_ID task"
    by (simp_all add: status_request_def Let_def)
  ultimately show ?thesis
    by (auto simp: Server_ReportResult_def split: prod.splits option.splits)
qed

theorem report_roundtrip_witness:
  "fst (Server_ReportResult offset_order 0 (status_request (et_task demo_task) TASK_REPORT_FAILED (Some (zero_result\<lparr>tr_ExitCode := - 1\<rparr>)))
      (NewWorkflowEngine example_bus)) = Inl (ReportTaskResult (WorkflowNotFound ''wf''))"
  using report_roundtrip [of "zero_result\<lparr>tr_ExitCode := - 1\<rparr>" offset_order 0 "et_task demo_task" TASK_REPORT_FAILED "NewWorkflowEngine example_bus"]
  by (simp add: zero_result_def OnTaskResponse_def NewWorkflowEngine_def demo_task_def NewExecutableTask_def)

text \<open>The timeout the executor of a worker is called with for a submitted task definition.\<close>

definition executor_timeout :: "int \<Rightarrow> string \<Rightarrow> executor \<Rightarrow> TaskDefinition \<Rightarrow> int" where
  "executor_timeout now wfID ex d = int64 (ti_TimeoutInSeconds (et_task (tt_inner
     (request_task (j_Request (task_job (init_task now wfID (definition_task d)))) ex))) * Second)"

text \<open>
  C32. A timeout of a task definition up to 9223372036 seconds either way reaches the executor
  unchanged (0 means 30 seconds): through the conversion of the submission, the workflow, the
  queued request in seconds and the worker's conversion back. One second more overflows: the
  task gets a negative timeout; and larger values wrap around, $2^{55}+1$ seconds to one second.
\<close>

theorem timeout_bounds:
  assumes "\<bar>td_TimeoutSeconds d\<bar> \<le> 9223372036"
  shows "executor_timeout now wfID ex d = (if td_TimeoutSeconds d = 0 then 30 else td_TimeoutSeconds d) * Second
     \<and> t_Timeout (definition_task (d\<lparr>td_TimeoutSeconds := 9223372037\<rparr>)) < 0
     \<and> executor_timeout now wfID ex (d\<lparr>td_TimeoutSeconds := 2 ^ 55 + 1\<rparr>) = Second"
proof -
  let ?reaches = "executor_timeout now wfID ex"
  have via: "?reaches d' = int64 (f64_to_int64 (Duration_Seconds (if int64 (td_TimeoutSeconds d' * Second) = 0
       then 30 * Second else int64 (td_TimeoutSeconds d' * Second))) * Second)" for d'
    by (simp add: executor_timeout_def request_task_def task_job_def NewExecutableTask_def init_task_def definition_task_def)
  let ?s = "td_TimeoutSeconds d"
  have id: "int64 (?s * Second) = ?s * Second" using assms by (intro int64_id) (simp_all add: Second_def)
  have "f64_to_int64 (Duration_Seconds (?s * Second)) = ?s" "f64_to_int64 (Duration_Seconds (30 * Second)) = 30"
    using assms by (auto intro!: whole_seconds)
  moreover have "int64 (30 * Second) = 30 * Second" by (intro int64_id) (simp_all add: Second_def)
  moreover have nz: "Second \<noteq> 0" by (simp add: Second_def)
  ultimately have a: "?reaches d = (if ?s = 0 then 30 else ?s) * Second"
    unfolding via id using id by (cases "?s = 0") (simp_all add: nz)
  have "t_Timeout (definition_task (d\<lparr>td_TimeoutSeconds := 9223372037\<rparr>)) < 0"
    by (simp add: definition_task_def int64_def Second_def)
  moreover have "int64 ((2 ^ 55 + 1) * Second) = 1 * Second" by (simp add: int64_def Second_def)
  moreover have "f64_to_int64 (Duration_Seconds (1 * Second)) = 1" by (rule whole_seconds) simp
  moreover have "int64 (1 * Second) = 1 * Second" by (simp add: int64_def Second_def)
  ultimately have "t_Timeout (definition_task (d\<lparr>td_TimeoutSeconds := 9223372037\<rparr>)) < 0
      \<and> ?reaches (d\<lparr>td_TimeoutSeconds := 2 ^ 55 + 1\<rparr>) = Second"
    by (simp add: via nz)
  with a show ?thesis by simp
qed

definition slow_definition :: TaskDefinition where
  "slow_definition = \<lparr>td_Name = ''a'', td_DependsOn = [], td_Type = ''shell'', td_Payload = ''{}'', td_MaxRetries = 0,
     td_RetryBackoffSeconds = 0, td_TimeoutSeconds = 3600\<rparr>"

theorem timeout_bounds_witness:
  "executor_timeout 0 ''w'' (et_exec demo_task) slow_definition = 3600 * Second"
  using timeout_bounds [of slow_definition 0 "''w''" "et_exec demo_task"] by (simp add: slow_definition_def)

section \<open>Streams\<close>

definition stream_forwards :: "string \<Rightarrow> Event \<Rightarrow> bool" where
  "stream_forwards wfID ev = (case ev of
     TaskStatusChangedEvent w t status ts \<Rightarrow> True
   | WorkflowStatusChangedEvent w status ts \<Rightarrow> w = wfID \<and> \<not> WorkflowStatus_IsTerminated status)"

lemma sendWorkflowEvent_cases:
  "sendWorkflowEvent ok wfID ev s =
     (case ev of
        TaskStatusChangedEvent w t status ts \<Rightarrow> (False, stream_send ok ev s)
      | WorkflowStatusChangedEvent w status ts \<Rightarrow>
          if WorkflowStatus_IsTerminated status then (True, s)
          else (False, if w = wfID then stream_send ok ev s else s))"
  by (cases ev) (simp_all add: sendWorkflowEvent_def TaskStatusChanged_def WorkflowStatusChanged_def)

lemma stream_run_sent:
  "stream_run wfID acts s = Some s' \<Longrightarrow> length (st_out s) \<le> stream_cap \<Longrightarrow>
   \<exists>sent. st_sent s' = st_sent s @ map Event_ToProto sent \<and> length (st_out s') \<le> stream_cap
     \<and> subseq (sent @ filter (stream_forwards wfID) (st_out s'))
         (filter (stream_forwards wfID) (st_out s) @ filter (stream_forwards wfID) (delivered acts))"
proof (induction acts arbitrary: s)
  case Nil
  then show ?case by (intro exI [of _ "[]"]) simp
next
  case (Cons a acts)
  let ?f = "filter (stream_forwards wfID)"
  from Cons.prems obtain s1 where s1: "stream_act wfID a s = Some s1" "stream_run wfID acts s1 = Some s'"
    by (auto split: option.splits)
  have step: "\<exists>new. st_sent s1 = st_sent s @ map Event_ToProto new \<and> length (st_out s1) \<le> stream_cap
      \<and> subseq (new @ ?f (st_out s1) @ ?f (delivered acts)) (?f (st_out s) @ ?f (delivered (a # acts)))"
  proof (cases a)
    case (StDeliver choice ev)
    then have "s1 = s \<or> s1 = s\<lparr>st_out := st_out s @ [ev]\<rparr> \<and> length (st_out s) < stream_cap"
      using s1(1) by (auto simp: stream_act_def stream_handler_def split: if_splits)
    then show ?thesis using Cons.prems(2) StDeliver
      by (intro exI [of _ "[]"]) (auto intro: list_emb_append_mono)
  next
    case (StReceive ok)
    then obtain ev rest where o: "st_out s = ev # rest" "\<not> st_returned s"
      using s1(1) by (auto simp: stream_act_def split: if_splits list.splits)
    obtain ends s2 where x: "sendWorkflowEvent ok wfID ev (s\<lparr>st_out := rest\<rparr>) = (ends, s2)" by force
    then have "st_out s2 = rest \<and> st_sent s2 = st_sent s @ map Event_ToProto (if ok \<and> stream_forwards wfID ev then [ev] else [])"
      by (auto simp: sendWorkflowEvent_cases stream_send_def stream_forwards_def split: Event.splits if_splits)
    moreover have "s1 = s2\<lparr>st_returned := ends\<rparr>" using s1(1) StReceive o x by (simp add: stream_act_def)
    ultimately show ?thesis using Cons.prems(2) StReceive o
      by (intro exI [of _ "if ok \<and> stream_forwards wfID ev then [ev] else []"]) auto
  qed (use s1(1) Cons.prems(2) in \<open>auto simp: stream_act_def intro!: exI [of _ "[]"] split: if_splits\<close>)
  then obtain new where new: "st_sent s1 = st_sent s @ map Event_ToProto new" "length (st_out s1) \<le> stream_cap"
    "subseq (new @ ?f (st_out s1) @ ?f (delivered acts)) (?f (st_out s) @ ?f (delivered (a # acts)))" by blast
  from Cons.IH [OF s1(2) new(2)] obtain sent where sent: "st_sent s' = st_sent s1 @ map Event_ToProto sent"
    "length (st_out s') \<le> stream_cap" "subseq (sent @ ?f (st_out s')) (?f (st_out s1) @ ?f (delivered acts))" by blast
  have "subseq (new @ sent @ ?f (st_out s')) (?f (st_out s) @ ?f (delivered (a # acts)))"
    using subseq_order.trans [OF list_emb_append_mono [OF subseq_order.refl sent(3)] new(3)] .
  then show ?case using sent(1,2) new(1) by (intro exI [of _ "new @ sent"]) simp
qed

text \<open>
  C30. What a client sees on the event stream of a workflow, in every interleaving of deliveries,
  receptions and cancellation: first the snapshot, then the messages of a subsequence, in
  order, of the delivered events, each of them a task event or a non-final status change of
  this workflow; and the buffer holds at most 64 events. Only an unfinished workflow opens a
  stream.
\<close>

theorem stream_messages:
  assumes "StreamWorkflowEvents now None uuid wfID handler e bus = (Inr (Some s0), bus')"
    and "stream_run wfID acts s0 = Some s"
  shows "\<exists>w sent. GetWorkflow wfID e = Inr w \<and> \<not> Workflow_IsFinished w
     \<and> st_sent s = snapshotToEvent now w # map Event_ToProto sent
     \<and> subseq sent (delivered acts) \<and> list_all (stream_forwards wfID) sent \<and> length (st_out s) \<le> stream_cap"
proof -
  from assms(1) obtain w where w: "GetWorkflow wfID e = Inr w" "\<not> Workflow_IsFinished w"
      "s0 = \<lparr>st_out = [], st_sent = [snapshotToEvent now w], st_ctxDone = False, st_returned = False\<rparr>"
    by (auto simp: StreamWorkflowEvents_def split: sum.splits if_splits option.splits prod.splits)
  from stream_run_sent [OF assms(2)] obtain sent where sent: "st_sent s = snapshotToEvent now w # map Event_ToProto sent"
    "length (st_out s) \<le> stream_cap" "subseq (sent @ filter (stream_forwards wfID) (st_out s)) (filter (stream_forwards wfID) (delivered acts))"
    by (auto simp: w(3))
  have sub: "subseq sent (filter (stream_forwards wfID) (delivered acts))"
    by (rule subseq_order.trans [OF list_emb_prefix [OF subseq_order.refl] sent(3)])
  then have "subseq sent (delivered acts)" "list_all (stream_forwards wfID) sent"
    using subseq_order.trans [OF sub subseq_filter_left] by (auto simp: list_all_iff elim!: list_emb_set [OF sub])
  with w sent show ?thesis by blast
qed

theorem stream_messages_witness:
  "case StreamWorkflowEvents 3000000000 None ''s'' (w_ID example_workflow) () (snd (SubmitWorkflow offset_order 7 example_workflow (NewWorkflowEngine example_bus))) example_bus of
     (Inr (Some s0), b) \<Rightarrow> (\<exists>s sent. stream_run (w_ID example_workflow)
        [StDeliver False (TaskStatusChangedEvent ''x'' ''t'' TaskReady 1), StReceive True] s0 = Some s
          \<and> subseq sent [TaskStatusChangedEvent ''x'' ''t'' TaskReady 1] \<and> length (st_out s) \<le> stream_cap)
   | _ \<Rightarrow> False"
proof -
  let ?e = "snd (SubmitWorkflow offset_order 7 example_workflow (NewWorkflowEngine example_bus))"
  let ?acts = "[StDeliver False (TaskStatusChangedEvent ''x'' ''t'' TaskReady 1), StReceive True]"
  have "case StreamWorkflowEvents 3000000000 None ''s'' (w_ID example_workflow) () ?e example_bus of
     (Inr (Some s0), b) \<Rightarrow> stream_run (w_ID example_workflow) ?acts s0 \<noteq> None | _ \<Rightarrow> False" by code_simp
  then obtain s0 b s where s: "StreamWorkflowEvents 3000000000 None ''s'' (w_ID example_workflow) () ?e example_bus = (Inr (Some s0), b)"
    "stream_run (w_ID example_workflow) ?acts s0 = Some s"
    by (auto split: prod.splits sum.splits option.splits)
  from stream_messages [OF s] s show ?thesis by auto
qed

text \<open>
  The events a run takes from the channel, and those that the protocol would have to treat as
  the end of their workflow.
\<close>

fun received :: "string \<Rightarrow> stream_action list \<Rightarrow> EventStream \<Rightarrow> Event list" where
  "received wfID [] s = []"
| "received wfID (a # as) s =
     (case stream_act wfID a s of
        None \<Rightarrow> []
      | Some s' \<Rightarrow> (case a of StReceive ok \<Rightarrow> take 1 (st_out s) | _ \<Rightarrow> []) @ received wfID as s')"

fun final_event :: "Event \<Rightarrow> bool" where
  "final_event (WorkflowStatusChangedEvent v b ts) \<longleftrightarrow> b \<in> {WorkflowSucceeded, WorkflowFailed, WorkflowCancelled}"
| "final_event (TaskStatusChangedEvent v t b ts) = False"

fun forwarded :: "string \<Rightarrow> Event \<Rightarrow> bool" where
  "forwarded wfID (WorkflowStatusChangedEvent v b ts) \<longleftrightarrow>
     v = wfID \<and> b \<notin> {WorkflowSucceeded, WorkflowFailed, WorkflowCancelled}"
| "forwarded wfID (TaskStatusChangedEvent v t b ts) = True"

lemma send_final:
  "sendWorkflowEvent True wfID ev s = (final_event ev, if forwarded wfID ev then stream_send True ev s else s)"
  by (cases ev) (auto simp: sendWorkflowEvent_cases WorkflowStatus_IsTerminated_def)

lemma stream_run_received:
  "stream_run wfID acts s = Some s' \<Longrightarrow> StReceive False \<notin> set acts \<Longrightarrow>
   st_sent s' = st_sent s @ map Event_ToProto (filter (forwarded wfID) (received wfID acts s))
   \<and> subseq (received wfID acts s @ st_out s') (st_out s @ delivered acts)
   \<and> (received wfID acts s \<noteq> [] \<longrightarrow> \<not> st_returned s)
   \<and> (\<forall>ev \<in> set (butlast (received wfID acts s)). \<not> final_event ev)
   \<and> (StReturn \<notin> set acts \<longrightarrow>
        st_returned s' = (st_returned s \<or> received wfID acts s \<noteq> [] \<and> final_event (last (received wfID acts s))))"
proof (induction acts arbitrary: s)
  case (Cons a acts)
  from Cons.prems obtain s1 where s1: "stream_act wfID a s = Some s1" "stream_run wfID acts s1 = Some s'"
    by (auto split: option.splits)
  note IH = Cons.IH [OF s1(2)]
  show ?case
  proof (cases a)
    case (StDeliver choice ev)
    then have f: "st_sent s1 = st_sent s" "st_returned s1 = st_returned s" "st_out s1 = st_out s \<or> st_out s1 = st_out s @ [ev]"
      using s1(1) by (auto simp: stream_act_def stream_handler_def split: if_splits)
    have "subseq (st_out s1 @ delivered acts) (st_out s @ ev # delivered acts)"
      using f(3) by (auto intro: list_emb_append_mono)
    then show ?thesis using IH Cons.prems(2) s1(1) f(1,2) StDeliver by (auto intro: subseq_order.trans)
  next
    case (StReceive ok)
    then have "ok" using Cons.prems(2) by (cases ok) auto
    with StReceive obtain ev rest where o: "st_out s = ev # rest" "\<not> st_returned s"
      and s1': "s1 = (if forwarded wfID ev then stream_send True ev (s\<lparr>st_out := rest\<rparr>) else s\<lparr>st_out := rest\<rparr>)\<lparr>st_returned := final_event ev\<rparr>"
      using s1(1) by (auto simp: stream_act_def send_final split: if_splits list.splits)
    have f: "st_out s1 = rest" "st_returned s1 = final_event ev"
      "st_sent s1 = st_sent s @ (if forwarded wfID ev then [Event_ToProto ev] else [])"
      by (simp_all add: s1' stream_send_def)
    have r: "received wfID (a # acts) s = ev # received wfID acts s1" using s1(1) StReceive o by simp
    show ?thesis using IH Cons.prems(2) o f StReceive unfolding r by auto
  qed (use IH Cons.prems(2) s1(1) in \<open>auto simp: stream_act_def split: if_splits\<close>)
qed simp

text \<open>
  C40. A stream does not keep to its workflow. In every run in which the client can be sent to,
  the messages after the snapshot are those of exactly the following received events, in order:
  all task events, of whatever workflow, and the non-final status changes of the stream's own
  workflow. A final status change (SUCCEEDED, FAILED or CANCELLED) of whatever workflow is never
  sent, also when it is the stream's own, nothing is received after it, and unless the client
  cancels, the stream has ended exactly when it received one. The received events and those
  still buffered are delivered events in order.
\<close>

theorem stream_of_any_workflow:
  assumes "StreamWorkflowEvents now None uuid wfID handler e bus = (Inr (Some s0), bus')"
    and "stream_run wfID acts s0 = Some s" and "StReceive False \<notin> set acts"
  shows "\<exists>w. st_sent s = snapshotToEvent now w # map Event_ToProto (filter (forwarded wfID) (received wfID acts s0))
     \<and> subseq (received wfID acts s0 @ st_out s) (delivered acts)
     \<and> (\<forall>ev \<in> set (butlast (received wfID acts s0)). \<not> final_event ev)
     \<and> (StReturn \<notin> set acts \<longrightarrow>
          st_returned s = (received wfID acts s0 \<noteq> [] \<and> final_event (last (received wfID acts s0))))"
proof -
  from assms(1) obtain w where
    "s0 = \<lparr>st_out = [], st_sent = [snapshotToEvent now w], st_ctxDone = False, st_returned = False\<rparr>"
    by (auto simp: StreamWorkflowEvents_def split: sum.splits if_splits option.splits prod.splits)
  then show ?thesis using stream_run_received [OF assms(2,3)] by auto
qed

definition foreign_run :: "stream_action list" where
  "foreign_run = [StDeliver False (TaskStatusChangedEvent ''x'' ''t'' TaskReady 1), StReceive True,
     StDeliver False (WorkflowStatusChangedEvent ''x'' WorkflowCancelled 1), StReceive True]"

theorem stream_of_any_workflow_witness:
  "case StreamWorkflowEvents 3000000000 None ''s'' (w_ID example_workflow) () (snd (SubmitWorkflow offset_order 7 example_workflow (NewWorkflowEngine example_bus))) example_bus of
     (Inr (Some s0), b) \<Rightarrow> (\<exists>s. stream_run (w_ID example_workflow) foreign_run s0 = Some s \<and> st_returned s \<and> length (st_sent s) = 2)
   | _ \<Rightarrow> False"
proof -
  let ?e = "snd (SubmitWorkflow offset_order 7 example_workflow (NewWorkflowEngine example_bus))"
  have "case StreamWorkflowEvents 3000000000 None ''s'' (w_ID example_workflow) () ?e example_bus of
     (Inr (Some s0), b) \<Rightarrow> stream_run (w_ID example_workflow) foreign_run s0 \<noteq> None
       \<and> received (w_ID example_workflow) foreign_run s0
           = [TaskStatusChangedEvent ''x'' ''t'' TaskReady 1, WorkflowStatusChangedEvent ''x'' WorkflowCancelled 1]
       \<and> w_ID example_workflow \<noteq> ''x''
   | _ \<Rightarrow> False" by code_simp
  then obtain s0 b s where s: "StreamWorkflowEvents 3000000000 None ''s'' (w_ID example_workflow) () ?e example_bus = (Inr (Some s0), b)"
    "stream_run (w_ID example_workflow) foreign_run s0 = Some s"
    "received (w_ID example_workflow) foreign_run s0
       = [TaskStatusChangedEvent ''x'' ''t'' TaskReady 1, WorkflowStatusChangedEvent ''x'' WorkflowCancelled 1]"
    by (auto split: prod.splits sum.splits option.splits)
  have "StReceive False \<notin> set foreign_run" "StReturn \<notin> set foreign_run" by (simp_all add: foreign_run_def)
  from stream_of_any_workflow [OF s(1,2) this(1)] this(2) s show ?thesis by auto
qed

section \<open>Submission and status\<close>

lemma info_loop_map:
  "set ks \<subseteq> set (keys ts) \<Longrightarrow> info_loop ts ks = map (\<lambda>k. task_info (the (map_of ts k))) ks"
proof (induction ks)
  case (Cons k ks)
  then obtain t where "map_of ts k = Some t" using keys_map_of_Some [of k ts] by auto
  with Cons show ?case by simp
qed simp

lemma infos_of_tasks:
  assumes "go_range rng" "gomap_wf ts"
  shows "mset (info_loop ts (rng n (keys ts))) = mset (map (\<lambda>kt. task_info (snd kt)) ts)"
proof -
  let ?g = "\<lambda>k. task_info (the (map_of ts k))"
  have perm: "mset (rng n (keys ts)) = mset (keys ts)" by (rule go_range.visits [OF assms(1)])
  then have "set (rng n (keys ts)) = set (keys ts)" by (metis set_mset_mset)
  then have "mset (info_loop ts (rng n (keys ts))) = image_mset ?g (mset (rng n (keys ts)))"
    by (simp add: info_loop_map)
  also have "\<dots> = mset (map (\<lambda>kt. ?g (fst kt)) ts)" unfolding perm by (simp add: multiset.map_comp comp_def)
  also have "map (\<lambda>kt. ?g (fst kt)) ts = map (\<lambda>kt. task_info (snd kt)) ts"
    using assms(2) by (auto simp: gomap_wf_def)
  finally show ?thesis .
qed

lemma assigned_names_deps:
  "map (\<lambda>t. (t_Name t, P (t_DependsOn t))) (assigned uuid i ts) = map (\<lambda>t. (t_Name t, P (t_DependsOn t))) ts"
  by (induction ts arbitrary: i) auto

lemma fresh_ready_status:
  assumes fresh: "fresh_workflow w" and tasks: "w_Tasks w' = w_Tasks (with_tasks f w)"
    and spec: "st w' = spec_ready (dep_rel (w_Tasks w)) (st w)" and kt: "(k, t) \<in> set (w_Tasks w)"
  shows "t_status (f k t) = (if t_DependsOn t = [] then TaskReady else TaskPending)"
proof -
  have wf: "gomap_wf (w_Tasks w)" using fresh by (auto simp: fresh_workflow_def wf_static_def)
  have t: "map_of (w_Tasks w) k = Some t" using kt wf by (simp add: gomap_in_iff)
  then have "st w' k = Some (t_status (f k t))" by (simp add: st_def tasks)
  moreover have pend: "st w d \<in> {None, Some TaskPending}" for d using fresh by (simp add: fresh_workflow_def)
  moreover have "st w k = Some TaskPending" using pend [of k] t by (simp add: st_def)
  moreover have "(\<forall>d. (k, d) \<in> dep_rel (w_Tasks w) \<longrightarrow> st w d = Some TaskSucceeded) \<longleftrightarrow> t_DependsOn t = []"
  proof
    assume a: "\<forall>d. (k, d) \<in> dep_rel (w_Tasks w) \<longrightarrow> st w d = Some TaskSucceeded"
    have no: "(k, d) \<notin> dep_rel (w_Tasks w)" for d using a pend [of d] by auto
    show "t_DependsOn t = []"
    proof (cases "t_DependsOn t")
      case (Cons d ds)
      then have "(k, d) \<in> dep_rel (w_Tasks w)" using t by (auto simp: dep_rel_def)
      with no show ?thesis by blast
    qed
  qed (use t in \<open>auto simp: dep_rel_def\<close>)
  ultimately show ?thesis by (auto simp: spec spec_ready_def split: if_splits)
qed

definition task_row :: "Task \<Rightarrow> string \<times> string" where
  "task_row t = (t_Name t, if t_DependsOn t = [] then ''READY'' else ''PENDING'')"

lemma fresh_rows:
  assumes rng: "go_range rng" and fresh: "fresh_workflow w" and inv: "wf_inv w'"
    and tasks: "w_Tasks w' = w_Tasks (with_tasks f w)" and f: "keeps_shape f"
    and spec: "st w' = spec_ready (dep_rel (w_Tasks w)) (st w)"
  shows "mset (map (\<lambda>t. (tsi_Name t, tsi_Status t)) (info_loop (w_Tasks w') (rng 0 (keys (w_Tasks w')))))
       = mset (map (\<lambda>kt. task_row (snd kt)) (w_Tasks w))"
proof -
  have wf: "gomap_wf (w_Tasks w')" using inv by (auto simp: wf_inv_def wf_static_def)
  have row: "(t_Name (f k t), TaskStatus_String (t_status (f k t))) = task_row t" if "(k, t) \<in> set (w_Tasks w)" for k t
    using fresh_ready_status [OF fresh tasks spec that] f by (simp add: keeps_shape_def task_row_def)
  have "mset (map (\<lambda>t. (tsi_Name t, tsi_Status t)) (info_loop (w_Tasks w') (rng 0 (keys (w_Tasks w')))))
      = mset (map (\<lambda>kt. (t_Name (snd kt), TaskStatus_String (t_status (snd kt)))) (w_Tasks w'))"
    unfolding mset_map infos_of_tasks [OF rng wf] by (simp add: multiset.map_comp comp_def task_info_def)
  also have "map (\<lambda>kt. (t_Name (snd kt), TaskStatus_String (t_status (snd kt)))) (w_Tasks w')
      = map (\<lambda>kt. (t_Name (f (fst kt) (snd kt)), TaskStatus_String (t_status (f (fst kt) (snd kt))))) (w_Tasks w)"
    by (simp add: tasks with_tasks_def case_prod_beta comp_def)
  also have "\<dots> = map (\<lambda>kt. task_row (snd kt)) (w_Tasks w)"
    by (rule map_cong [OF refl]) (simp add: row)
  finally show ?thesis .
qed

lemma built_rows:
  "map (\<lambda>kt. task_row (snd kt)) (w_Tasks (built_workflow uuid created owner name (map definition_task defs)))
     = map (\<lambda>d. (td_Name d, if td_DependsOn d = [] then ''READY'' else ''PENDING'')) defs"
proof -
  have "map (\<lambda>kt. task_row (snd kt)) (w_Tasks (built_workflow uuid created owner name (map definition_task defs)))
      = map (\<lambda>t. (t_Name t, if t_DependsOn t = [] then ''READY'' else ''PENDING'')) (assigned uuid 0 (map definition_task defs))"
    by (simp add: built_workflow_def resolved_tasks_def task_row_def comp_def init_task_def resolved_task_def)
  also have "\<dots> = map (\<lambda>t. (t_Name t, if t_DependsOn t = [] then ''READY'' else ''PENDING'')) (map definition_task defs)"
    by (rule assigned_names_deps)
  also have "\<dots> = map (\<lambda>d. (td_Name d, if td_DependsOn d = [] then ''READY'' else ''PENDING'')) defs"
    by (simp add: definition_task_def)
  finally show ?thesis .
qed

text \<open>
  C12. A submission is answered completely: an invalid one (see \<open>valid_submission\<close>) with
  \<^verbatim>\<open>InvalidArgument\<close>, changing nothing; a valid one with the ID under which the status
  query then finds the workflow, with its name, RUNNING (PENDING when it has no tasks), and
  exactly one entry per submitted task, READY when it has no dependencies and PENDING
  otherwise. It never panics.
\<close>

theorem submit_then_get:
  assumes "go_range rng" "go_range rng'" "go_range rng''"
  shows "case Server_SubmitWorkflow rng rng' uuid created now name defs e of
     (Ok i, e') \<Rightarrow> valid_submission uuid (map definition_task defs) \<and> (\<exists>resp. Server_GetWorkflow rng'' i e' = Inr resp
       \<and> wsr_WorkflowId resp = i \<and> wsr_Name resp = name \<and> wsr_Status resp = (if defs = [] then ''PENDING'' else ''RUNNING'')
       \<and> mset (map (\<lambda>t. (tsi_Name t, tsi_Status t)) (wsr_Tasks resp))
         = mset (map (\<lambda>d. (td_Name d, if td_DependsOn d = [] then ''READY'' else ''PENDING'')) defs))
   | (Err g, e') \<Rightarrow> \<not> valid_submission uuid (map definition_task defs) \<and> e' = e
       \<and> (\<exists>msg. g = GrpcStatus ''orchestration request: '' InvalidArgument msg)
   | (Panic, e') \<Rightarrow> False
   | (OutOfFuel, e') \<Rightarrow> False"
proof (cases "valid_submission uuid (map definition_task defs)")
  case False
  obtain err where "NewWorkflow rng uuid created ''admin'' name (map definition_task defs) = Err err"
    using NewWorkflow_invalid [OF assms(1) False] by blast
  then show ?thesis using False by (simp add: Server_SubmitWorkflow_def)
next
  case True
  let ?ts = "map definition_task defs" and ?w = "built_workflow uuid created ''admin'' name (map definition_task defs)"
  have ok: "NewWorkflow rng uuid created ''admin'' name ?ts = Ok ?w" by (rule NewWorkflow_valid [OF assms(1) True])
  have fresh: "fresh_workflow ?w" by (rule NewWorkflow_fresh [OF assms(1) _ ok]) (simp add: definition_task_def)
  from SubmitWorkflow_char [OF assms(2) fresh, of now e] obtain w' ids e' where
    s: "SubmitWorkflow rng' now ?w e = (w_ID ?w, put_workflow (w_ID ?w) w' e')" "wf_inv w'" "evolves ?w w'"
      "st w' = spec_ready (dep_rel (w_Tasks ?w)) (st ?w)"
      "w_status w' = (if w_Tasks ?w = [] then WorkflowPending else WorkflowRunning)" by blast
  from s(3) obtain f where f: "w_ID w' = w_ID ?w" "w_Name w' = w_Name ?w" "keeps_shape f" "w_Tasks w' = w_Tasks (with_tasks f ?w)"
    unfolding evolves_def by blast
  have rows: "mset (map (\<lambda>t. (tsi_Name t, tsi_Status t)) (info_loop (w_Tasks w') (rng'' 0 (keys (w_Tasks w')))))
      = mset (map (\<lambda>d. (td_Name d, if td_DependsOn d = [] then ''READY'' else ''PENDING'')) defs)"
    unfolding fresh_rows [OF assms(3) fresh s(2) f(4) f(3) s(4)] built_rows ..
  have "length (w_Tasks ?w) = length defs"
    using arg_cong [OF built_rows [of uuid created "''admin''" name defs], of length] by (simp only: length_map)
  then have empty: "w_Tasks ?w = [] \<longleftrightarrow> defs = []" by (simp only: length_0_conv [symmetric])
  have name: "w_Name ?w = name" by (simp add: built_workflow_def)
  have submit: "Server_SubmitWorkflow rng rng' uuid created now name defs e = (Ok (w_ID ?w), put_workflow (w_ID ?w) w' e')"
    by (simp add: Server_SubmitWorkflow_def ok s(1))
  have get: "Server_GetWorkflow rng'' (w_ID ?w) (put_workflow (w_ID ?w) w' e') = Inr \<lparr>wsr_WorkflowId = w_ID ?w, wsr_Name = name,
      wsr_Status = (if defs = [] then ''PENDING'' else ''RUNNING''), wsr_Tasks = info_loop (w_Tasks w') (rng'' 0 (keys (w_Tasks w')))\<rparr>"
    by (simp add: Server_GetWorkflow_def GetWorkflow_def put_workflow_def f(1,2) name s(5) empty)
  show ?thesis
    unfolding submit using True rows by (simp only: outcome.case prod.case get) simp
qed

theorem submit_then_get_witness:
  "case Server_SubmitWorkflow offset_order offset_order example_uuid 5 7 ''w'' [slow_definition] (NewWorkflowEngine example_bus) of
     (Ok i, e') \<Rightarrow> \<exists>resp. Server_GetWorkflow offset_order i e' = Inr resp \<and> mset (map (\<lambda>t. (tsi_Name t, tsi_Status t)) (wsr_Tasks resp)) = {#(''a'', ''READY'')#}
   | (Err g, e') \<Rightarrow> True | _ \<Rightarrow> False"
  using submit_then_get [OF offset.go_range_axioms offset.go_range_axioms offset.go_range_axioms,
      where uuid = example_uuid and created = 5 and now = 7 and name = "''w''" and defs = "[slow_definition]"
      and e = "NewWorkflowEngine example_bus"]
  by (auto simp: slow_definition_def split: prod.splits outcome.splits)

text \<open>
  C36. A report that overtakes the scheduler's callback is lost: when the worker's RUNNING,
  SUCCEEDED or FAILED reaches the engine before \<open>OnTaskDispatched\<close> (the worker starts the task
  before its \<^verbatim>\<open>Dispatch\<close> call returns), the engine acknowledges it and keeps the task as it
  is; the callback then makes the task DISPATCHED, without result, although the worker has
  nothing more to send after a final report.
\<close>

theorem early_report_lost:
  assumes "engine_reachable e" and "go_range rng"
    and "map_of (e_workflows e) wid = Some w" and "map_of (w_Tasks w) tid = Some t" and "t_status t = TaskReady"
  shows "\<exists>e1 w2 t2. Server_ReportResult rng now (status_request \<lparr>ti_ID = tid, ti_WorkflowID = wid, ti_Spec = spec, ti_TimeoutInSeconds = n\<rparr> status r) e
       = (Inr True, e1)
     \<and> map_of (e_workflows (OnTaskDispatched now' (wid, tid) worker e1)) wid = Some w2 \<and> map_of (w_Tasks w2) tid = Some t2
     \<and> t_status t2 = TaskDispatched \<and> t_result t2 = t_result t \<and> t_AssignedTo t2 = worker"
proof -
  let ?req = "status_request \<lparr>ti_ID = tid, ti_WorkflowID = wid, ti_Spec = spec, ti_TimeoutInSeconds = n\<rparr> status r"
  have inv: "wf_inv w" using engine_invD [OF engine_reachable_inv [OF assms(1)] assms(3)] by simp
  have report: "\<not> (s \<in> {TaskRunning, TaskSucceeded, TaskFailed} \<and> taskStatusesGraph (t_status t) s)" for s
    using assms(5) by auto
  from OnTaskResponse_char [OF assms(2) inv assms(3,4) refl, of now "request_result ?req", unfolded if_not_P [OF report]] obtain w' e' where
    o: "OnTaskResponse rng now wid tid (request_result ?req) e = (None, put_workflow wid w' e')" "map_of (w_Tasks w') tid = Some t"
    by blast
  have ids: "res_WorkflowId ?req = wid" "res_TaskId ?req = tid"
    by (cases r; simp add: status_request_def Let_def)+
  show ?thesis
    using o ids assms(5)
    by (simp add: Server_ReportResult_def OnTaskDispatched_def put_workflow_def put_task_def UpdateTaskStatus_def Task_UpdateStatus_def
        TaskStatus_CanTransitTo_def)
qed

definition overtaken_workflow :: Workflow where
  "overtaken_workflow = dispatched_workflow\<lparr>w_Tasks :=
     [(''u'', built_task ''u'' ''a'' [] TaskReady ''''), (''uu'', built_task ''uu'' ''b'' [''u''] TaskPending ''''),
      (''uuu'', built_task ''uuu'' ''c'' [''uu''] TaskPending '''')]\<rparr>"

lemma overtaken_engine: "e_workflows submitted_engine = [(''uuuu'', overtaken_workflow)]"
  by code_simp

lemma overtaken_state:
  "map_of (e_workflows submitted_engine) ''uuuu'' = Some overtaken_workflow"
  "map_of (w_Tasks overtaken_workflow) ''u'' = Some (built_task ''u'' ''a'' [] TaskReady '''')"
  "t_status (built_task ''u'' ''a'' [] TaskReady '''') = TaskReady" "t_result (built_task ''u'' ''a'' [] TaskReady '''') = None"
  by (simp_all add: overtaken_engine overtaken_workflow_def built_task_def example_task_def)

theorem early_report_lost_witness:
  "\<exists>e1 w2 t2. Server_ReportResult offset_order 8
        (status_request \<lparr>ti_ID = ''u'', ti_WorkflowID = ''uuuu'', ti_Spec = \<lparr>ts_Type = '''', ts_Payload = ''{}''\<rparr>,
           ti_TimeoutInSeconds = 30\<rparr> TASK_REPORT_SUCCEEDED (Some zero_result)) submitted_engine = (Inr True, e1)
     \<and> map_of (e_workflows (OnTaskDispatched 9 (''uuuu'', ''u'') ''w1'' e1)) ''uuuu'' = Some w2
     \<and> map_of (w_Tasks w2) ''u'' = Some t2 \<and> t_status t2 = TaskDispatched \<and> t_result t2 = None"
  using early_report_lost [OF submitted_reachable offset.go_range_axioms overtaken_state(1-3), of 8 "\<lparr>ts_Type = '''', ts_Payload = ''{}''\<rparr>" 30
      TASK_REPORT_SUCCEEDED "Some zero_result" 9 "''w1''"]
  unfolding overtaken_state(4) by blast

end
