(* ===== verification/Logging.thy ===== *)
theory Logging
  imports Prelude "HOL-Library.Word"
begin

text \<open>
  The logger (\<^verbatim>\<open>common/logger\<close>): levels, what is emitted, and the helpers that build
  attributes. Handlers of \<^verbatim>\<open>log/slog\<close> are represented by what they are given: a record
  with its attributes; \<^verbatim>\<open>tint\<close> and the JSON handler differ only in how they print it.
\<close>

section \<open>Levels\<close>

type_synonym LogLevel = "8 word"

definition INFO :: LogLevel where "INFO = 0"
definition DEBUG :: LogLevel where "DEBUG = 1"
definition WARN :: LogLevel where "WARN = 2"
definition ERROR :: LogLevel where "ERROR = 3"

definition LevelDebug :: int where "LevelDebug = - 4"
definition LevelInfo :: int where "LevelInfo = 0"
definition LevelWarn :: int where "LevelWarn = 4"
definition LevelError :: int where "LevelError = 8"

definition toSlogLevel :: "LogLevel \<Rightarrow> int" where
  "toSlogLevel level =
     (if level = DEBUG then LevelDebug else if level = WARN then LevelWarn
      else if level = ERROR then LevelError else LevelInfo)"

section \<open>Attributes\<close>

datatype 'a slog_value = SlogString string | SlogInt int | SlogBool bool | SlogAny 'a

type_synonym 'a slog_attr = "string \<times> 'a slog_value"

definition log_Error :: "'a \<Rightarrow> 'a slog_attr" where
  "log_Error err = (''error'', SlogAny err)"

definition log_String :: "string \<Rightarrow> string \<Rightarrow> 'a slog_attr" where
  "log_String key msg = (key, SlogString msg)"

definition log_Any :: "string \<Rightarrow> 'a \<Rightarrow> 'a slog_attr" where
  "log_Any key data = (key, SlogAny data)"

definition log_Int :: "string \<Rightarrow> int \<Rightarrow> 'a slog_attr" where
  "log_Int key data = (key, SlogInt data)"

definition log_UInt64 :: "string \<Rightarrow> 64 word \<Rightarrow> 'a slog_attr" where
  "log_UInt64 key data = (key, SlogInt (sint data))"

definition log_Bool :: "string \<Rightarrow> bool \<Rightarrow> 'a slog_attr" where
  "log_Bool key data = (key, SlogBool data)"

definition log_UInt32 :: "string \<Rightarrow> 32 word \<Rightarrow> 'a slog_attr" where
  "log_UInt32 key data = (key, SlogInt (uint data))"

fun strings_Join :: "string list \<Rightarrow> string \<Rightarrow> string" where
  "strings_Join [] sep = ''''"
| "strings_Join [s] sep = s"
| "strings_Join (s # ss) sep = s @ sep @ strings_Join ss sep"

text \<open>The loop of \<^verbatim>\<open>Other\<close>: it takes two fields at a time.\<close>

fun other_loop :: "string list \<Rightarrow> string" where
  "other_loop (k # v # fields) = k @ '': '' @ v @ (if fields \<noteq> [] then '', '' else '''') @ other_loop fields"
| "other_loop fields = ''''"

definition log_Other :: "string list \<Rightarrow> 'a slog_attr" where
  "log_Other fields =
     (''other'', SlogString (if length fields mod 2 \<noteq> 0 then strings_Join fields '', '' else other_loop fields))"

section \<open>The logger\<close>

record Logger =
  lg_json :: bool
  lg_level :: int

definition New_Logger :: "LogLevel \<Rightarrow> bool \<Rightarrow> Logger" where
  "New_Logger level isDev =
     (let handler = \<lparr>lg_json = False, lg_level = toSlogLevel level\<rparr>
      in if \<not> isDev then \<lparr>lg_json = True, lg_level = toSlogLevel level\<rparr> else handler)"

record 'a slog_record =
  sr_Level :: int
  sr_Message :: string
  sr_Attrs :: "'a slog_attr list"

text \<open>The arguments of a call: attributes, strings and other values, paired as \<^verbatim>\<open>slog\<close> does.\<close>

datatype 'a log_arg = ArgAttr "'a slog_attr" | ArgString string | ArgValue 'a

fun arg_value :: "'a log_arg \<Rightarrow> ('a + 'a slog_attr) slog_value" where
  "arg_value (ArgAttr a) = SlogAny (Inr a)"
| "arg_value (ArgString s) = SlogString s"
| "arg_value (ArgValue x) = SlogAny (Inl x)"

fun lift_value :: "'a slog_value \<Rightarrow> ('a + 'a slog_attr) slog_value" where
  "lift_value (SlogString s) = SlogString s"
| "lift_value (SlogInt i) = SlogInt i"
| "lift_value (SlogBool b) = SlogBool b"
| "lift_value (SlogAny x) = SlogAny (Inl x)"

fun args_attrs :: "'a log_arg list \<Rightarrow> ('a + 'a slog_attr) slog_attr list" where
  "args_attrs [] = []"
| "args_attrs (ArgAttr a # args) = (fst a, lift_value (snd a)) # args_attrs args"
| "args_attrs (ArgValue x # args) = (''!BADKEY'', SlogAny (Inl x)) # args_attrs args"
| "args_attrs [ArgString s] = [(''!BADKEY'', SlogString s)]"
| "args_attrs (ArgString s # arg # args) = (s, arg_value arg) # args_attrs args"

definition logger_log :: "int \<Rightarrow> string \<Rightarrow> 'a log_arg list \<Rightarrow> Logger \<Rightarrow> ('a + 'a slog_attr) slog_record option" where
  "logger_log level msg args l =
     (if level < lg_level l then None else Some \<lparr>sr_Level = level, sr_Message = msg, sr_Attrs = args_attrs args\<rparr>)"

definition Logger_Info :: "string \<Rightarrow> 'a log_arg list \<Rightarrow> Logger \<Rightarrow> ('a + 'a slog_attr) slog_record option" where
  "Logger_Info msg args l = logger_log LevelInfo msg args l"

definition Logger_Debug :: "string \<Rightarrow> 'a log_arg list \<Rightarrow> Logger \<Rightarrow> ('a + 'a slog_attr) slog_record option" where
  "Logger_Debug msg args l = logger_log LevelDebug msg args l"

definition Logger_Warn :: "string \<Rightarrow> 'a log_arg list \<Rightarrow> Logger \<Rightarrow> ('a + 'a slog_attr) slog_record option" where
  "Logger_Warn msg args l = logger_log LevelWarn msg args l"

definition Logger_Error :: "string \<Rightarrow> 'a log_arg list \<Rightarrow> Logger \<Rightarrow> ('a + 'a slog_attr) slog_record option" where
  "Logger_Error msg args l = logger_log LevelError msg args l"

section \<open>Lemmas\<close>

text \<open>The pairs of \<^verbatim>\<open>Other\<close> are joined like any list of texts.\<close>

lemma other_loop_join:
  "other_loop (concat (map (\<lambda>(k, v). [k, v]) kvs)) = strings_Join (map (\<lambda>(k, v). k @ '': '' @ v) kvs) '', ''"
proof (induction kvs)
  case (Cons kv kvs)
  then show ?case by (cases kvs) (auto split: prod.splits)
qed simp

lemma log_Other_pairs:
  "log_Other (concat (map (\<lambda>(k, v). [k, v]) kvs)) = (''other'', SlogString (strings_Join (map (\<lambda>(k, v). k @ '': '' @ v) kvs) '', ''))"
proof -
  have "length (concat (map (\<lambda>(k, v). [k :: string, v]) kvs)) = 2 * length kvs" by (induction kvs) auto
  then show ?thesis by (simp add: log_Other_def other_loop_join)
qed

text \<open>A logger emits a call exactly when its level does not exceed the call's, and a warning or error always at the default.\<close>

lemma logger_levels:
  "Logger_Error msg args (New_Logger level isDev) \<noteq> None"
  "Logger_Warn msg args (New_Logger level isDev) = None \<longleftrightarrow> level = ERROR"
  "Logger_Info msg args (New_Logger level isDev) = None \<longleftrightarrow> level \<in> {WARN, ERROR}"
  "Logger_Debug msg args (New_Logger level isDev) = None \<longleftrightarrow> level \<noteq> DEBUG"
  by (auto simp: Logger_Error_def Logger_Warn_def Logger_Info_def Logger_Debug_def logger_log_def New_Logger_def Let_def
      toSlogLevel_def LevelDebug_def LevelInfo_def LevelWarn_def LevelError_def DEBUG_def WARN_def ERROR_def)

text \<open>An unsigned number of 64 bits is logged as itself below \<^verbatim>\<open>2^63\<close> and as a negative number from there on.\<close>

lemma log_UInt64_value:
  "log_UInt64 key data = (key, SlogInt (if uint data < 2 ^ 63 then uint data else uint data - 2 ^ 64))"
proof -
  have bound: "uint data < 2 ^ 64" using uint_bounded [of data] by simp
  have "signed_take_bit 63 (uint data) = (if uint data < 2 ^ 63 then uint data else uint data - 2 ^ 64)"
  proof (cases "uint data < 2 ^ 63")
    case True
    moreover have "- (2 ^ 63) \<le> uint data" by (rule order_trans [OF _ uint_ge_0]) simp
    ultimately show ?thesis by (simp only: signed_take_bit_int_eq_self if_True)
  next
    case False
    have "signed_take_bit 63 (uint data) = signed_take_bit 63 (uint data - 2 ^ 64)"
      by (simp add: signed_take_bit_eq_iff_take_bit_eq take_bit_eq_mod)
    also have "\<dots> = uint data - 2 ^ 64" using False bound by (intro signed_take_bit_int_eq_self) simp_all
    finally show ?thesis using False by simp
  qed
  then show ?thesis by (simp add: log_UInt64_def sint_uint)
qed

end
