(* ===== verification/Programs.thy ===== *)
theory Programs
  imports Worker_Service Control_Plane Logging
begin

text \<open>
  The two programs: their configuration (\<^verbatim>\<open>worker/config\<close>, \<^verbatim>\<open>control-plane/config\<close>),
  the main functions (\<^verbatim>\<open>cmd/worker\<close>, \<^verbatim>\<open>cmd/control-plane\<close>), which build the components
  and panic on an error, and the loops that a ticker drives. Reading a file, decoding YAML, the
  UUID, dialing, remote calls and listening are parameters.
\<close>

section \<open>Command line\<close>

text \<open>
  \<^verbatim>\<open>flag.Parse\<close> with the one flag \<^verbatim>\<open>config\<close>: the path, or the exit code with which the
  package ends the program (2 for a wrong flag, 0 for a request for help).
\<close>

fun flag_parse :: "string list \<Rightarrow> string \<Rightarrow> int + string" where
  "flag_parse [] configPath = Inr configPath"
| "flag_parse (s # args) configPath =
     (if length s < 2 \<or> s ! 0 \<noteq> CHR ''-'' then Inr configPath
      else if s = ''--'' then Inr configPath
      else let body = drop (if s ! 1 = CHR ''-'' then 2 else 1) s;
               name = takeWhile (\<lambda>c. c \<noteq> CHR ''='') body
           in if body = [] \<or> body ! 0 = CHR ''-'' \<or> body ! 0 = CHR ''='' then Inl 2
              else if name \<noteq> ''config'' then Inl (if name = ''help'' \<or> name = ''h'' then 0 else 2)
              else if CHR ''='' \<in> set body then flag_parse args (drop (Suc (length name)) body)
              else (case args of [] \<Rightarrow> Inl 2 | v # rest \<Rightarrow> flag_parse rest v))"

section \<open>Configuration\<close>

record WorkerConfig =
  wc_GRPC_Port :: string
  wc_ID :: string
  wc_Address :: string
  wc_Capacity :: int
  wc_Pool :: int
  wc_Labels :: "string gomap"
  wc_Capabilities :: "string list"
  wc_ControlPlane_Address :: string

record CpConfig =
  cpc_GRPC_Port :: string
  cpc_Bus_Capacity :: int

datatype main_error =
    Exited int
  | ReadConfigFailed string
  | ParseConfigFailed string
  | PoolFailed
  | ExecutorsFailed executor_error
  | StartFailed register_error
  | BusFailed
  | ListenFailed string

definition load_config ::
  "string list \<Rightarrow> (string \<Rightarrow> string + 'b) \<Rightarrow> ('b \<Rightarrow> string + 'cfg) \<Rightarrow> main_error + 'cfg" where
  "load_config args readFile unmarshal =
     (case flag_parse args ''config.yaml'' of
        Inl code \<Rightarrow> Inl (Exited code)
      | Inr configPath \<Rightarrow>
          (case readFile configPath of
             Inl err \<Rightarrow> Inl (ReadConfigFailed err)
           | Inr bytes \<Rightarrow> (case unmarshal bytes of Inl err \<Rightarrow> Inl (ParseConfigFailed err) | Inr config \<Rightarrow> Inr config)))"

definition worker_config_Load ::
  "string list \<Rightarrow> (string \<Rightarrow> string + 'b) \<Rightarrow> ('b \<Rightarrow> string + WorkerConfig) \<Rightarrow> string \<Rightarrow> main_error + WorkerConfig" where
  "worker_config_Load args readFile unmarshal uuid =
     (case load_config args readFile unmarshal of Inl err \<Rightarrow> Inl err | Inr config \<Rightarrow> Inr (config\<lparr>wc_ID := uuid\<rparr>))"

definition cp_config_Load ::
  "string list \<Rightarrow> (string \<Rightarrow> string + 'b) \<Rightarrow> ('b \<Rightarrow> string + CpConfig) \<Rightarrow> main_error + CpConfig" where
  "cp_config_Load args readFile unmarshal = load_config args readFile unmarshal"

text \<open>The lines that \<^verbatim>\<open>Print\<close> writes.\<close>

definition worker_config_Print :: "WorkerConfig \<Rightarrow> string list" where
  "worker_config_Print cfg =
     [''-------CONFIG-------'', ''GRPC Port: '' @ wc_GRPC_Port cfg, ''Worker ID: '' @ wc_ID cfg,
      ''Worker Address: '' @ wc_Address cfg, ''Control Plane Address: '' @ wc_ControlPlane_Address cfg]"

definition cp_config_Print :: "CpConfig \<Rightarrow> string list" where
  "cp_config_Print cfg =
     [''-------CONFIG-------'', ''GRPC Port: '' @ cpc_GRPC_Port cfg, ''BUS Capacity: '' @ decimal (cpc_Bus_Capacity cfg)]"

section \<open>The worker program\<close>

definition config_node :: "WorkerConfig \<Rightarrow> WorkerNode" where
  "config_node cfg =
     \<lparr>n_ID = wc_ID cfg, n_Address = wc_Address cfg, n_Labels = wc_Labels cfg, n_Capabilities = wc_Capabilities cfg,
      n_Capacity = wc_Capacity cfg, n_RunningTasks = 0, n_LastHeartbeat = 0, n_status = WorkerAlive\<rparr>"

text \<open>The registry holds the executors themselves (\<open>exec\<close>, the two of \<open>Executors\<close>).\<close>

definition registry_of :: "(executor_kind \<Rightarrow> executor) \<Rightarrow> executor_kind ExecutorRegistry \<Rightarrow> executor ExecutorRegistry" where
  "registry_of exec r = \<lparr>er_executors = map (\<lambda>(k, x). (k, exec x)) (er_executors r)\<rparr>"

definition worker_main ::
  "string list \<Rightarrow> (string \<Rightarrow> string + 'b) \<Rightarrow> ('b \<Rightarrow> string + WorkerConfig) \<Rightarrow> string \<Rightarrow> (executor_kind \<Rightarrow> executor) \<Rightarrow>
   (string \<Rightarrow> string + 'c) \<Rightarrow> ('c \<Rightarrow> RegisterRequest \<Rightarrow> string + RegisterResponse) \<Rightarrow> (string \<Rightarrow> string option) \<Rightarrow>
   main_error + 'c WorkerService" where
  "worker_main args readFile unmarshal uuid exec dial call listen =
     (case worker_config_Load args readFile unmarshal uuid of
        Inl err \<Rightarrow> Inl err
      | Inr cfg \<Rightarrow>
     (case NewWorkerPool [WithWorkerCount (wc_Pool cfg), WithCapacity 128] of
        None \<Rightarrow> Inl PoolFailed
      | Some workerPool \<Rightarrow>
     (case RegisterExecutors New_ExecutorRegistry (wc_Capabilities cfg) of
        (Inl err, r) \<Rightarrow> Inl (ExecutorsFailed err)
      | (Inr registered, r) \<Rightarrow>
     (case WorkerService_Start dial call
             (NewWorkerService (config_node cfg) workerPool (registry_of exec r) (NewClusterClient (wc_ControlPlane_Address cfg))) of
        (Some err, s) \<Rightarrow> Inl (StartFailed err)
      | (None, s) \<Rightarrow>
          (case listen (wc_GRPC_Port cfg) of Some err \<Rightarrow> Inl (ListenFailed err) | None \<Rightarrow> Inr s)))))"

text \<open>\<^verbatim>\<open>heartbeatLoop\<close>: each tick sends a heartbeat until the context is done.\<close>

datatype 'p loop_event = Tick_C 'p | CtxDone

type_synonym 'c heartbeat_calls =
  "(string \<Rightarrow> string + 'c) \<times> ('c \<Rightarrow> HeartbeatRequest \<Rightarrow> string + bool) \<times> ('c \<Rightarrow> RegisterRequest \<Rightarrow> string + RegisterResponse)"

fun heartbeatLoop :: "'c heartbeat_calls loop_event list \<Rightarrow> 'c WorkerService \<Rightarrow> 'c WorkerService" where
  "heartbeatLoop [] s = s"
| "heartbeatLoop (CtxDone # events) s = s"
| "heartbeatLoop (Tick_C (dial, hb, reg) # events) s = heartbeatLoop events (sendHeartbeat dial hb reg s)"

section \<open>The control-plane program\<close>

definition cp_main ::
  "string list \<Rightarrow> (string \<Rightarrow> string + 'b) \<Rightarrow> ('b \<Rightarrow> string + CpConfig) \<Rightarrow> (string \<Rightarrow> string option) \<Rightarrow>
   main_error + (clock_and_order, 'h, 'c) ControlPlane" where
  "cp_main args readFile unmarshal listen =
     (case cp_config_Load args readFile unmarshal of
        Inl err \<Rightarrow> Inl err
      | Inr cfg \<Rightarrow>
          (case NewBus (cpc_Bus_Capacity cfg) of
             Ok eventBus \<Rightarrow>
               (case listen (cpc_GRPC_Port cfg) of
                  Some err \<Rightarrow> Inl (ListenFailed err)
                | None \<Rightarrow> Inr (control_plane_main eventBus))
           | _ \<Rightarrow> Inl BusFailed))"

text \<open>\<^verbatim>\<open>Scheduler.Run\<close>: each tick runs \<^verbatim>\<open>assignOnce\<close>; \<open>None\<close> would be its panic.\<close>

type_synonym 'c tick_calls =
  "((WorkerNode \<Rightarrow> WorkerNode \<Rightarrow> bool) \<Rightarrow> WorkerNode list \<Rightarrow> WorkerNode list) \<times> rng \<times> int \<times> 'c dialer \<times> 'c dispatcher"

fun Scheduler_Run :: "'c tick_calls loop_event list \<Rightarrow> ('i, 'h, 'c) ControlPlane \<Rightarrow> ('i, 'h, 'c) ControlPlane option" where
  "Scheduler_Run [] s = Some s"
| "Scheduler_Run (CtxDone # events) s = Some s"
| "Scheduler_Run (Tick_C (sortSlice, rng, now, dial, rpc) # events) s =
     (case assignOnce sortSlice rng now dial rpc s of None \<Rightarrow> None | Some s' \<Rightarrow> Scheduler_Run events s')"

end
