(* ===== verification/Cluster.thy ===== *)
theory Cluster
  imports Programs Grpc_Server
begin

text \<open>
  The control plane and its workers together. A worker is the service that \<open>worker_main\<close>
  starts, at the address where it listens; it registers an ID and an address. The control plane
  chooses workers by ID and reaches them by connections, which it keeps per ID: a connection is
  the address it was dialed to, and whatever process listens there gets the calls. The
  scheduler's call reaches a worker as one step (the handler) and returns in another, so
  everything else can happen in between, and the answer can get lost. The same holds for the
  reports of the workers. Any client may call the orchestration service, and a worker process may
  be replaced by a new one with another ID and another configuration at any time.
\<close>

section \<open>Steps\<close>

text \<open>
  The reports on their way from the workers, the attempts that have ended and not yet returned
  to the pool (by address and goroutine; whether with a Go error), and the history of all attempts.
\<close>

record reports =
  rp_wire :: "ResultRequest list"
  rp_ended :: "string \<times> nat \<Rightarrow> bool option"
  rp_log :: "(TaskInfo \<times> (TaskResult \<times> string option)) list"

definition no_reports :: reports where
  "no_reports = \<lparr>rp_wire = [], rp_ended = (\<lambda>_. None), rp_log = []\<rparr>"

type_synonym ('h, 'd) cluster =
  "sched_phase \<times> (clock_and_order, 'h, string) ControlPlane \<times> (string \<Rightarrow> 'd WorkerService) \<times> DispatchResponse option \<times> reports"

text \<open>A connection goes to the address that was dialed.\<close>

definition goes_to :: "string dialer \<Rightarrow> bool" where
  "goes_to dial \<longleftrightarrow> (\<forall>n addr conn. dial n addr = Inr conn \<longrightarrow> conn = addr)"

text \<open>A call that succeeds returns the answer the worker gave to it (\<open>call\<close>).\<close>

definition answered :: "DispatchResponse option \<Rightarrow> 'c dispatcher \<Rightarrow> bool" where
  "answered call rpc \<longleftrightarrow> (\<forall>n conn req resp. rpc n conn req = Inr resp \<longrightarrow> call = Some resp)"

text \<open>
  One attempt of a task, with the outcome \<open>run\<close> of its executor in this attempt: the error
  \<^verbatim>\<open>Do\<close> returns and the reports it sends. Each of them may get lost afterwards.
\<close>

definition attempt :: "executor \<Rightarrow> ExecutableTask \<Rightarrow> string option \<times> ResultRequest list" where
  "attempt run t =
     (case ExecutableTask_Do Inr (\<lambda>n conn req. Inr True) (t\<lparr>et_exec := run\<rparr>) (NewClusterClient '''') of
        (err, sent, c) \<Rightarrow> (err, sent))"

text \<open>
  What a worker does besides handling a dispatch. A goroutine returns to the pool with the
  outcome of its attempt.
\<close>

fun own_action :: "'d service_action \<Rightarrow> bool" where
  "own_action (SvAccept req) = False"
| "own_action (SvSubmit n) = False"
| "own_action act = True"

fun attempt_of :: "'d service_action \<Rightarrow> 'd WorkerService \<Rightarrow> (nat \<times> bool) option" where
  "attempt_of (SvPool (ActWorker i ctx err now wait)) v =
     (case p_workers (s_workerPool v) ! i of WRunning job \<Rightarrow> Some (i, err) | _ \<Rightarrow> None)"
| "attempt_of act v = None"

definition returns :: "string \<Rightarrow> 'd service_action \<Rightarrow> 'd WorkerService \<Rightarrow> reports \<Rightarrow> reports option" where
  "returns a act v R =
     (case attempt_of act v of
        None \<Rightarrow> Some R
      | Some (i, err) \<Rightarrow>
          if rp_ended R (a, i) = Some err then Some (R\<lparr>rp_ended := (rp_ended R)((a, i) := None)\<rparr>) else None)"

definition executing :: "'d WorkerService \<Rightarrow> nat \<Rightarrow> ExecutableTask \<Rightarrow> bool" where
  "executing v i t \<longleftrightarrow> i < length (p_workers (s_workerPool v))
     \<and> (\<exists>job. p_workers (s_workerPool v) ! i = WRunning job \<and> t = tt_inner (wj_task job))"

text \<open>A worker under the ID \<open>n\<close>, as its main function starts it with some configuration.\<close>

definition started_worker :: "(executor_kind \<Rightarrow> executor) \<Rightarrow> string \<Rightarrow> 'd WorkerService \<Rightarrow> bool" where
  "started_worker exec n v \<longleftrightarrow>
     (\<exists>cfg dial call. worker_main [] (\<lambda>path. Inr ()) (\<lambda>bytes. Inr cfg) n exec dial call (\<lambda>port. None) = Inr v)"

fun phase_workers :: "sched_phase \<Rightarrow> WorkerNode list" where
  "phase_workers (SchedLoop workers jobs) = workers"
| "phase_workers (SchedSent workers job p w jobs) = workers"
| "phase_workers (SchedCount workers w jobs) = workers"
| "phase_workers ph = []"

text \<open>A new UUID is in use nowhere.\<close>

definition unused_id :: "string \<Rightarrow> sched_phase \<Rightarrow> (clock_and_order, 'h, string) ControlPlane \<Rightarrow> (string \<Rightarrow> 'd WorkerService) \<Rightarrow> bool" where
  "unused_id n ph s W \<longleftrightarrow> map_of (r_workers (cp_registry s)) n = None \<and> n \<notin> n_ID ` set (phase_workers ph)
     \<and> (\<forall>a. n_ID (s_node (W a)) \<noteq> n)"

text \<open>
  \<open>step_deliver\<close>: the scheduler has chosen the worker \<open>n\<close>; the call goes over its connection,
  which is dialed if there is none, to whatever worker listens at that address.
  \<open>step_restart\<close>: a new process at the address \<open>a\<close>.
\<close>

inductive cluster_step :: "(executor_kind \<Rightarrow> executor) \<Rightarrow> ('h, 'd) cluster \<Rightarrow> ('h, 'd) cluster \<Rightarrow> bool" for exec where
  step_api: "api_step s s' \<Longrightarrow> cluster_step exec (ph, s, W, call, R) (ph, s', W, call, R)"
| step_register: "Registry_Register now (request_node (registration_request (s_node (W a)))) (cp_registry s) = Some r \<Longrightarrow>
    cluster_step exec (ph, s, W, call, R) (ph, s\<lparr>cp_registry := r\<rparr>, W, call, R)"
| step_deliver: "selectWorker sortSlice workers (dr_Type (j_Request job)) = Inr n \<Longrightarrow> goes_to dial \<Longrightarrow>
    WorkerClient_getOrDial (dial i) (\<lambda>w. AddressOf w (cp_registry s)) n (cp_client s) = (Inr a, c) \<Longrightarrow>
    GRPCServer_Dispatch (j_Request job) (W a) = (resp, v) \<Longrightarrow>
    cluster_step exec (SchedLoop workers (job # jobs), s, W, None, R)
      (SchedLoop workers (job # jobs), s\<lparr>cp_client := c\<rparr>, W(a := v), Some resp, R)"
| step_scheduler: "go_range rng \<Longrightarrow> goes_to dial \<Longrightarrow> answered call rpc \<Longrightarrow>
    sched_step sortSlice rng now dial rpc (ph, s) = (ph', s') \<Longrightarrow>
    cluster_step exec (ph, s, W, call, R) (ph', s', W, None, R)"
| step_worker: "own_action act \<Longrightarrow> service_act act (W a, []) = Some (v, []) \<Longrightarrow> returns a act (W a) R = Some R' \<Longrightarrow>
    cluster_step exec (ph, s, W, call, R) (ph, s, W(a := v), call, R')"
| step_restart: "started_worker exec n v \<Longrightarrow> unused_id n ph s W \<Longrightarrow>
    cluster_step exec (ph, s, W, call, R) (ph, s, W(a := v), call, R\<lparr>rp_ended := \<lambda>x. if fst x = a then None else rp_ended R x\<rparr>)"
| step_started: "executing (W a) i t \<Longrightarrow>
    cluster_step exec (ph, s, W, call, R) (ph, s, W, call, R\<lparr>rp_wire := rp_wire R @ take 1 (snd (attempt run t))\<rparr>)"
| step_ended: "executing (W a) i t \<Longrightarrow> rp_ended R (a, i) = None \<Longrightarrow> attempt run t = (err, sent) \<Longrightarrow>
    cluster_step exec (ph, s, W, call, R)
      (ph, s, W, call, \<lparr>rp_wire = rp_wire R @ drop 1 sent, rp_ended = (rp_ended R)((a, i) := Some (err \<noteq> None)),
         rp_log = (et_task t, run (ti_Spec (et_task t)) (int64 (ti_TimeoutInSeconds (et_task t) * Second))) # rp_log R\<rparr>)"
| step_report: "go_range rng \<Longrightarrow> req \<in> set (rp_wire R) \<Longrightarrow>
    cluster_step exec (ph, s, W, call, R)
      (ph, s\<lparr>cp_engine := snd (Server_ReportResult rng now req (cp_engine s))\<rparr>, W, call, R\<lparr>rp_wire := remove1 req (rp_wire R)\<rparr>)"

text \<open>At the start every address has a worker of its own ID; one that nobody registers plays no part.\<close>

inductive cluster_reachable :: "(executor_kind \<Rightarrow> executor) \<Rightarrow> ('h, 'd) cluster \<Rightarrow> bool" for exec where
  cluster_start: "inj ids \<Longrightarrow> (\<And>a. started_worker exec (ids a) (W a)) \<Longrightarrow>
    cluster_reachable exec (SchedIdle, control_plane_main eventBus, W, None, no_reports)"
| cluster_next: "cluster_reachable exec x \<Longrightarrow> cluster_step exec x y \<Longrightarrow> cluster_reachable exec y"

section \<open>The control plane's side\<close>

lemma report_engine:
  "snd (Server_ReportResult rng now req e) = snd (OnTaskResponse rng now (res_WorkflowId req) (res_TaskId req) (request_result req) e)"
  by (simp add: Server_ReportResult_def split: prod.split option.split)

lemma cluster_cp_step:
  "cluster_step exec (ph, s, W, call, R) (ph', s', W', call', R') \<Longrightarrow>
   cp_step (ph, s) (ph', s') \<or> ph' = ph \<and> (s' = s \<or> (\<exists>c. s' = s\<lparr>cp_client := c\<rparr>))"
proof (induction "(ph, s, W, call, R)" "(ph', s', W', call', R')" rule: cluster_step.induct)
  case (step_scheduler rng dial rpc sortSlice now)
  then show ?case using cp_scheduler [of rng ph s sortSlice now dial rpc] by simp
qed (auto simp: report_engine intro: cp_api cp_register cp_report)

lemma dispatched_job_of:
  assumes cover: "jobs_cover e (insert job J)" and p: "j_OnDispatched job = Some p" and j: "job_of (e_workflows e) j"
  shows "job_of (e_workflows (OnTaskDispatched now p i e)) j"
proof -
  have "ready_tasks e \<subseteq> targets (insert job (insert j J))"
    using cover targets_mono [of "insert job J" "insert job (insert j J)"] by (auto simp: jobs_cover_def)
  then have "jobs_cover e (insert job (insert j J))" using cover j by (simp add: jobs_cover_def)
  from dispatched_cover [OF this p, of now i] show ?thesis by (simp add: jobs_cover_def)
qed

text \<open>A task that was once in the engine stays there, and its job does not change.\<close>

lemma sched_step_job_of:
  assumes inv: "cp_inv (ph, s)" and step: "sched_step sortSlice rng now dial rpc (ph, s) = (ph', s')"
    and j: "job_of (e_workflows (cp_engine s)) j"
  shows "job_of (e_workflows (cp_engine s')) j"
proof (cases ph)
  case SchedIdle
  then show ?thesis using step j by (simp add: queue_simps) (metis Engine.select_convs(1) Engine.surjective Engine.update_convs(2) ControlPlane.select_convs(1) ControlPlane.surjective ControlPlane.update_convs(1))
next
  case (SchedPopped jobs)
  then show ?thesis using step j by auto
next
  case (SchedLoop ws jobs)
  then show ?thesis using step j
    by (cases jobs) (auto split: sum.splits prod.splits dest!: commit_dispatch_fields)
next
  case (SchedSent ws job p w jobs)
  have "jobs_cover (cp_engine s) (insert job (set (e_queue (cp_engine s)) \<union> set jobs))" "j_OnDispatched job = Some p"
    using inv SchedSent by (simp_all add: cp_inv_def)
  from dispatched_job_of [OF this j] show ?thesis using step SchedSent by (auto simp: call_OnDispatched_def)
next
  case (SchedCount ws w jobs)
  then show ?thesis using step j by (auto simp: count_running_def)
qed

lemma cp_step_job_of:
  assumes "cp_step (ph, s) (ph', s')" "cp_inv (ph, s)" "job_of (e_workflows (cp_engine s)) j"
  shows "job_of (e_workflows (cp_engine s')) j"
  using assms(1)
proof (cases rule: cp_step.cases)
  case cp_api
  then show ?thesis using api_step_queues [of s s'] assms(2,3) by (auto simp: cp_inv_def jobs_cover_def queues_ready_def)
next
  case (cp_report rng now wid tid r)
  then show ?thesis using response_queues [of "cp_engine s" rng now wid tid r] assms(2,3)
    by (auto simp: cp_inv_def jobs_cover_def queues_ready_def)
next
  case cp_register
  then show ?thesis using assms(3) by simp
next
  case (cp_scheduler rng sortSlice now dial rpc)
  then show ?thesis using sched_step_job_of [OF assms(2) _ assms(3)] by metis
qed

section \<open>The workers' side\<close>

lemma registry_frames:
  "cancel_loop ids m s = (m', s') \<Longrightarrow> s_executionRegistry s' = s_executionRegistry s \<and> s_node s' = s_node s"
  by (induction ids m s rule: cancel_loop.induct) (auto split: option.splits)

lemma register_frames:
  "WorkerService_register dial call s = (e, s') \<Longrightarrow> s_executionRegistry s' = s_executionRegistry s \<and> s_node s' = s_node s"
  by (auto simp: WorkerService_register_def split: prod.splits sum.splits if_splits)

lemma heartbeat_frames:
  "s_executionRegistry (sendHeartbeat dial hb reg s) = s_executionRegistry s \<and> s_node (sendHeartbeat dial hb reg s) = s_node s"
  by (auto simp: sendHeartbeat_def split: prod.splits sum.splits option.splits dest: register_frames)

lemma own_action_effect:
  assumes "own_action act" "service_act act (s, []) = Some (v, [])" "service_inv (s, [])"
  shows "in_flight (v, []) \<subseteq># in_flight (s, []) \<and> s_executionRegistry v = s_executionRegistry s \<and> s_node v = s_node s"
proof (cases act)
  case (SvPool pact)
  obtain p u n where p: "pool_act pact (s_workerPool s) = Some p" "v = s\<lparr>s_workerPool := p, s_unique := u, s_contexts := n\<rparr>"
    and no: "\<And>t. pact \<noteq> ActSubmit t" "\<And>t. pact \<noteq> ActTrySubmit t"
    using assms(2) SvPool by (cases pact) (auto simp: service_act_def split: option.splits prod.splits)
  from pool_act_ghost [OF p(1) no] show ?thesis
    by (simp add: p(2) subset_eq_diff_conv [symmetric] diff_diff_add_mset [symmetric] del: diff_diff_add_mset)
next
  case (SvCancel ids)
  obtain m s' where c: "cancel_loop ids [] s = (m, s')" by (cases "cancel_loop ids [] s")
  then show ?thesis using cancel_loop_frame [OF c] registry_frames [OF c] assms(2) SvCancel
    by (simp add: service_act_def WorkerService_CancelTasks_def)
next
  case (SvHeartbeat dial hb reg)
  then show ?thesis using assms(2) heartbeat_frame [of dial hb reg s] heartbeat_frames [of dial hb reg s]
    by (auto simp: service_act_def)
qed (use assms(1) in simp_all)

text \<open>The handler adds at most the task of the request, with the executor of its type.\<close>

lemma dispatch_effect:
  assumes d: "GRPCServer_Dispatch req s = (resp, v)" and inv: "service_inv (s, [])"
  shows "service_inv (v, []) \<and> s_executionRegistry v = s_executionRegistry s \<and> s_node v = s_node s
     \<and> (in_flight (v, []) = in_flight (s, [])
        \<or> (\<exists>ex. ExecutorRegistry_Get (dr_Type req) (s_executionRegistry s) = Inr ex
             \<and> in_flight (v, []) = add_mset (request_task req ex) (in_flight (s, []))))"
proof -
  obtain a s1 where a: "dispatch_accept req s = (a, s1)" by force
  have frame: "s_executionRegistry s1 = s_executionRegistry s \<and> s_node s1 = s_node s \<and> s_workerPool s1 = s_workerPool s"
    using a by (auto simp: dispatch_accept_def split: if_splits prod.splits bool.splits sum.splits)
  show ?thesis
  proof (cases a)
    case (NewTask t)
    then obtain ex where ex: "ExecutorRegistry_Get (dr_Type req) (s_executionRegistry s) = Inr ex" "t = request_task req ex"
      using a by (auto simp: dispatch_accept_def split: if_splits prod.splits bool.splits sum.splits)
    have v: "v = snd (dispatch_submit t s1)"
      using d a NewTask by (auto simp: GRPCServer_Dispatch_def DispatchTask_def split: prod.splits option.splits)
    have "service_inv (s1, [t])" using accept_inv [OF inv a] NewTask by simp
    from service_submit_inv [OF this, of t "[]"] have si: "service_inv (v, [])" by (simp add: v)
    have sub: "p_completed (s_workerPool s) \<subseteq># p_submitted (s_workerPool s)"
      using inv by (auto intro: pool_inv_sub)
    have fl: "in_flight (v, []) = in_flight (s, []) \<or> in_flight (v, []) = add_mset t (in_flight (s, []))"
      using frame multiset_diff_union_assoc [OF sub, of "{#t#}"]
      by (auto simp: v dispatch_submit_def WorkerPool_TrySubmit_def chan_send_def)
    have "s_executionRegistry v = s_executionRegistry s \<and> s_node v = s_node s"
      using frame by (auto simp: v dispatch_submit_def split: prod.splits bool.splits)
    with si fl ex show ?thesis by auto
  next
    case (Refused e)
    then have "v = s1" using d a by (auto simp: GRPCServer_Dispatch_def DispatchTask_def split: prod.splits option.splits)
    then show ?thesis using accept_inv [OF inv a] Refused frame by simp
  next
    case AlreadyInFlight
    then have "v = s1" using d a by (auto simp: GRPCServer_Dispatch_def DispatchTask_def split: prod.splits option.splits)
    then show ?thesis using accept_inv [OF inv a] AlreadyInFlight frame by simp
  qed
qed

section \<open>The invariant of the cluster\<close>

text \<open>The task a worker holds is the task of a job of the engine, with the executor of its type.\<close>

definition task_known :: "Workflow gomap \<Rightarrow> executor ExecutorRegistry \<Rightarrow> TrackedTask \<Rightarrow> bool" where
  "task_known ws reg t \<longleftrightarrow> (\<exists>job ex. job_of ws job \<and> t = request_task (j_Request job) ex
     \<and> ExecutorRegistry_Get (dr_Type (j_Request job)) reg = Inr ex)"

definition worker_inv :: "Workflow gomap \<Rightarrow> 'd WorkerService \<Rightarrow> bool" where
  "worker_inv ws v \<longleftrightarrow> service_inv (v, []) \<and> (\<forall>t \<in># in_flight (v, []). task_known ws (s_executionRegistry v) t)"

definition cluster_inv :: "('h, 'd) cluster \<Rightarrow> bool" where
  "cluster_inv x \<longleftrightarrow> (case x of (ph, s, W, call, R) \<Rightarrow>
     cp_inv (ph, s) \<and> (\<forall>a. worker_inv (e_workflows (cp_engine s)) (W a)))"

lemma cp_inv_client: "cp_inv (ph, s) \<Longrightarrow> cp_engine s' = cp_engine s \<Longrightarrow> cp_registry s' = cp_registry s \<Longrightarrow> cp_inv (ph, s')"
  by (simp add: cp_inv_def)

lemma worker_inv_mono:
  "worker_inv ws v \<Longrightarrow> (\<And>j. job_of ws j \<Longrightarrow> job_of ws' j) \<Longrightarrow> worker_inv ws' v"
  unfolding worker_inv_def task_known_def by blast

lemma worker_inv_own:
  assumes "worker_inv ws v" "own_action act" "service_act act (v, []) = Some (v', [])"
  shows "worker_inv ws v'"
proof -
  have inv: "service_inv (v, [])" using assms(1) by (simp add: worker_inv_def del: service_inv_simp)
  from own_action_effect [OF assms(2,3) inv] service_act_inv [OF inv assms(3)] assms(1) show ?thesis
    by (auto simp: worker_inv_def simp del: service_inv_simp in_flight_simp dest: mset_subset_eqD)
qed

lemma worker_inv_dispatch:
  assumes "worker_inv ws v" "GRPCServer_Dispatch (j_Request job) v = (resp, v')" "job_of ws job"
  shows "worker_inv ws v'"
proof -
  have inv: "service_inv (v, [])" using assms(1) by (simp add: worker_inv_def del: service_inv_simp)
  have new: "task_known ws (s_executionRegistry v) (request_task (j_Request job) ex)"
    if "ExecutorRegistry_Get (dr_Type (j_Request job)) (s_executionRegistry v) = Inr ex" for ex
    using that assms(3) unfolding task_known_def by blast
  from dispatch_effect [OF assms(2) inv] assms(1) new show ?thesis
    by (auto simp: worker_inv_def simp del: service_inv_simp in_flight_simp)
qed

section \<open>Starting workers\<close>

lemma register_frames_started:
  assumes "WorkerService_Start dial call (NewWorkerService node p r cl) = (None, s)"
  shows "s_executionRegistry s = r \<and> s_node s = node"
  using assms
  by (auto simp: WorkerService_Start_def NewWorkerService_def split: prod.splits option.splits dest!: register_frames)

lemma started_flight:
  assumes "NewWorkerPool opts = Some p0" "set opts \<subseteq> range WithWorkerCount \<union> range WithCapacity"
    and "WorkerService_Start dial call (NewWorkerService node p0 reg cl) = (None, s)"
  shows "in_flight (s, []) = {#}"
proof -
  have "s_workerPool s = WorkerPool_Start p0"
    using assms(3) by (auto simp: WorkerService_Start_def NewWorkerService_def split: prod.splits option.splits dest!: register_frame)
  then show ?thesis using NewWorkerPool_form [OF assms(1,2)] by (auto simp: WorkerPool_Start_def zero_pool_def)
qed

text \<open>A worker that runs has registered the executors of exactly its capabilities.\<close>

definition executor_of :: "(executor_kind \<Rightarrow> executor) \<Rightarrow> string \<Rightarrow> executor" where
  "executor_of exec t = exec (if t = ''shell'' then ShellExecutor else HttpExecutor)"

lemma worker_main_started:
  assumes "worker_main args readFile unmarshal uuid exec dial call listen = Inr s"
  shows "service_inv (s, []) \<and> in_flight (s, []) = {#} \<and> n_ID (s_node s) = uuid
     \<and> set (n_Capabilities (s_node s)) \<subseteq> {''shell'', ''http''}
     \<and> (\<forall>t. ExecutorRegistry_Get t (s_executionRegistry s)
          = (if t \<in> set (n_Capabilities (s_node s)) then Inr (executor_of exec t) else Inl (UnknownTaskType t)))"
proof -
  from assms obtain cfg p registered r s' where
    cfg: "worker_config_Load args readFile unmarshal uuid = Inr cfg"
    and p: "NewWorkerPool [WithWorkerCount (wc_Pool cfg), WithCapacity 128] = Some p"
    and r: "RegisterExecutors New_ExecutorRegistry (wc_Capabilities cfg) = (Inr registered, r)"
    and s: "WorkerService_Start dial call (NewWorkerService (config_node cfg) p (registry_of exec r) (NewClusterClient (wc_ControlPlane_Address cfg))) = (None, s)"
    by (auto simp: worker_main_def split: sum.splits option.splits prod.splits)
  have opts: "set [WithWorkerCount (wc_Pool cfg), WithCapacity 128] \<subseteq> range WithWorkerCount \<union> range WithCapacity" by auto
  have id: "wc_ID cfg = uuid" using cfg by (auto simp: worker_config_Load_def split: sum.splits)
  note f = register_frames_started [OF s]
  have caps: "\<forall>c \<in> set (wc_Capabilities cfg). isExecutorExists c"
    using r register_loop_err [of "wc_Capabilities cfg" "[]" New_ExecutorRegistry] by (force simp: RegisterExecutors_def)
  have "ExecutorRegistry_Get t (registry_of exec r)
      = (if t \<in> set (wc_Capabilities cfg) then Inr (executor_of exec t) else Inl (UnknownTaskType t))" for t
    using register_loop_ok [OF caps, of "[]" New_ExecutorRegistry t] r
    by (auto simp: RegisterExecutors_def ExecutorRegistry_Get_def registry_of_def map_of_map executor_of_def New_ExecutorRegistry_def
        split: option.splits)
  then show ?thesis
    using started_service_inv [OF p opts s] started_flight [OF p opts s] f id caps
    by (auto simp: config_node_def isExecutorExists_def simp del: service_inv_simp in_flight_simp)
qed

lemma started_worker_inv:
  "started_worker exec n v \<Longrightarrow> worker_inv ws v \<and> n_ID (s_node v) = n
     \<and> (\<forall>t. ExecutorRegistry_Get t (s_executionRegistry v)
          = (if t \<in> set (n_Capabilities (s_node v)) then Inr (executor_of exec t) else Inl (UnknownTaskType t)))"
  using worker_main_started by (fastforce simp: started_worker_def worker_inv_def simp del: service_inv_simp in_flight_simp)

lemma cluster_step_inv:
  assumes "cluster_step exec x y" "cluster_inv x"
  shows "cluster_inv y"
proof -
  obtain ph s W call R ph' s' W' call' R' where x: "x = (ph, s, W, call, R)" and y: "y = (ph', s', W', call', R')"
    by (metis surj_pair)
  have cp: "cp_inv (ph, s)" and W: "worker_inv (e_workflows (cp_engine s)) (W a)" for a
    using assms(2) by (simp_all add: x cluster_inv_def)
  have "cp_step (ph, s) (ph', s') \<or> ph' = ph \<and> (s' = s \<or> (\<exists>c. s' = s\<lparr>cp_client := c\<rparr>))"
    using assms(1) unfolding x y by (rule cluster_cp_step)
  then have step: "cp_step (ph, s) (ph', s') \<or> ph' = ph \<and> cp_engine s' = cp_engine s \<and> cp_registry s' = cp_registry s" by auto
  have cp': "cp_inv (ph', s')" using step cp cp_step_inv cp_inv_client by metis
  have mono: "job_of (e_workflows (cp_engine s')) j" if "job_of (e_workflows (cp_engine s)) j" for j
    using step cp_step_job_of [OF _ cp that] that by auto
  have "worker_inv (e_workflows (cp_engine s)) (W' a)" for a
    using assms(1) unfolding x y
  proof (cases rule: cluster_step.cases)
    case (step_deliver sortSlice workers job n dial i b c resp v jobs)
    then have "job_of (e_workflows (cp_engine s)) job" using cp by (simp add: cp_inv_def jobs_cover_def)
    with step_deliver worker_inv_dispatch [OF W] W show ?thesis by simp
  next
    case (step_worker act b v)
    with worker_inv_own [OF W] W show ?thesis by simp
  next
    case (step_restart n v b)
    have "worker_inv (e_workflows (cp_engine s)) v" using started_worker_inv [OF step_restart(6)] by blast
    with step_restart W show ?thesis by simp
  qed (use W in simp_all)
  then have "worker_inv (e_workflows (cp_engine s')) (W' a)" for a by (rule worker_inv_mono) (rule mono)
  then show ?thesis using cp' by (simp add: y cluster_inv_def)
qed

lemma cluster_reachable_inv: "cluster_reachable exec x \<Longrightarrow> cluster_inv x"
proof (induction rule: cluster_reachable.induct)
  case (cluster_start ids W eventBus)
  then have "worker_inv ws (W a)" for ws a using started_worker_inv by blast
  then show ?case using cp_reachable_inv [OF cp_start] by (simp add: cluster_inv_def)
qed (rule cluster_step_inv)

section \<open>Capabilities\<close>

definition nodes_ok :: "(string \<Rightarrow> string list) \<Rightarrow> WorkerNode gomap \<Rightarrow> bool" where
  "nodes_ok caps ws \<longleftrightarrow> (\<forall>k n. map_of ws k = Some n \<longrightarrow> n_ID n = k \<and> n_Capabilities n = caps k)"

definition caps_inv :: "(string \<Rightarrow> string list) \<Rightarrow> sched_phase \<times> ('i, 'h, 'c) ControlPlane \<Rightarrow> bool" where
  "caps_inv caps x \<longleftrightarrow> nodes_ok caps (r_workers (cp_registry (snd x)))
     \<and> (\<forall>n \<in> set (phase_workers (fst x)). n_Capabilities n = caps (n_ID n))"

lemma nodes_ok_update: "nodes_ok caps ws \<Longrightarrow> n_ID n = k \<Longrightarrow> n_Capabilities n = caps k \<Longrightarrow> nodes_ok caps (AList.update k n ws)"
  by (simp add: nodes_ok_def update_conv')

lemma nodes_okD: "nodes_ok caps ws \<Longrightarrow> map_of ws k = Some n \<Longrightarrow> n_ID n = k \<and> n_Capabilities n = caps k"
  by (simp add: nodes_ok_def)

lemmas node_set_defs = WorkerNode_SetAlive_def WorkerNode_SetSuspect_def WorkerNode_SetDead_def

lemma register_node_nodes:
  assumes "nodes_ok caps (r_workers r)" "n_Capabilities w = caps (n_ID w)"
  shows "nodes_ok caps (r_workers (register_node now w r))"
proof (cases "map_of (r_workers r) (n_ID w)")
  case None
  then show ?thesis using assms by (simp add: register_node_def nodes_ok_update)
next
  case (Some x)
  then show ?thesis using assms nodes_okD [OF assms(1) Some] by (simp add: register_node_def node_set_defs nodes_ok_update)
qed

lemma register_nodes:
  "nodes_ok caps (r_workers r) \<Longrightarrow> Registry_Register now w r = Some r' \<Longrightarrow> n_Capabilities w = caps (n_ID w) \<Longrightarrow> nodes_ok caps (r_workers r')"
  using register_node_nodes [of caps r w now] by (auto simp: Registry_Register_def push_trigger_def split: option.splits)

lemma heartbeat_nodes: "nodes_ok caps (r_workers r) \<Longrightarrow> nodes_ok caps (r_workers (snd (Registry_Heartbeat now a n r)))"
  unfolding Registry_Heartbeat_def by (auto simp: node_set_defs dest: nodes_okD split: option.splits intro!: nodes_ok_update)

lemma increment_nodes: "nodes_ok caps (r_workers r) \<Longrightarrow> nodes_ok caps (r_workers (IncrementRunning a r))"
  unfolding IncrementRunning_def by (auto dest: nodes_okD split: option.splits intro!: nodes_ok_update)

lemma update_nodes: "nodes_ok caps (r_workers r) \<Longrightarrow> nodes_ok caps (r_workers (fst (updateWorkerStatus i a status r env)))"
  unfolding updateWorkerStatus_def
  by (auto simp: node_set_defs dest: nodes_okD split: option.splits WorkerStatus.splits intro!: nodes_ok_update)

lemma check_nodes:
  assumes "nodes_ok caps (r_workers r)" "checkHeartbeat now i a r env = (again, r', env')"
  shows "nodes_ok caps (r_workers r')"
proof -
  have "r' = r \<or> (\<exists>status. r' = fst (updateWorkerStatus i a status r env))"
    using assms(2) by (auto simp: checkHeartbeat_def split: prod.splits option.splits) (metis fst_conv)
  then show ?thesis using assms(1) update_nodes by auto
qed

lemma alive_nodes:
  assumes "nodes_ok caps (r_workers r)" "n \<in> set (AliveWorkers rng r)"
  shows "n_Capabilities n = caps (n_ID n)"
proof -
  have "n \<in> set (alive_loop ws ks) \<Longrightarrow> \<exists>k. map_of ws k = Some n" for ws ks
    by (induction ks) (auto split: option.splits if_splits)
  then show ?thesis using assms by (auto simp: AliveWorkers_def nodes_ok_def)
qed

lemma api_caps: "api_step s s' \<Longrightarrow> nodes_ok caps (r_workers (cp_registry s)) \<Longrightarrow> nodes_ok caps (r_workers (cp_registry s'))"
proof (induction rule: api_step.induct)
  case (api_check rng s now workerID)
  then show ?case by (auto simp: cp_checkHeartbeat_def split: prod.splits dest: check_nodes)
qed (simp_all add: heartbeat_nodes)

lemma sched_caps:
  assumes "caps_inv caps (ph, s)" "sched_step sortSlice rng now dial rpc (ph, s) = (ph', s')"
  shows "caps_inv caps (ph', s')"
proof (cases ph)
  case SchedIdle
  then show ?thesis using assms by (auto simp: caps_inv_def queue_simps split: if_splits)
next
  case (SchedPopped jobs)
  then show ?thesis using assms alive_nodes by (fastforce simp: caps_inv_def)
next
  case (SchedLoop ws jobs)
  then show ?thesis using assms
    by (cases jobs) (auto simp: caps_inv_def split: sum.splits prod.splits dest!: commit_dispatch_fields)
next
  case (SchedSent ws job p w jobs)
  then show ?thesis using assms by (auto simp: caps_inv_def call_OnDispatched_def)
next
  case (SchedCount ws w jobs)
  then show ?thesis using assms by (auto simp: caps_inv_def count_running_def increment_nodes)
qed

text \<open>Every ID belongs to one configuration for ever: its capabilities are a function of the ID.\<close>

definition worker_types :: "(executor_kind \<Rightarrow> executor) \<Rightarrow> (string \<Rightarrow> string list) \<Rightarrow> 'd WorkerService \<Rightarrow> bool" where
  "worker_types exec caps v \<longleftrightarrow> n_Capabilities (s_node v) = caps (n_ID (s_node v))
     \<and> (\<forall>t. ExecutorRegistry_Get t (s_executionRegistry v)
          = (if t \<in> set (n_Capabilities (s_node v)) then Inr (executor_of exec t) else Inl (UnknownTaskType t)))"

definition types_inv :: "(executor_kind \<Rightarrow> executor) \<Rightarrow> ('h, 'd) cluster \<Rightarrow> bool" where
  "types_inv exec x \<longleftrightarrow> (case x of (ph, s, W, call, R) \<Rightarrow>
     \<exists>caps. caps_inv caps (ph, s) \<and> (\<forall>a. worker_types exec caps (W a)))"

lemma worker_types_same:
  "worker_types exec caps v \<Longrightarrow> s_node v' = s_node v \<Longrightarrow> s_executionRegistry v' = s_executionRegistry v \<Longrightarrow> worker_types exec caps v'"
  by (simp add: worker_types_def)

lemma types_invI: "caps_inv caps (ph, s) \<Longrightarrow> (\<And>a. worker_types exec caps (W a)) \<Longrightarrow> types_inv exec (ph, s, W, call, R)"
  by (auto simp: types_inv_def)

lemma types_step:
  assumes "cluster_step exec x y" "cluster_inv x" "types_inv exec x"
  shows "types_inv exec y"
  using assms
proof (induction rule: cluster_step.induct)
  case (step_api s s' ph W call R)
  then show ?case using api_caps [OF step_api(1)] by (auto simp: types_inv_def caps_inv_def)
next
  case (step_register now W a s r ph call R)
  then obtain caps where c: "caps_inv caps (ph, s)" "worker_types exec caps (W b)" for b by (auto simp: types_inv_def)
  have "n_Capabilities (request_node (registration_request (s_node (W a)))) = caps (n_ID (request_node (registration_request (s_node (W a)))))"
    using c(2) [of a] by (simp add: request_node_def registration_request_def worker_types_def)
  with register_nodes [of caps "cp_registry s", OF _ step_register(1)] c(1) have "caps_inv caps (ph, s\<lparr>cp_registry := r\<rparr>)"
    by (simp add: caps_inv_def)
  then show ?case using c(2) by (rule types_invI)
next
  case (step_deliver sortSlice workers job n dial i s a c W resp v jobs R)
  then obtain caps where c: "caps_inv caps (SchedLoop workers (job # jobs), s)" "worker_types exec caps (W b)" for b
    by (auto simp: types_inv_def)
  have "service_inv (W a, [])" using step_deliver(5) by (simp add: cluster_inv_def worker_inv_def del: service_inv_simp)
  from dispatch_effect [OF step_deliver(4) this] have "s_executionRegistry v = s_executionRegistry (W a)" "s_node v = s_node (W a)"
    by simp_all
  then have "worker_types exec caps v" using worker_types_same [OF c(2) [of a], of v] by simp
  then show ?case using c by (intro types_invI [of caps]) (simp_all add: caps_inv_def)
next
  case (step_scheduler rng dial call rpc sortSlice now ph s ph' s' W R)
  then show ?case using sched_caps [OF _ step_scheduler(4)] by (auto simp: types_inv_def)
next
  case (step_worker act W a v R R' ph s call)
  then obtain caps where c: "caps_inv caps (ph, s)" "worker_types exec caps (W b)" for b by (auto simp: types_inv_def)
  have "service_inv (W a, [])" using step_worker(4) by (simp add: cluster_inv_def worker_inv_def del: service_inv_simp)
  from own_action_effect [OF step_worker(1,2) this] have "s_executionRegistry v = s_executionRegistry (W a)" "s_node v = s_node (W a)"
    by simp_all
  then have "worker_types exec caps v" using worker_types_same [OF c(2) [of a], of v] by simp
  then show ?case using c by (intro types_invI [of caps]) simp_all
next
  case (step_restart n v ph s W call R a)
  then obtain caps where c: "caps_inv caps (ph, s)" "worker_types exec caps (W b)" for b by (auto simp: types_inv_def)
  note new = step_restart(2) [unfolded unused_id_def]
  let ?caps = "caps(n := n_Capabilities (s_node v))"
  have "caps_inv ?caps (ph, s)" using c(1) new by (auto simp: caps_inv_def nodes_ok_def)
  moreover have "worker_types exec ?caps v"
    using started_worker_inv [OF step_restart(1)] by (simp add: worker_types_def)
  moreover have "worker_types exec ?caps (W b)" for b using c(2) [of b] new by (simp add: worker_types_def)
  ultimately show ?case by (intro types_invI [of ?caps]) simp_all
qed (auto simp: types_inv_def caps_inv_def)

lemma cluster_reachable_types: "cluster_reachable exec x \<Longrightarrow> types_inv exec x"
proof (induction rule: cluster_reachable.induct)
  case (cluster_start ids W eventBus)
  let ?caps = "\<lambda>n. n_Capabilities (s_node (W (inv ids n)))"
  have "worker_types exec ?caps (W a)" for a
    using started_worker_inv [OF cluster_start(2)] inv_f_f [OF cluster_start(1)] by (simp add: worker_types_def)
  then show ?case
    by (intro types_invI [of ?caps])
       (simp_all add: caps_inv_def nodes_ok_def control_plane_main_def OnWorkerDead_def NewWorkerRegistry_def)
next
  case (cluster_next x y)
  then show ?case using types_step cluster_reachable_inv by blast
qed

section \<open>What a worker holds\<close>

lemma task_knownD:
  assumes known: "task_known (e_workflows e) reg t" and inv: "engine_inv e"
    and types: "\<And>t. ExecutorRegistry_Get t reg = (if t \<in> caps then Inr (executor_of exec t) else Inl (UnknownTaskType t))"
  shows "(\<exists>wid w tid tk. map_of (e_workflows e) wid = Some w \<and> map_of (w_Tasks w) tid = Some tk
        \<and> t = request_task (j_Request (task_job tk)) (executor_of exec (ts_Type (t_Spec tk))) \<and> ts_Type (t_Spec tk) \<in> caps)
     \<and> (\<forall>rng now r. go_range rng \<longrightarrow>
          fst (OnTaskResponse rng now (ti_WorkflowID (et_task (tt_inner t))) (ti_ID (et_task (tt_inner t))) r e) = None)"
proof -
  from known obtain ex wid w tid tk where tk: "map_of (e_workflows e) wid = Some w" "map_of (w_Tasks w) tid = Some tk"
    "t = request_task (j_Request (task_job tk)) ex" "ExecutorRegistry_Get (dr_Type (j_Request (task_job tk))) reg = Inr ex"
    by (auto simp: task_known_def job_of_def)
  have ex: "ex = executor_of exec (ts_Type (t_Spec tk)) \<and> ts_Type (t_Spec tk) \<in> caps"
    using tk(4) by (simp add: types task_job_def split: if_splits)
  have "t_WorkflowID tk = wid \<and> t_ID tk = tid"
    using engine_invD [OF inv tk(1)] tk(2) by (auto simp: wf_inv_def wf_static_def ids_are_keys_def)
  then have ids: "ti_WorkflowID (et_task (tt_inner t)) = wid" "ti_ID (et_task (tt_inner t)) = tid"
    by (simp_all add: tk(3) request_task_def NewExecutableTask_def task_job_def)
  have "fst (OnTaskResponse rng now wid tid r e) = None" if "go_range rng" for rng now r
    using OnTaskResponse_char [OF that conjunct2 [OF engine_invD [OF inv tk(1)]] tk(1,2) refl, of now r] by auto
  moreover have "map_of (e_workflows e) wid = Some w \<and> map_of (w_Tasks w) tid = Some tk
      \<and> t = request_task (j_Request (task_job tk)) (executor_of exec (ts_Type (t_Spec tk))) \<and> ts_Type (t_Spec tk) \<in> caps"
    using tk(1-3) ex by simp
  ultimately show ?thesis unfolding ids by blast
qed

section \<open>Properties\<close>

text \<open>
  C10. A worker only ever runs what the control plane asked for: in every state that the control
  plane and its workers can reach, each task that waits in a worker's pool or is held by one of
  its goroutines is a task of a workflow of the engine, with that task's payload and timeout and
  the executor of its type, a type among the worker's capabilities; no worker has a task twice;
  and a report for it, whatever it says, finds its workflow and task.
\<close>

theorem workers_run_known_tasks:
  assumes "cluster_reachable exec (ph, s, W, call, R)"
  shows "\<exists>xs M. lq_rep (p_jobsQ (s_workerPool (W a))) xs \<and> pq_rep (p_retryQ (s_workerPool (W a))) M
     \<and> (\<forall>t \<in># waiting xs M (s_workerPool (W a)) + held (s_workerPool (W a)).
          (\<exists>wid w tid tk. map_of (e_workflows (cp_engine s)) wid = Some w \<and> map_of (w_Tasks w) tid = Some tk
             \<and> t = request_task (j_Request (task_job tk)) (executor_of exec (ts_Type (t_Spec tk)))
             \<and> ts_Type (t_Spec tk) \<in> set (n_Capabilities (s_node (W a))))
        \<and> (\<forall>rng now r. go_range rng \<longrightarrow>
             fst (OnTaskResponse rng now (ti_WorkflowID (et_task (tt_inner t))) (ti_ID (et_task (tt_inner t))) r (cp_engine s)) = None))
     \<and> (\<forall>k. count (image_mset tt_key (waiting xs M (s_workerPool (W a)) + held (s_workerPool (W a)))) k \<le> 1)"
proof -
  let ?p = "s_workerPool (W a)" and ?ws = "e_workflows (cp_engine s)"
  have cp: "cp_inv (ph, s)" and W: "worker_inv ?ws (W a)"
    using cluster_reachable_inv [OF assms] by (simp_all add: cluster_inv_def)
  have types: "ExecutorRegistry_Get t (s_executionRegistry (W a))
      = (if t \<in> set (n_Capabilities (s_node (W a))) then Inr (executor_of exec t) else Inl (UnknownTaskType t))" for t
    using cluster_reachable_types [OF assms] by (auto simp: types_inv_def worker_types_def)
  from W obtain xs M where rep: "lq_rep (p_jobsQ ?p) xs" "pq_rep (p_retryQ ?p) M"
    and flight: "in_flight (W a, []) = waiting xs M ?p + held ?p"
    by (auto simp: worker_inv_def elim!: pool_invE)
  have inv: "engine_inv (cp_engine s)" using cp by (simp add: cp_inv_def jobs_cover_def)
  have "task_known ?ws (s_executionRegistry (W a)) t" if "t \<in># in_flight (W a, [])" for t
    using W that by (simp add: worker_inv_def del: service_inv_simp in_flight_simp)
  note known = task_knownD [OF this inv types]
  have once: "count (image_mset tt_key (in_flight (W a, []))) k \<le> 1" for k
    using W trackedD [of "s_unique (W a)" "in_flight (W a, [])" k] by (auto simp: worker_inv_def split: if_splits)
  show ?thesis
    by (rule exI [of _ xs], rule exI [of _ M],
        rule conjI [OF rep(1) conjI [OF rep(2) conjI [OF ballI [OF known [unfolded flight]] allI [OF once [unfolded flight]]]]])
qed

text \<open>
  C19. A worker that a job was scheduled for knows its type: whatever worker the scheduler selects
  from its snapshot, if the process that the call reaches still is that worker (it has the
  selected ID), its answer is acceptance, suspension or a full pool, not an unknown type, however
  registrations, deaths, dispatches and restarts of other workers interleave.
\<close>

theorem scheduled_type_known:
  assumes "cluster_reachable exec (SchedLoop workers (job # jobs), s, W, call, R)" and "go_sort sortSlice"
    and "selectWorker sortSlice workers (dr_Type (j_Request job)) = Inr n" and "n_ID (s_node (W a)) = n"
  shows "fst (DispatchTask (j_Request job) (W a)) \<in> {None, Some WorkerSuspended, Some WorkerPoolFull}"
proof -
  let ?type = "dr_Type (j_Request job)"
  obtain caps where inv: "caps_inv caps (SchedLoop workers (job # jobs), s)" "worker_types exec caps (W a)"
    using cluster_reachable_types [OF assms(1)] by (auto simp: types_inv_def)
  let ?cs = "filter (\<lambda>worker. ?type \<in> set (n_Capabilities worker)) workers"
  have ne: "?cs \<noteq> []" and n: "n = n_ID (hd (sortSlice worker_less ?cs))"
    using assms(3) by (auto simp: selectWorker_def Let_def split: if_splits)
  have same: "set (sortSlice worker_less ?cs) = set ?cs" by (rule go_sort.sort_set [OF assms(2)])
  then have "hd (sortSlice worker_less ?cs) \<in> set ?cs" using ne by (metis hd_in_set set_empty)
  then have "?type \<in> set (caps n)" using inv(1) n by (auto simp: caps_inv_def)
  then have "\<exists>ex. ExecutorRegistry_Get ?type (s_executionRegistry (W a)) = Inr ex"
    using inv(2) assms(4) by (simp add: worker_types_def)
  then show ?thesis
    by (auto simp: DispatchTask_def dispatch_accept_def dispatch_submit_def split: prod.splits bool.splits)
qed

end
