(* ===== verification/Cluster_Outcomes.thy ===== *)
theory Cluster_Outcomes
  imports Cluster
begin

text \<open>
  Where final statuses come from: the engine calls a task SUCCEEDED or FAILED only after a
  worker has executed it and the executor's result said so. Reports may be delayed, lost and
  reordered, tasks may be dispatched again and their workers may die meanwhile.
\<close>

section \<open>Final statuses in the engine\<close>

definition final_tasks :: "'h Engine \<Rightarrow> (string \<times> string \<times> TaskStatus) set" where
  "final_tasks e = {(wid, tid, b). b \<in> {TaskSucceeded, TaskFailed}
     \<and> (\<exists>w. map_of (e_workflows e) wid = Some w \<and> st w tid = Some b)}"

lemma final_tasks_same: "e_workflows e' = e_workflows e \<Longrightarrow> final_tasks e' = final_tasks e"
  by (simp add: final_tasks_def)

lemma final_tasks_put:
  assumes "map_of (e_workflows e) k = Some w" "e_workflows e' = e_workflows e"
    and "\<And>t b. st w' t = Some b \<Longrightarrow> b \<in> {TaskSucceeded, TaskFailed} \<Longrightarrow> st w t = Some b \<or> (k, t, b) \<in> X"
  shows "final_tasks (put_workflow k w' e') \<subseteq> final_tasks e \<union> X"
proof -
  have "map_of (e_workflows (put_workflow k w' e')) j = (if j = k then Some w' else map_of (e_workflows e) j)" for j
    using assms(2) by (simp add: put_workflow_def)
  moreover have "st w t = Some b" if "st w' t = Some b" "b \<in> {TaskSucceeded, TaskFailed}" "(k, t, b) \<notin> X" for t b
    using assms(3) [OF that(1,2)] that(3) by blast
  ultimately show ?thesis using assms(1) by (auto simp: final_tasks_def split: if_splits)
qed

lemma submit_final:
  assumes "go_range rng" "fresh_workflow w" "map_of (e_workflows e) (w_ID w) = None"
  shows "final_tasks (snd (SubmitWorkflow rng now w e)) \<subseteq> final_tasks e"
proof -
  from SubmitWorkflow_char [OF assms(1,2), of now e] obtain w' ids e' where
    s: "SubmitWorkflow rng now w e = (w_ID w, put_workflow (w_ID w) w' e')"
      "st w' = spec_ready (dep_rel (w_Tasks w)) (st w)" "pushes (jobs_of w ids) (put_workflow (w_ID w) w e) e'" by blast
  have "st w' t \<noteq> Some TaskSucceeded \<and> st w' t \<noteq> Some TaskFailed" for t
  proof -
    have "st w t = None \<or> st w t = Some TaskPending" using assms(2) by (auto simp: fresh_workflow_def)
    then show ?thesis by (auto simp: s(2) spec_ready_def)
  qed
  moreover have "map_of (e_workflows (put_workflow (w_ID w) w' e')) j = (if j = w_ID w then Some w' else map_of (e_workflows e) j)" for j
    using pushes_fields [OF s(3)] by (simp add: put_workflow_def)
  ultimately show ?thesis by (auto simp: s(1) final_tasks_def split: if_splits)
qed

lemma cancel_workflow_final:
  assumes inv: "engine_inv e" and rng: "go_range rng"
  shows "final_tasks (snd (CancelWorkflow rng now wid e)) \<subseteq> final_tasks e"
proof (cases "map_of (e_workflows e) wid")
  case None
  then show ?thesis by (simp add: CancelWorkflow_def)
next
  case (Some w)
  from CancelWorkflow_char [OF rng conjunct2 [OF engine_invD [OF inv Some]] Some, of now] obtain w' running e' where
    o: "CancelWorkflow rng now wid e = (None, notifyWorkersOfCancellation running (put_workflow wid w' e'))" "bus_only e e'"
      "st w' = (\<lambda>k. if st w k \<in> Some ` open_statuses then Some TaskCancelled else st w k)" by blast
  have "final_tasks (put_workflow wid w' e') \<subseteq> final_tasks e \<union> {}"
    by (rule final_tasks_put [OF Some]) (use bus_only_fields [OF o(2)] in \<open>auto simp: o(3) split: if_splits\<close>)
  then show ?thesis by (simp add: o(1) final_tasks_def notifyWorkersOfCancellation_def)
qed

lemma cancel_task_final:
  assumes inv: "engine_inv e" and rng: "go_range rng"
  shows "final_tasks (snd (CancelTask rng now tid e)) \<subseteq> final_tasks e"
proof (cases "findTask rng tid e")
  case None
  then show ?thesis by (simp add: CancelTask_def)
next
  case (Some kwt)
  then obtain k w t where f: "findTask rng tid e = Some (k, w, t)" by (cases kwt) auto
  note w = conjunct1 [OF findTask_Some [OF f]]
  show ?thesis
  proof (cases "Task_IsFinished t")
    case True
    then show ?thesis using f by (simp add: CancelTask_def)
  next
    case False
    from CancelTask_char [OF rng conjunct2 [OF engine_invD [OF inv w]] f False refl, of now] obtain w' e' where
      o: "CancelTask rng now tid e = (None, notifyWorkersOfCancellation (running_ref t) (put_workflow k w' e'))" "bus_only e e'"
        "st w' = spec_cancel (dep_rel (w_Tasks w)) tid ((st w)(tid := Some TaskCancelled))" by blast
    have "final_tasks (put_workflow k w' e') \<subseteq> final_tasks e \<union> {}"
      by (rule final_tasks_put [OF w]) (use bus_only_fields [OF o(2)] in \<open>auto simp: o(3) spec_cancel_def split: if_splits\<close>)
    then show ?thesis by (simp add: o(1) final_tasks_def notifyWorkersOfCancellation_def)
  qed
qed

lemma reassign_final:
  assumes inv: "engine_inv e" and rng: "go_range rng"
  shows "final_tasks (ReassignDeadWorkerTasks rng now i e) \<subseteq> final_tasks e"
proof -
  have ws: "\<forall>k w. map_of (e_workflows e) k = Some w \<longrightarrow> w_ID w = k \<and> wf_inv w" using inv by (simp add: engine_inv_def)
  from reassign_workflows_char [OF rng engine_keys_distinct [OF inv rng] ws, of now i]
  have "\<forall>k. map_of (e_workflows (ReassignDeadWorkerTasks rng now i e)) k = (if k \<in> set (rng 0 (keys (e_workflows e)))
      then map_option (\<lambda>w. reclaim (held_by i w) w) (map_of (e_workflows e) k) else map_of (e_workflows e) k)"
    by (auto simp: ReassignDeadWorkerTasks_def)
  then show ?thesis by (auto simp: final_tasks_def split: if_splits)
qed

lemma dispatched_final:
  assumes inv: "engine_inv e"
  shows "final_tasks (OnTaskDispatched now p i e) \<subseteq> final_tasks e"
proof (cases "map_of (e_workflows e) (fst p)")
  case None
  then show ?thesis by (simp add: OnTaskDispatched_def split: prod.splits)
next
  case w: (Some w)
  show ?thesis
  proof (cases "map_of (w_Tasks w) (snd p)")
    case None
    then show ?thesis using w by (simp add: OnTaskDispatched_def split: prod.splits)
  next
    case (Some t)
    from OnTaskDispatched_char [OF conjunct2 [OF engine_invD [OF inv w]] w Some, of now i] obtain w' e' where
      o: "OnTaskDispatched now p i e = put_workflow (fst p) w' e'" "bus_only e e'"
        "w' = with_tasks (\<lambda>k t. if k = snd p then dispatched_to i t else t) w" by blast
    have "final_tasks (put_workflow (fst p) w' e') \<subseteq> final_tasks e \<union> {}"
      by (rule final_tasks_put [OF w])
         (use bus_only_fields [OF o(2)] in \<open>auto simp: o(3) st_def dispatched_to_def split: if_splits\<close>)
    then show ?thesis by (simp add: o(1))
  qed
qed

lemma response_final:
  assumes inv: "engine_inv e" and rng: "go_range rng"
  shows "final_tasks (snd (OnTaskResponse rng now wid tid r e)) \<subseteq> final_tasks e \<union> {(wid, tid, tr_Status r)}"
proof (cases "map_of (e_workflows e) wid")
  case None
  then show ?thesis by (auto simp: OnTaskResponse_def)
next
  case w: (Some w)
  show ?thesis
  proof (cases "map_of (w_Tasks w) tid")
    case None
    then show ?thesis using w by (auto simp: OnTaskResponse_def)
  next
    case (Some t)
    from OnTaskResponse_char [OF rng conjunct2 [OF engine_invD [OF inv w]] w Some refl, of now r] obtain w' ids e' where
      o: "OnTaskResponse rng now wid tid r e = (None, put_workflow wid w' e')"
        "st w' = spec_ready (dep_rel (w_Tasks w)) (spec_report (dep_rel (w_Tasks w)) tid (tr_Status r) (st w))"
        "pushes (jobs_of w ids) e e'" by blast
    have "final_tasks (put_workflow wid w' e') \<subseteq> final_tasks e \<union> {(wid, tid, tr_Status r)}"
      by (rule final_tasks_put [OF w])
         (use pushes_fields [OF o(3)] in \<open>auto simp: o(2) spec_ready_def spec_report_def spec_cancel_def split: if_splits option.splits\<close>)
    then show ?thesis by (simp add: o(1))
  qed
qed

lemma api_final:
  assumes "api_step s s'" "engine_inv (cp_engine s)" "r_onDeadHooks (cp_registry s) = [dead_hook]"
  shows "final_tasks (cp_engine s') \<subseteq> final_tasks (cp_engine s)"
  using assms
proof (induction rule: api_step.induct)
  case (api_submit rng rng' tasks uuid created tenantID name w s now)
  from NewWorkflow_fresh [OF api_submit(2-4)] have "fresh_workflow w" .
  then show ?case using submit_final [OF api_submit(1) _ api_submit(5)] by simp
next
  case (api_check rng s now workerID)
  obtain again r c e where h: "checkHeartbeat now (now, rng) workerID (cp_registry s) (cp_client s, cp_engine s) = (again, r, c, e)"
    by (metis prod_cases4)
  have "dead_hook (now, rng) workerID (cp_client s, cp_engine s)
      = (WorkerClient_CloseConn workerID (cp_client s), ReassignDeadWorkerTasks rng now workerID (cp_engine s))"
    by (simp add: dead_hook_def)
  then have "e = cp_engine s \<or> e = ReassignDeadWorkerTasks rng now workerID (cp_engine s)"
    using check_effect [OF h, unfolded api_check(3)] by auto
  then show ?case using reassign_final [OF api_check(2,1)] by (auto simp: cp_checkHeartbeat_def h)
next
  case (api_bus s b)
  then show ?case by (simp add: final_tasks_def)
qed (simp_all add: cancel_workflow_final cancel_task_final)

lemma sched_final:
  assumes inv: "cp_inv (ph, s)" and step: "sched_step sortSlice rng now dial rpc (ph, s) = (ph', s')"
  shows "final_tasks (cp_engine s') \<subseteq> final_tasks (cp_engine s)"
proof (cases ph)
  case SchedIdle
  then show ?thesis using step by (auto simp: queue_simps final_tasks_def split: if_splits)
next
  case (SchedPopped jobs)
  then show ?thesis using step by auto
next
  case (SchedLoop ws jobs)
  then show ?thesis using step
    by (cases jobs) (auto simp: final_tasks_def split: sum.splits prod.splits dest!: commit_dispatch_fields)
next
  case (SchedSent ws job p w jobs)
  have "engine_inv (cp_engine s)" using inv by (simp add: cp_inv_def jobs_cover_def)
  from dispatched_final [OF this, of now p w] show ?thesis using step SchedSent by (auto simp: call_OnDispatched_def)
next
  case (SchedCount ws w jobs)
  then show ?thesis using step by (auto simp: count_running_def)
qed

section \<open>Reports\<close>

text \<open>An attempt makes a RUNNING report and, without a Go error, the report of its result.\<close>

definition outcome_status :: "TaskResult \<Rightarrow> TaskStatus" where
  "outcome_status r = (if tr_ExitCode r \<noteq> 0 \<or> tr_Error r \<noteq> '''' then TaskFailed else TaskSucceeded)"

lemma attempt_reports:
  "attempt run t = (case run (ti_Spec (et_task t)) (int64 (ti_TimeoutInSeconds (et_task t) * Second)) of
      (result, Some err) \<Rightarrow> (Some (''execute task '' @ ti_ID (et_task t) @ '': '' @ err), [status_request (et_task t) TASK_REPORT_RUNNING None])
    | (result, None) \<Rightarrow> (None, [status_request (et_task t) TASK_REPORT_RUNNING None,
        status_request (et_task t) (if outcome_status result = TaskFailed then TASK_REPORT_FAILED else TASK_REPORT_SUCCEEDED) (Some result)]))"
  by (auto simp: attempt_def ExecutableTask_Do_def sendStatus_def ClusterClient_ReportResult_def ClusterClient_getOrDial_def
      NewClusterClient_def outcome_status_def Let_def split: prod.splits option.splits)

lemma request_fields:
  "res_WorkflowId (status_request i b r) = ti_WorkflowID i" "res_TaskId (status_request i b r) = ti_ID i"
  "tr_Status (request_result (status_request i b r)) = FromProtoTaskStatus b"
  by (simp_all add: status_request_def request_result_def Let_def split: option.split)

text \<open>The history shows an attempt of the task with this outcome.\<close>

definition attempted :: "reports \<Rightarrow> string \<times> string \<times> TaskStatus \<Rightarrow> bool" where
  "attempted R x \<longleftrightarrow> (case x of (wid, tid, b) \<Rightarrow>
     \<exists>i r. (i, (r, None)) \<in> set (rp_log R) \<and> ti_WorkflowID i = wid \<and> ti_ID i = tid \<and> outcome_status r = b)"

lemma attempted_wire [simp]: "attempted (R\<lparr>rp_wire := reqs\<rparr>) = attempted R"
  by (simp add: attempted_def fun_eq_iff)

definition report_of :: "ResultRequest \<Rightarrow> string \<times> string \<times> TaskStatus" where
  "report_of req = (res_WorkflowId req, res_TaskId req, tr_Status (request_result req))"

text \<open>The task information of an attempt is that of a task of the engine.\<close>

definition info_known :: "Workflow gomap \<Rightarrow> TaskInfo \<Rightarrow> bool" where
  "info_known ws i \<longleftrightarrow> (\<exists>job ex. job_of ws job \<and> i = et_task (tt_inner (request_task (j_Request job) ex)))"

definition outcomes_inv :: "('h, 'd) cluster \<Rightarrow> bool" where
  "outcomes_inv x \<longleftrightarrow> (case x of (ph, s, W, call, R) \<Rightarrow>
     (\<forall>req \<in> set (rp_wire R). tr_Status (request_result req) \<in> {TaskSucceeded, TaskFailed} \<longrightarrow> attempted R (report_of req))
   \<and> (\<forall>x \<in> final_tasks (cp_engine s). attempted R x)
   \<and> (\<forall>(i, r) \<in> set (rp_log R). info_known (e_workflows (cp_engine s)) i))"

lemma attempted_mono: "attempted R x \<Longrightarrow> set (rp_log R) \<subseteq> set (rp_log R') \<Longrightarrow> attempted R' x"
  unfolding attempted_def by (auto split: prod.splits)

lemma executing_known:
  assumes W: "worker_inv ws v" and x: "executing v i t"
  shows "info_known ws (et_task t)"
proof -
  from x obtain job where i: "i < length (p_workers (s_workerPool v))" "p_workers (s_workerPool v) ! i = WRunning job"
    and t: "t = tt_inner (wj_task job)" by (auto simp: executing_def)
  have "wj_task job \<in># worker_tasks (p_workers (s_workerPool v) ! i)" by (simp add: i(2))
  then have "wj_task job \<in># sum_list (map worker_tasks (p_workers (s_workerPool v)))"
    using nth_mem [OF i(1)] by auto
  then have "wj_task job \<in># held (s_workerPool v)" by (simp add: held_def)
  moreover obtain xs M where "in_flight (v, []) = waiting xs M (s_workerPool v) + held (s_workerPool v)"
    using W by (auto simp: worker_inv_def elim!: pool_invE)
  ultimately have "task_known ws (s_executionRegistry v) (wj_task job)"
    using W by (auto simp: worker_inv_def simp del: in_flight_simp service_inv_simp)
  then obtain job' ex where "job_of ws job'" "wj_task job = request_task (j_Request job') ex"
    unfolding task_known_def by blast
  then show ?thesis unfolding info_known_def t by (intro exI [of _ job'] exI [of _ ex]) simp
qed

lemma report_outcome:
  assumes "req \<in> set (snd (attempt run t))" and "tr_Status (request_result req) \<in> {TaskSucceeded, TaskFailed}"
  shows "\<exists>r. run (ti_Spec (et_task t)) (int64 (ti_TimeoutInSeconds (et_task t) * Second)) = (r, None)
     \<and> report_of req = (ti_WorkflowID (et_task t), ti_ID (et_task t), outcome_status r)"
proof -
  obtain r err where run: "run (ti_Spec (et_task t)) (int64 (ti_TimeoutInSeconds (et_task t) * Second)) = (r, err)" by force
  have no: "req \<noteq> status_request (et_task t) TASK_REPORT_RUNNING None" using assms(2) by (auto simp: request_fields)
  then have "err = None" using assms(1) by (cases err) (simp_all add: attempt_reports run)
  then have "req = status_request (et_task t) (if outcome_status r = TaskFailed then TASK_REPORT_FAILED else TASK_REPORT_SUCCEEDED) (Some r)"
    using assms(1) no by (simp add: attempt_reports run)
  then show ?thesis using run \<open>err = None\<close> by (simp add: report_of_def request_fields outcome_status_def)
qed

lemma running_report:
  "req \<in> set (take 1 (snd (attempt run t))) \<Longrightarrow> tr_Status (request_result req) = TaskRunning"
  by (auto simp: attempt_reports request_fields split: prod.splits option.splits)

lemma info_known_mono: "info_known ws i \<Longrightarrow> (\<And>j. job_of ws j \<Longrightarrow> job_of ws' j) \<Longrightarrow> info_known ws' i"
  unfolding info_known_def by blast

lemma outcomes_frame:
  assumes "outcomes_inv (ph, s, W, call, R)" and "final_tasks (cp_engine s') \<subseteq> final_tasks (cp_engine s)"
    and "\<And>j. job_of (e_workflows (cp_engine s)) j \<Longrightarrow> job_of (e_workflows (cp_engine s')) j"
    and "rp_wire R' = rp_wire R" "rp_log R' = rp_log R"
  shows "outcomes_inv (ph', s', W', call', R')"
proof -
  have "attempted R' x = attempted R x" for x using assms(5) by (simp add: attempted_def)
  then show ?thesis using assms(1,2,4,5) info_known_mono [OF _ assms(3)] by (auto simp: outcomes_inv_def)
qed

lemma outcomes_step:
  assumes "cluster_step exec x y" "cluster_inv x" "outcomes_inv x"
  shows "outcomes_inv y"
  using assms
proof (induction rule: cluster_step.induct)
  case (step_api s s' ph W call R)
  have cp: "cp_inv (ph, s)" using step_api(2) by (simp add: cluster_inv_def)
  then have "engine_inv (cp_engine s)" "r_onDeadHooks (cp_registry s) = [dead_hook]" by (simp_all add: cp_inv_def jobs_cover_def)
  note final = api_final [OF step_api(1) this]
  show ?case by (rule outcomes_frame [OF step_api(3) final cp_step_job_of [OF cp_api [OF step_api(1)] cp]]) simp_all
next
  case (step_register now W a s r ph call R)
  show ?case by (rule outcomes_frame [OF step_register(3)]) simp_all
next
  case (step_deliver sortSlice workers job n dial i s a c W resp v jobs R)
  show ?case by (rule outcomes_frame [OF step_deliver(6)]) simp_all
next
  case (step_scheduler rng dial call rpc sortSlice now ph s ph' s' W R)
  have cp: "cp_inv (ph, s)" using step_scheduler(5) by (simp add: cluster_inv_def)
  show ?case
    by (rule outcomes_frame [OF step_scheduler(6) sched_final [OF cp step_scheduler(4)] sched_step_job_of [OF cp step_scheduler(4)]]) simp_all
next
  case (step_restart n v ph s W call R a)
  show ?case by (rule outcomes_frame [OF step_restart(4)]) simp_all
next
  case (step_worker act W a v R R' ph s call)
  have "rp_wire R' = rp_wire R \<and> rp_log R' = rp_log R"
    using step_worker(3) by (auto simp: returns_def split: option.splits if_splits)
  then show ?case by (intro outcomes_frame [OF step_worker(5)]) simp_all
next
  case (step_started W a i t ph s call R run)
  then show ?case using running_report [of _ run t]
    by (auto simp: outcomes_inv_def)
next
  case (step_ended W a i t R run err sent ph s call)
  let ?x = "(et_task t, run (ti_Spec (et_task t)) (int64 (ti_TimeoutInSeconds (et_task t) * Second)))"
  let ?R = "\<lparr>rp_wire = rp_wire R @ drop 1 sent, rp_ended = (rp_ended R)((a, i) := Some (err \<noteq> None)), rp_log = ?x # rp_log R\<rparr>"
  have old: "attempted ?R x" if "attempted R x" for x using attempted_mono [OF that, of ?R] by auto
  have new: "attempted ?R (report_of req)"
    if "req \<in> set (drop 1 sent)" "tr_Status (request_result req) \<in> {TaskSucceeded, TaskFailed}" for req
  proof -
    have "req \<in> set (snd (attempt run t))" using that(1) step_ended(3) by (auto dest: in_set_dropD)
    from report_outcome [OF this that(2)] obtain r where
      "run (ti_Spec (et_task t)) (int64 (ti_TimeoutInSeconds (et_task t) * Second)) = (r, None)"
      "report_of req = (ti_WorkflowID (et_task t), ti_ID (et_task t), outcome_status r)" by blast
    then show ?thesis by (auto simp: attempted_def)
  qed
  have "info_known (e_workflows (cp_engine s)) (et_task t)"
    using executing_known [OF _ step_ended(1)] step_ended(4) by (simp add: cluster_inv_def)
  moreover have "\<forall>(i, r) \<in> set (rp_log R). info_known (e_workflows (cp_engine s)) i"
    using step_ended(5) by (simp add: outcomes_inv_def)
  moreover have "attempted ?R (report_of req)"
    if "req \<in> set (rp_wire R) \<union> set (drop 1 sent)" "tr_Status (request_result req) \<in> {TaskSucceeded, TaskFailed}" for req
    using that new [of req] old [of "report_of req"] step_ended(5) by (auto simp: outcomes_inv_def)
  moreover have "\<forall>x \<in> final_tasks (cp_engine s). attempted ?R x"
    using step_ended(5) old by (simp add: outcomes_inv_def)
  ultimately show ?case unfolding outcomes_inv_def by simp
next
  case (step_report rng req R ph s W call now)
  let ?s = "s\<lparr>cp_engine := snd (Server_ReportResult rng now req (cp_engine s))\<rparr>"
  have cp: "cp_inv (ph, s)" using step_report(3) by (simp add: cluster_inv_def)
  then have inv: "engine_inv (cp_engine s)" by (simp add: cp_inv_def jobs_cover_def)
  have "cp_step (ph, s) (ph, ?s)" unfolding report_engine by (rule cp_report [OF step_report(1)])
  note jobs = cp_step_job_of [OF this cp]
  have final: "final_tasks (cp_engine ?s) \<subseteq> final_tasks (cp_engine s) \<union> {report_of req}"
    using response_final [OF inv step_report(1)] by (simp add: report_engine report_of_def)
  have wire: "set (remove1 req (rp_wire R)) \<subseteq> set (rp_wire R)" by (rule set_remove1_subset)
  have "attempted R x" if "x \<in> final_tasks (cp_engine ?s)" for x
  proof (cases "x \<in> final_tasks (cp_engine s)")
    case True
    then show ?thesis using step_report(4) by (auto simp: outcomes_inv_def)
  next
    case False
    then have "x = report_of req" using final that by blast
    moreover have "tr_Status (request_result req) \<in> {TaskSucceeded, TaskFailed}"
      using that calculation by (auto simp: final_tasks_def report_of_def)
    ultimately show ?thesis using step_report(2,4) by (auto simp: outcomes_inv_def)
  qed
  then show ?case using step_report(4) wire info_known_mono [OF _ jobs]
    by (auto simp: outcomes_inv_def)
qed

lemma cluster_reachable_outcomes: "cluster_reachable exec x \<Longrightarrow> outcomes_inv x"
proof (induction rule: cluster_reachable.induct)
  case (cluster_start ids W eventBus)
  show ?case by (simp add: outcomes_inv_def no_reports_def final_tasks_def control_plane_main_def NewWorkflowEngine_def)
next
  case (cluster_next x y)
  then show ?case using outcomes_step cluster_reachable_inv by blast
qed

section \<open>Properties\<close>

text \<open>
  C5. No task is called SUCCEEDED or FAILED without having been executed: in every state the
  cluster can reach, whatever replies and reports got lost, late or out of order and whatever
  workers died, a task that the engine holds as SUCCEEDED or FAILED was executed by a worker, with
  the task's own payload and timeout, to an end without Go error, and the status is SUCCEEDED
  exactly when the result of that execution has exit code 0 and no error text.
\<close>

theorem finals_were_executed:
  assumes "cluster_reachable exec (ph, s, W, call, R)"
    and "map_of (e_workflows (cp_engine s)) wid = Some w" and "map_of (w_Tasks w) tid = Some tk"
    and "t_status tk \<in> {TaskSucceeded, TaskFailed}"
  shows "\<exists>i r. (i, (r, None)) \<in> set (rp_log R) \<and> ti_WorkflowID i = wid \<and> ti_ID i = tid
     \<and> ts_Payload (ti_Spec i) = ts_Payload (t_Spec tk) \<and> ti_TimeoutInSeconds i = dr_TimeoutSeconds (j_Request (task_job tk))
     \<and> (t_status tk = TaskSucceeded \<longleftrightarrow> tr_ExitCode r = 0 \<and> tr_Error r = '''')"
proof -
  note inv = cluster_reachable_outcomes [OF assms(1)]
  have engine: "engine_inv (cp_engine s)"
    using cluster_reachable_inv [OF assms(1)] by (simp add: cluster_inv_def cp_inv_def jobs_cover_def)
  have ids: "t_WorkflowID t = k \<and> t_ID t = j" if "map_of (e_workflows (cp_engine s)) k = Some v" "map_of (w_Tasks v) j = Some t" for k v j t
    using engine_invD [OF engine that(1)] that(2) by (auto simp: wf_inv_def wf_static_def ids_are_keys_def)
  have "(wid, tid, t_status tk) \<in> final_tasks (cp_engine s)"
    using assms(2-4) by (auto simp: final_tasks_def st_def)
  then obtain i r where x: "(i, (r, None)) \<in> set (rp_log R)" "ti_WorkflowID i = wid" "ti_ID i = tid" "outcome_status r = t_status tk"
    using inv by (fastforce simp: outcomes_inv_def attempted_def)
  then have "info_known (e_workflows (cp_engine s)) i" using inv by (auto simp: outcomes_inv_def)
  then obtain k v j t ex where t: "map_of (e_workflows (cp_engine s)) k = Some v" "map_of (w_Tasks v) j = Some t"
    "i = et_task (tt_inner (request_task (j_Request (task_job t)) ex))" by (auto simp: info_known_def job_of_def)
  note fields = t(3) [unfolded request_task_def NewExecutableTask_def]
  have "k = wid \<and> j = tid" using x(2,3) ids [OF t(1,2)] by (simp add: fields task_job_def)
  then have "t = tk" using t(1,2) assms(2,3) by simp
  then have "ts_Payload (ti_Spec i) = ts_Payload (t_Spec tk) \<and> ti_TimeoutInSeconds i = dr_TimeoutSeconds (j_Request (task_job tk))"
    by (simp add: fields task_job_def)
  moreover have "t_status tk = TaskSucceeded \<longleftrightarrow> tr_ExitCode r = 0 \<and> tr_Error r = ''''"
    using x(4) by (auto simp: outcome_status_def split: if_splits)
  ultimately show ?thesis using x(1-3) by blast
qed

end
