(* ===== verification/Cluster_Scenarios.thy ===== *)
theory Cluster_Scenarios
  imports Cluster_Outcomes
begin

text \<open>
  Concrete runs of the cluster, on a submitted workflow of one task and workers with the
  capability of its type: a dispatch whose reply is lost, one that the worker refuses, one that
  reaches another process than the chosen worker, and one whose task is executed and succeeds.
\<close>

section \<open>Scenarios\<close>

definition shell_config :: "string \<Rightarrow> WorkerConfig" where
  "shell_config addr = \<lparr>wc_GRPC_Port = '':8081'', wc_ID = '''', wc_Address = addr, wc_Capacity = 4, wc_Pool = 1,
     wc_Labels = [], wc_Capabilities = [''shell''], wc_ControlPlane_Address = ''cp:1''\<rparr>"

definition main_at :: "(executor_kind \<Rightarrow> executor) \<Rightarrow> WorkerConfig \<Rightarrow> string \<Rightarrow> main_error + string WorkerService" where
  "main_at exec cfg n = worker_main [] (\<lambda>path. Inr ()) (\<lambda>bytes. Inr cfg) n exec (\<lambda>addr. Inr addr)
     (\<lambda>conn req. Inr \<lparr>rres_Accepted = True, rres_Reason = ''''\<rparr>) (\<lambda>port. None)"

definition fleet_id :: "string \<Rightarrow> string" where
  "fleet_id addr = (if addr = ''host:1'' then ''w'' else if addr = ''host:2'' then ''v'' else ''x'' @ addr)"

definition fleet :: "(executor_kind \<Rightarrow> executor) \<Rightarrow> string \<Rightarrow> string WorkerService" where
  "fleet exec addr = projr (main_at exec (shell_config addr) (fleet_id addr))"

lemmas main_defs = main_at_def worker_main_def worker_config_Load_def load_config_def
  RegisterExecutors_def isExecutorExists_def ExecutorRegistry_Register_def New_ExecutorRegistry_def registry_of_def
  config_node_def NewWorkerService_def NewClusterClient_def WorkerService_Start_def WorkerService_register_def
  ClusterClient_Register_def ClusterClient_getOrDial_def NewWorkerPool_def WithWorkerCount_def WithCapacity_def
  zero_pool_def WorkerPool_Start_def newUnique_def registration_request_def int32_def Let_def

lemma fleet_state:
  "main_at exec (shell_config a) (fleet_id a) = Inr (fleet exec a)"
  "s_suspended (fleet exec a) = False" "s_unique (fleet exec a) = Some []"
  "s_executionRegistry (fleet exec a) = \<lparr>er_executors = [(''shell'', exec ShellExecutor)]\<rparr>"
  "registration_request (s_node (fleet exec a)) = orphan_request\<lparr>rr_WorkerId := fleet_id a, rr_Address := a\<rparr>"
  "n_ID (s_node (fleet exec a)) = fleet_id a"
  "p_jobClosed (s_workerPool (fleet exec a)) = False" "p_jobChan (s_workerPool (fleet exec a)) = []"
  "p_capacity (s_workerPool (fleet exec a)) = 128" "p_workers (s_workerPool (fleet exec a)) = [WIdle]"
  "p_panicked (s_workerPool (fleet exec a)) = False"
  "p_submitted (s_workerPool (fleet exec a)) = {#}" "p_completed (s_workerPool (fleet exec a)) = {#}"
  by (simp_all add: fleet_def main_defs shell_config_def orphan_request_def)

lemma fleet_dispatch:
  assumes "dr_Type req = ''shell''"
  shows "\<exists>v. GRPCServer_Dispatch req (fleet exec a) = (\<lparr>dres_Accepted = True, dres_Reason = ''''\<rparr>, v)
     \<and> in_flight (v, []) = {#request_task req (exec ShellExecutor)#} \<and> n_ID (s_node v) = fleet_id a"
  using assms
  by (simp add: GRPCServer_Dispatch_def DispatchTask_def dispatch_accept_def fleet_state unique_Add_def ExecutorRegistry_Get_def
      dispatch_submit_def WorkerPool_TrySubmit_def chan_send_def request_task_def)

lemma fleet_started: "started_worker exec (fleet_id a) (fleet exec a)"
  using fleet_state(1) [of exec a] unfolding started_worker_def main_at_def by blast

lemma fleet_id_inj: "inj fleet_id"
  by (auto simp: inj_def fleet_id_def split: if_splits)

definition lost_rpc :: "string dispatcher" where
  "lost_rpc n conn req = Inl ''deadline exceeded''"

definition refused_rpc :: "string dispatcher" where
  "refused_rpc n conn req = Inr \<lparr>dres_Accepted = False, dres_Reason = ''''\<rparr>"

definition tick_with :: "string dispatcher \<Rightarrow> sched_phase \<times> (clock_and_order, unit, string) ControlPlane \<Rightarrow>
    sched_phase \<times> (clock_and_order, unit, string) ControlPlane" where
  "tick_with rpc = sched_step insertion_sort offset_order (8 * Second) ok_dial rpc"

lemma ok_dial_goes: "goes_to ok_dial"
  by (simp add: goes_to_def ok_dial_def)

lemma ticks_reachable:
  "cluster_reachable exec (ph, s, W, None, R) \<Longrightarrow> (tick_with lost_rpc ^^ n) (ph, s) = (ph', s') \<Longrightarrow> cluster_reachable exec (ph', s', W, None, R)"
proof (induction n arbitrary: ph' s')
  case (Suc n)
  obtain ph1 s1 where m: "(tick_with lost_rpc ^^ n) (ph, s) = (ph1, s1)" by force
  then have "sched_step insertion_sort offset_order (8 * Second) ok_dial lost_rpc (ph1, s1) = (ph', s')"
    using Suc.prems(2) by (simp add: tick_with_def)
  from step_scheduler [OF offset.go_range_axioms ok_dial_goes _ this] show ?case
    by (rule cluster_next [OF Suc.IH [OF Suc.prems(1) m]]) (simp add: answered_def lost_rpc_def)
qed simp

lemma answer_reachable:
  assumes "cluster_reachable exec (ph, s, W, call, R)" "answered call rpc" "tick_with rpc (ph, s) = (ph', s')"
  shows "cluster_reachable exec (ph', s', W, None, R)"
  using assms step_scheduler [OF offset.go_range_axioms ok_dial_goes assms(2)] cluster_next unfolding tick_with_def by blast

text \<open>The connection that a call to the worker \<open>n\<close> goes over, dialed if there is none.\<close>

definition connection :: "string \<Rightarrow> (clock_and_order, unit, string) ControlPlane \<Rightarrow> (client_error + string) \<times> string WorkerClient" where
  "connection n s = WorkerClient_getOrDial (ok_dial 0) (\<lambda>w. AddressOf w (cp_registry s)) n (cp_client s)"

lemma tick_after_delivery:
  assumes "selectWorker insertion_sort workers (dr_Type (j_Request job)) = Inr n" and "fst (connection n s) = Inr a"
  shows "tick_with rpc (SchedLoop workers (job # jobs), s\<lparr>cp_client := snd (connection n s)\<rparr>)
    = tick_with rpc (SchedLoop workers (job # jobs), s)"
proof -
  obtain c where c: "WorkerClient_getOrDial (ok_dial 0) (\<lambda>w. AddressOf w (cp_registry s)) n (cp_client s) = (Inr a, c)"
    "connection n s = (Inr a, c)"
    using assms(2) by (cases "connection n s") (auto simp: connection_def)
  have "ok_dial i = ok_dial 0" for i by (simp add: ok_dial_def fun_eq_iff)
  then have first: "WorkerClient_getOrDial (ok_dial i) (\<lambda>w. AddressOf w (cp_registry s)) n (cp_client s) = (Inr a, c)" for i
    using c(1) by metis
  have again: "WorkerClient_getOrDial dial f n c = (Inr a, c)" for dial f using getOrDial_again [OF c(1)] .
  show ?thesis
    by (simp add: tick_with_def assms(1) commit_dispatch_def WorkerClient_Dispatch_def c(2) first again split: sum.split option.split)
qed

lemma delivery_reachable:
  assumes "cluster_reachable exec (SchedLoop workers (job # jobs), s, W, None, R)"
    and "selectWorker insertion_sort workers (dr_Type (j_Request job)) = Inr n" and "fst (connection n s) = Inr a"
    and "GRPCServer_Dispatch (j_Request job) (W a) = (resp, v)"
  shows "cluster_reachable exec (SchedLoop workers (job # jobs), s\<lparr>cp_client := snd (connection n s)\<rparr>, W(a := v), Some resp, R)"
    and "answered (Some resp) rpc \<Longrightarrow> tick_with rpc (SchedLoop workers (job # jobs), s) = (ph', s') \<Longrightarrow>
      cluster_reachable exec (ph', s', W(a := v), None, R)"
proof -
  have "WorkerClient_getOrDial (ok_dial 0) (\<lambda>w. AddressOf w (cp_registry s)) n (cp_client s) = (Inr a, snd (connection n s))"
    using assms(3) by (simp add: connection_def prod_eq_iff)
  from cluster_next [OF assms(1) step_deliver [where dial = ok_dial and W = W and a = a, OF assms(2) ok_dial_goes this assms(4)]]
  show r: "cluster_reachable exec (SchedLoop workers (job # jobs), s\<lparr>cp_client := snd (connection n s)\<rparr>, W(a := v), Some resp, R)" .
  show "cluster_reachable exec (ph', s', W(a := v), None, R)"
    if "answered (Some resp) rpc" "tick_with rpc (SchedLoop workers (job # jobs), s) = (ph', s')"
    using answer_reachable [OF r that(1)] that(2) tick_after_delivery [OF assms(2,3)] by metis
qed

text \<open>The reply to a dispatch is lost while two workers are alive; the job is queued again.\<close>

definition two_workers_cp :: "(clock_and_order, unit, string) ControlPlane" where
  "two_workers_cp = registered_cp\<lparr>cp_registry :=
     the (Registry_Register 7 (request_node (orphan_request\<lparr>rr_WorkerId := ''v'', rr_Address := ''host:2''\<rparr>)) (cp_registry registered_cp))\<rparr>"

definition first_call :: "sched_phase \<times> (clock_and_order, unit, string) ControlPlane" where
  "first_call = (tick_with lost_rpc ^^ 2) (SchedIdle, two_workers_cp)"

definition busy_heartbeat :: "string \<Rightarrow> (clock_and_order, unit, string) ControlPlane \<Rightarrow> (clock_and_order, unit, string) ControlPlane" where
  "busy_heartbeat a s = s\<lparr>cp_registry := snd (Registry_Heartbeat (8 * Second) a 1 (cp_registry s))\<rparr>"

definition second_call :: "sched_phase \<times> (clock_and_order, unit, string) ControlPlane" where
  "second_call = (case (tick_with lost_rpc ^^ 2) first_call of (ph, s) \<Rightarrow> (tick_with lost_rpc ^^ 2) (ph, busy_heartbeat ''w'' s))"

fun call_view :: "string \<Rightarrow> sched_phase \<times> (clock_and_order, unit, string) ControlPlane \<Rightarrow>
    ((string \<times> string) list \<times> (sched_error + string) \<times> (client_error + string) \<times> WorkerStatus option \<times> WorkerStatus option) option" where
  "call_view n (SchedLoop workers jobs, s) =
     Some (map (\<lambda>j. (dr_TaskId (j_Request j), dr_Type (j_Request j))) jobs, selectWorker insertion_sort workers ''shell'',
       fst (connection n s),
       wstatus (cp_registry s) ''w'', wstatus (cp_registry s) ''v'')"
| "call_view n (ph, s) = None"

lemma first_view_call: "call_view ''w'' first_call = Some ([(''u'', ''shell'')], Inr ''w'', Inr ''host:1'', Some WorkerAlive, Some WorkerAlive)"
  by code_simp

lemma second_view_call: "call_view ''v'' second_call = Some ([(''u'', ''shell'')], Inr ''v'', Inr ''host:2'', Some WorkerAlive, Some WorkerAlive)"
  by code_simp

lemma register_reachable:
  assumes "cluster_reachable exec (ph, s, fleet exec, call, R)"
    and "Registry_Register 7 (request_node (orphan_request\<lparr>rr_WorkerId := fleet_id a, rr_Address := a\<rparr>)) (cp_registry s) = Some r"
  shows "cluster_reachable exec (ph, s\<lparr>cp_registry := r\<rparr>, fleet exec, call, R)"
  by (rule cluster_next [OF assms(1)], rule step_register [of 7 _ a]) (simp only: fleet_state(5) assms(2))

lemma two_workers_reachable:
  "cluster_reachable exec (SchedIdle, registered_cp, fleet exec, None, no_reports)"
  "cluster_reachable exec (SchedIdle, two_workers_cp, fleet exec, None, no_reports)"
proof -
  have "cluster_reachable exec (SchedIdle, control_plane_main example_bus, fleet exec, None, no_reports)"
    by (rule cluster_start [OF fleet_id_inj]) (rule fleet_started)
  then have s: "cluster_reachable exec (SchedIdle, submitted_cp, fleet exec, None, no_reports)"
    by (rule cluster_next) (rule step_api [OF submitted_step])
  have "orphan_request\<lparr>rr_WorkerId := fleet_id ''host:1'', rr_Address := ''host:1''\<rparr> = orphan_request"
    by (simp add: orphan_request_def fleet_id_def)
  note register_reachable [OF s, of "''host:1''", unfolded this, OF registered_step]
  then show r: "cluster_reachable exec (SchedIdle, registered_cp, fleet exec, None, no_reports)" unfolding registered_cp_def .
  let ?r = "Registry_Register 7 (request_node (orphan_request\<lparr>rr_WorkerId := ''v'', rr_Address := ''host:2''\<rparr>)) (cp_registry registered_cp)"
  have "\<not> Option.is_none ?r"
    by code_simp
  then have "?r = Some (the ?r)" by (auto simp: Option.is_none_def)
  moreover have "fleet_id ''host:2'' = ''v''" by (simp add: fleet_id_def)
  ultimately have "Registry_Register 7 (request_node (orphan_request\<lparr>rr_WorkerId := fleet_id ''host:2'', rr_Address := ''host:2''\<rparr>)) (cp_registry registered_cp)
      = Some (the ?r)" by simp
  from register_reachable [OF r this] show "cluster_reachable exec (SchedIdle, two_workers_cp, fleet exec, None, no_reports)"
    unfolding two_workers_cp_def .
qed

lemma call_view_phase:
  assumes "call_view n x = Some ([(i, ''shell'')], Inr n, Inr a, vw, vv)"
  obtains workers job s where "x = (SchedLoop workers [job], s)" "selectWorker insertion_sort workers (dr_Type (j_Request job)) = Inr n"
    "dr_Type (j_Request job) = ''shell''" "dr_TaskId (j_Request job) = i" "fst (connection n s) = Inr a"
    "wstatus (cp_registry s) ''w'' = vw" "wstatus (cp_registry s) ''v'' = vv"
  using assms by (cases "(n, x)" rule: call_view.cases) auto

lemma first_delivery:
  obtains workers job s v where
    "first_call = (SchedLoop workers [job], s)"
    "selectWorker insertion_sort workers (dr_Type (j_Request job)) = Inr ''w''" "dr_TaskId (j_Request job) = ''u''"
    "fst (connection ''w'' s) = Inr ''host:1''"
    "cluster_reachable exec (SchedLoop workers [job], s, fleet exec, None, no_reports)"
    "GRPCServer_Dispatch (j_Request job) (fleet exec ''host:1'') = (\<lparr>dres_Accepted = True, dres_Reason = ''''\<rparr>, v)"
    "in_flight (v, []) = {#request_task (j_Request job) (exec ShellExecutor)#}" "n_ID (s_node v) = ''w''"
proof -
  obtain ws job s where c: "first_call = (SchedLoop ws [job], s)"
    "selectWorker insertion_sort ws (dr_Type (j_Request job)) = Inr ''w''" "dr_Type (j_Request job) = ''shell''"
    "dr_TaskId (j_Request job) = ''u''" "fst (connection ''w'' s) = Inr ''host:1''" using first_view_call by (rule call_view_phase)
  obtain v where v: "GRPCServer_Dispatch (j_Request job) (fleet exec ''host:1'') = (\<lparr>dres_Accepted = True, dres_Reason = ''''\<rparr>, v)"
    "in_flight (v, []) = {#request_task (j_Request job) (exec ShellExecutor)#}" "n_ID (s_node v) = fleet_id ''host:1''"
    using fleet_dispatch [OF c(3)] by blast
  have id: "n_ID (s_node v) = ''w''" using v(3) by (simp add: fleet_id_def)
  have r: "cluster_reachable exec (SchedLoop ws [job], s, fleet exec, None, no_reports)"
    by (rule ticks_reachable [OF two_workers_reachable(2)]) (rule c(1) [unfolded first_call_def])
  from that [OF c(1,2,4,5) r v(1,2) id] show ?thesis .
qed

definition demo_exec :: "executor_kind \<Rightarrow> executor" where
  "demo_exec k = et_exec demo_task"

theorem workers_run_known_tasks_witness:
  "\<exists>s v xs M. in_flight (v :: string WorkerService, []) \<noteq> {#} \<and> lq_rep (p_jobsQ (s_workerPool v)) xs \<and> pq_rep (p_retryQ (s_workerPool v)) M
     \<and> (\<forall>t \<in># waiting xs M (s_workerPool v) + held (s_workerPool v).
          \<exists>wid w tid tk. map_of (e_workflows (cp_engine (s :: (clock_and_order, unit, string) ControlPlane))) wid = Some w
            \<and> map_of (w_Tasks w) tid = Some tk \<and> t = request_task (j_Request (task_job tk)) (executor_of demo_exec (ts_Type (t_Spec tk))))"
proof -
  obtain workers job s v where d: "first_call = (SchedLoop workers [job], s)"
    "selectWorker insertion_sort workers (dr_Type (j_Request job)) = Inr ''w''" "fst (connection ''w'' s) = Inr ''host:1''"
    "cluster_reachable demo_exec (SchedLoop workers [job], s, fleet demo_exec, None, no_reports)"
    "GRPCServer_Dispatch (j_Request job) (fleet demo_exec ''host:1'') = (\<lparr>dres_Accepted = True, dres_Reason = ''''\<rparr>, v)"
    and v: "in_flight (v, []) = {#request_task (j_Request job) (demo_exec ShellExecutor)#}"
    by (rule first_delivery [of demo_exec])
  let ?s = "s\<lparr>cp_client := snd (connection ''w'' s)\<rparr>"
  note r = delivery_reachable(1) [OF d(4,2,3,5)]
  have W: "((fleet demo_exec)(''host:1'' := v)) ''host:1'' = v" by simp
  have ne: "in_flight (v, []) \<noteq> {#}" using v by (simp del: in_flight_simp)
  show ?thesis
    by (insert ne workers_run_known_tasks [OF r, of "''host:1''", unfolded W], elim exE conjE, rule exI [of _ ?s], rule exI [of _ v], rule exI, rule exI, intro conjI, assumption, assumption, assumption,
        intro ballI, drule (1) bspec, elim conjE exE, intro exI conjI, assumption+)
qed

theorem scheduled_type_known_witness:
  "\<exists>workers job s. first_call = (SchedLoop workers [job], s)
     \<and> fst (DispatchTask (j_Request job) (fleet demo_exec ''host:1'')) \<in> {None, Some WorkerSuspended, Some WorkerPoolFull}"
proof -
  obtain workers job s where f: "first_call = (SchedLoop workers [job], s)"
    "selectWorker insertion_sort workers (dr_Type (j_Request job)) = Inr ''w''"
    "cluster_reachable demo_exec (SchedLoop workers [job], s, fleet demo_exec, None, no_reports)"
    by (rule first_delivery [of demo_exec]) blast
  have "n_ID (s_node (fleet demo_exec ''host:1'')) = ''w''" by (simp add: fleet_state fleet_id_def)
  from scheduled_type_known [OF f(3) small_sort.go_sort_axioms f(2) this] f(1) show ?thesis by blast
qed

text \<open>
  C24. One task can be on two live workers at once: when the reply to a dispatch is lost, the
  scheduler queues the job again and, once the first worker reports its load, chooses another
  worker, whose own set of tasks in flight does not know the task. There is a reachable state in
  which two workers at different addresses are both ALIVE and both hold the task.
\<close>

theorem same_task_on_two_workers:
  "\<exists>ph s W call R t t'. cluster_reachable exec (ph, s :: (clock_and_order, unit, string) ControlPlane, W :: string \<Rightarrow> string WorkerService, call, R)
     \<and> wstatus (cp_registry s) ''w'' = Some WorkerAlive \<and> wstatus (cp_registry s) ''v'' = Some WorkerAlive
     \<and> n_ID (s_node (W ''host:1'')) = ''w'' \<and> n_ID (s_node (W ''host:2'')) = ''v''
     \<and> t \<in># in_flight (W ''host:1'', []) \<and> t' \<in># in_flight (W ''host:2'', []) \<and> tt_key t = ''u'' \<and> tt_key t' = ''u''"
proof -
  obtain ws1 job1 s1 v1 where c1: "first_call = (SchedLoop ws1 [job1], s1)"
    and d1: "selectWorker insertion_sort ws1 (dr_Type (j_Request job1)) = Inr ''w''" "fst (connection ''w'' s1) = Inr ''host:1''"
      "cluster_reachable exec (SchedLoop ws1 [job1], s1, fleet exec, None, no_reports)"
      "GRPCServer_Dispatch (j_Request job1) (fleet exec ''host:1'') = (\<lparr>dres_Accepted = True, dres_Reason = ''''\<rparr>, v1)"
    and k1: "dr_TaskId (j_Request job1) = ''u''"
    and v1: "in_flight (v1, []) = {#request_task (j_Request job1) (exec ShellExecutor)#}" "n_ID (s_node v1) = ''w''"
    by (rule first_delivery [of exec])
  obtain ws2 job2 s2 where c2: "second_call = (SchedLoop ws2 [job2], s2)"
    "selectWorker insertion_sort ws2 (dr_Type (j_Request job2)) = Inr ''v''" "dr_Type (j_Request job2) = ''shell''"
    "dr_TaskId (j_Request job2) = ''u''" "fst (connection ''v'' s2) = Inr ''host:2''"
    "wstatus (cp_registry s2) ''w'' = Some WorkerAlive" "wstatus (cp_registry s2) ''v'' = Some WorkerAlive"
    using second_view_call by (rule call_view_phase)
  obtain v2 where v2: "GRPCServer_Dispatch (j_Request job2) (fleet exec ''host:2'') = (\<lparr>dres_Accepted = True, dres_Reason = ''''\<rparr>, v2)"
    "in_flight (v2, []) = {#request_task (j_Request job2) (exec ShellExecutor)#}" "n_ID (s_node v2) = fleet_id ''host:2''"
    using fleet_dispatch [OF c2(3)] by blast
  let ?W = "(fleet exec)(''host:1'' := v1)" and ?s2 = "s2\<lparr>cp_client := snd (connection ''v'' s2)\<rparr>"
  obtain ph3 s3 ph4 s4 where t3: "tick_with lost_rpc (SchedLoop ws1 [job1], s1) = (ph3, s3)" and t4: "tick_with lost_rpc (ph3, s3) = (ph4, s4)"
    by (metis surj_pair)
  have "cluster_reachable exec (ph3, s3, ?W, None, no_reports)"
    by (rule delivery_reachable(2) [OF d1(3,1,2,4) _ t3]) (simp add: answered_def lost_rpc_def)
  then have "cluster_reachable exec (ph4, s4, ?W, None, no_reports)" using ticks_reachable [of exec ph3 s3 ?W no_reports 1] t4 by simp
  then have "cluster_reachable exec (ph4, busy_heartbeat ''w'' s4, ?W, None, no_reports)"
    unfolding busy_heartbeat_def by (rule cluster_next) (rule step_api [OF api_heartbeat])
  moreover have "(tick_with lost_rpc ^^ 2) (ph4, busy_heartbeat ''w'' s4) = (SchedLoop ws2 [job2], s2)"
    using c2(1) t3 t4 by (simp add: second_call_def c1 numeral_2_eq_2)
  ultimately have "cluster_reachable exec (SchedLoop ws2 [job2], s2, ?W, None, no_reports)" by (rule ticks_reachable)
  then have "cluster_reachable exec (SchedLoop ws2 [job2], ?s2, ?W(''host:2'' := v2), Some \<lparr>dres_Accepted = True, dres_Reason = ''''\<rparr>, no_reports)"
    by (rule delivery_reachable(1) [OF _ c2(2,5)]) (simp add: v2(1))
  moreover have "request_task (j_Request job1) (exec ShellExecutor) \<in># in_flight ((?W(''host:2'' := v2)) ''host:1'', [])"
    "request_task (j_Request job2) (exec ShellExecutor) \<in># in_flight ((?W(''host:2'' := v2)) ''host:2'', [])"
    using v1 v2(2) by (simp_all del: in_flight_simp)
  moreover have "tt_key (request_task (j_Request job1) (exec ShellExecutor)) = ''u''" "tt_key (request_task (j_Request job2) (exec ShellExecutor)) = ''u''"
    using k1 c2(4) by (simp_all add: request_task_def)
  moreover have "n_ID (s_node ((?W(''host:2'' := v2)) ''host:1'')) = ''w''" "n_ID (s_node ((?W(''host:2'' := v2)) ''host:2'')) = ''v''"
    using v1(2) v2(3) by (simp_all add: fleet_id_def)
  moreover have "wstatus (cp_registry ?s2) ''w'' = Some WorkerAlive" "wstatus (cp_registry ?s2) ''v'' = Some WorkerAlive"
    using c2(6,7) by simp_all
  ultimately show ?thesis by blast
qed

section \<open>Refused dispatches\<close>

text \<open>The process at the chosen worker's address refuses a dispatch; the control plane records it.\<close>

definition refused_state :: "sched_phase \<times> (clock_and_order, unit, string) ControlPlane" where
  "refused_state = (tick_with lost_rpc ^^ 3) (tick_with refused_rpc ((tick_with lost_rpc ^^ 2) (SchedIdle, registered_cp)))"

lemma refused_view:
  "orphan_view refused_state = (SchedIdle, [], Some WorkerAlive, Some (WorkflowRunning, Some (TaskDispatched, ''w'')))"
  by code_simp

definition refused_type :: "sched_phase \<times> (clock_and_order, unit, string) ControlPlane \<Rightarrow> string option option" where
  "refused_type x = map_option (\<lambda>w. map_option (\<lambda>t. ts_Type (t_Spec t)) (map_of (w_Tasks w) ''u''))
     (map_of (e_workflows (cp_engine (snd x))) ''uuuu'')"

lemma refused_type_view: "refused_type refused_state = Some (Some ''shell'')"
  by code_simp

fun request_of :: "sched_phase \<times> (clock_and_order, unit, string) ControlPlane \<Rightarrow>
    (nat \<times> (sched_error + string) \<times> (client_error + string) \<times> string \<times> string \<times> string) option" where
  "request_of (SchedLoop workers (job # jobs), s) =
     Some (length jobs, selectWorker insertion_sort workers (dr_Type (j_Request job)), fst (connection ''w'' s),
       dr_Type (j_Request job), dr_TaskId (j_Request job), dr_WorkflowId (j_Request job))"
| "request_of (ph, s) = None"

lemma request_view: "request_of ((tick_with lost_rpc ^^ 2) (SchedIdle, registered_cp)) = Some (0, Inr ''w'', Inr ''host:1'', ''shell'', ''u'', ''uuuu'')"
  by code_simp

lemma single_call:
  obtains ws job s where "(tick_with lost_rpc ^^ 2) (SchedIdle, registered_cp) = (SchedLoop ws [job], s)"
    "selectWorker insertion_sort ws (dr_Type (j_Request job)) = Inr ''w''" "fst (connection ''w'' s) = Inr ''host:1''"
    "dr_Type (j_Request job) = ''shell''" "dr_TaskId (j_Request job) = ''u''" "dr_WorkflowId (j_Request job) = ''uuuu''"
  using request_view by (cases "(tick_with lost_rpc ^^ 2) (SchedIdle, registered_cp)" rule: request_of.cases) auto

lemma refused_reached:
  assumes W: "cluster_reachable exec (SchedIdle, registered_cp, W, None, no_reports)"
    and refuses: "\<forall>req. dr_Type req = ''shell'' \<longrightarrow> (\<exists>v. GRPCServer_Dispatch req (W ''host:1'') = (\<lparr>dres_Accepted = False, dres_Reason = ''''\<rparr>, v) \<and> P req v)"
  shows "\<exists>s w t req v. cluster_reachable exec (SchedIdle, s :: (clock_and_order, unit, string) ControlPlane, W(''host:1'' := v), None, no_reports)
     \<and> dr_TaskId req = ''u'' \<and> P req v
     \<and> e_queue (cp_engine s) = [] \<and> wstatus (cp_registry s) ''w'' = Some WorkerAlive
     \<and> map_of (e_workflows (cp_engine s)) ''uuuu'' = Some w \<and> w_status w = WorkflowRunning
     \<and> map_of (w_Tasks w) ''u'' = Some t \<and> t_status t = TaskDispatched \<and> t_AssignedTo t = ''w'' \<and> ts_Type (t_Spec t) = ''shell''"
proof -
  obtain ws job s1 where p1: "(tick_with lost_rpc ^^ 2) (SchedIdle, registered_cp) = (SchedLoop ws [job], s1)"
    "selectWorker insertion_sort ws (dr_Type (j_Request job)) = Inr ''w''" "fst (connection ''w'' s1) = Inr ''host:1''"
    "dr_Type (j_Request job) = ''shell''" "dr_TaskId (j_Request job) = ''u''"
    by (rule single_call)
  obtain v where v: "GRPCServer_Dispatch (j_Request job) (W ''host:1'') = (\<lparr>dres_Accepted = False, dres_Reason = ''''\<rparr>, v)" "P (j_Request job) v"
    using refuses p1(4) by blast
  obtain ph2 s2 where p2: "tick_with refused_rpc (SchedLoop ws [job], s1) = (ph2, s2)" by force
  obtain ph3 s3 where p3: "(tick_with lost_rpc ^^ 3) (ph2, s2) = (ph3, s3)" by force
  have "orphan_view (ph3, s3) = (SchedIdle, [], Some WorkerAlive, Some (WorkflowRunning, Some (TaskDispatched, ''w'')))"
    using refused_view p1(1) p2 p3 by (simp add: refused_state_def)
  moreover have "refused_type (ph3, s3) = Some (Some ''shell'')"
    using refused_type_view p1(1) p2 p3 by (simp add: refused_state_def)
  ultimately have view: "ph3 = SchedIdle" "e_queue (cp_engine s3) = []" "wstatus (cp_registry s3) ''w'' = Some WorkerAlive"
      "\<exists>w t. map_of (e_workflows (cp_engine s3)) ''uuuu'' = Some w \<and> w_status w = WorkflowRunning
         \<and> map_of (w_Tasks w) ''u'' = Some t \<and> t_status t = TaskDispatched \<and> t_AssignedTo t = ''w'' \<and> ts_Type (t_Spec t) = ''shell''"
    by (auto simp: map_option_eq_Some refused_type_def)
  have "cluster_reachable exec (SchedLoop ws [job], s1, W, None, no_reports)" by (rule ticks_reachable [OF W p1(1)])
  then have "cluster_reachable exec (ph2, s2, W(''host:1'' := v), None, no_reports)"
    by (rule delivery_reachable(2) [where W = W and a = "''host:1''", OF _ p1(2,3) v(1) _ p2]) (simp add: answered_def refused_rpc_def)
  then have "cluster_reachable exec (ph3, s3, W(''host:1'' := v), None, no_reports)" by (rule ticks_reachable) (rule p3)
  moreover obtain w t where "map_of (e_workflows (cp_engine s3)) ''uuuu'' = Some w \<and> w_status w = WorkflowRunning
    \<and> map_of (w_Tasks w) ''u'' = Some t \<and> t_status t = TaskDispatched \<and> t_AssignedTo t = ''w'' \<and> ts_Type (t_Spec t) = ''shell''"
    using view(4) by blast
  ultimately show ?thesis using view(1-3) v(2) p1(5)
    by (intro exI [of _ s3] exI [of _ w] exI [of _ t] exI [of _ "j_Request job"] exI [of _ v]) simp
qed

lemma fleet_suspended:
  "\<exists>v. cluster_step exec (ph, s, fleet exec, None, no_reports) (ph, s, (fleet exec)(a := v), None, no_reports)
     \<and> s_suspended v \<and> in_flight (v, []) = {#} \<and> n_ID (s_node v) = fleet_id a"
proof -
  let ?hb = "SvHeartbeat (\<lambda>addr. Inl ''unreachable'') (\<lambda>conn req. Inl ''unreachable'') (\<lambda>conn req. Inl ''unreachable'') :: string service_action"
  let ?v = "sendHeartbeat (\<lambda>addr. Inl ''unreachable'') (\<lambda>conn req. Inl ''unreachable'') (\<lambda>conn req. Inl ''unreachable'') (fleet exec a)"
  have "service_act ?hb (fleet exec a, []) = Some (?v, [])" by (simp add: service_act_def)
  moreover have "s_suspended ?v"
    by (auto simp: sendHeartbeat_def ClusterClient_Heartbeat_def WorkerService_register_def ClusterClient_Register_def
        split: prod.splits sum.splits option.splits)
  moreover have "in_flight (?v, []) = {#}" "n_ID (s_node ?v) = fleet_id a"
    using heartbeat_frame [of _ _ _ "fleet exec a"] heartbeat_frames [of _ _ _ "fleet exec a"] by (simp_all add: fleet_state)
  ultimately show ?thesis using step_worker [of ?hb "fleet exec" a ?v no_reports no_reports exec ph s None] by (auto simp: returns_def)
qed

text \<open>
  C25. A refused dispatch is recorded as if the worker had the task: there is a reachable state in
  which the scheduler is idle, the ready queue is empty and the engine holds the task as
  DISPATCHED to a worker that is ALIVE and holds no task, because it answered with
  \<^verbatim>\<open>Accepted = false\<close>.
\<close>

theorem refused_dispatch_recorded:
  "\<exists>s W w t. cluster_reachable exec (SchedIdle, s :: (clock_and_order, unit, string) ControlPlane, W :: string \<Rightarrow> string WorkerService, None, no_reports)
     \<and> e_queue (cp_engine s) = [] \<and> wstatus (cp_registry s) ''w'' = Some WorkerAlive
     \<and> n_ID (s_node (W ''host:1'')) = ''w'' \<and> in_flight (W ''host:1'', []) = {#}
     \<and> map_of (e_workflows (cp_engine s)) ''uuuu'' = Some w \<and> w_status w = WorkflowRunning
     \<and> map_of (w_Tasks w) ''u'' = Some t \<and> t_status t = TaskDispatched \<and> t_AssignedTo t = ''w''"
proof -
  obtain v where v: "cluster_step exec (SchedIdle, registered_cp, fleet exec, None, no_reports) (SchedIdle, registered_cp, (fleet exec)(''host:1'' := v), None, no_reports)"
    "s_suspended v" "in_flight (v, []) = {#}" "n_ID (s_node v) = fleet_id ''host:1''"
    using fleet_suspended [of exec SchedIdle registered_cp "''host:1''"] by blast
  let ?W = "(fleet exec)(''host:1'' := v)"
  have "cluster_reachable exec (SchedIdle, registered_cp, ?W, None, no_reports)" by (rule cluster_next [OF two_workers_reachable(1) v(1)])
  moreover have "\<forall>req. dr_Type req = ''shell'' \<longrightarrow>
      (\<exists>v'. GRPCServer_Dispatch req (?W ''host:1'') = (\<lparr>dres_Accepted = False, dres_Reason = ''''\<rparr>, v') \<and> v' = v)"
    using v(2) by (simp add: GRPCServer_Dispatch_def DispatchTask_def dispatch_accept_def)
  ultimately obtain s w t where "cluster_reachable exec (SchedIdle, s :: (clock_and_order, unit, string) ControlPlane, ?W(''host:1'' := v), None, no_reports)"
    "e_queue (cp_engine s) = []" "wstatus (cp_registry s) ''w'' = Some WorkerAlive"
    "map_of (e_workflows (cp_engine s)) ''uuuu'' = Some w" "w_status w = WorkflowRunning"
    "map_of (w_Tasks w) ''u'' = Some t" "t_status t = TaskDispatched" "t_AssignedTo t = ''w''"
    using refused_reached [where P = "\<lambda>req v'. v' = v"] by blast
  moreover have "n_ID (s_node ((?W(''host:1'' := v)) ''host:1'')) = ''w''" "in_flight ((?W(''host:1'' := v)) ''host:1'', []) = {#}"
    using v(3,4) by (simp_all add: fleet_id_def del: in_flight_simp)
  ultimately show ?thesis by blast
qed

definition replaced :: "(executor_kind \<Rightarrow> executor) \<Rightarrow> string WorkerService" where
  "replaced exec = projr (main_at exec ((shell_config ''host:1'')\<lparr>wc_Capabilities := [''http'']\<rparr>) ''n'')"

lemma replaced_state:
  "main_at exec ((shell_config ''host:1'')\<lparr>wc_Capabilities := [''http'']\<rparr>) ''n'' = Inr (replaced exec)"
  "s_suspended (replaced exec) = False" "s_unique (replaced exec) = Some []"
  "s_executionRegistry (replaced exec) = \<lparr>er_executors = [(''http'', exec HttpExecutor)]\<rparr>"
  "n_ID (s_node (replaced exec)) = ''n''" "n_Capabilities (s_node (replaced exec)) = [''http'']"
  "in_flight (replaced exec, []) = {#}"
  by (simp_all add: replaced_def main_defs shell_config_def)

lemma replaced_reachable:
  "cluster_reachable exec (SchedIdle, registered_cp, (fleet exec)(''host:1'' := replaced exec), None, no_reports)"
proof -
  have start: "started_worker exec ''n'' (replaced exec)"
    using replaced_state(1) [of exec] unfolding started_worker_def main_at_def by blast
  have "Option.is_none (map_of (r_workers (cp_registry registered_cp)) ''n'')" by code_simp
  then have "unused_id ''n'' SchedIdle registered_cp (fleet exec)"
    by (auto simp: unused_id_def Option.is_none_def fleet_state fleet_id_def)
  from cluster_next [OF two_workers_reachable(1) step_restart [OF start this, where a = "''host:1''"]]
  show ?thesis by (simp add: no_reports_def cong: if_cong)
qed

text \<open>
  C21. A worker process that is replaced takes the tasks of its predecessor and loses them: there
  is a reachable state in which a shell task is DISPATCHED to a worker ID that is still ALIVE,
  although no process has this ID any more and no process holds any task. The process that was
  started at the address since, under a new ID and with only the http executor, got the call and
  refused it, and it kept the task's key: it would answer every later dispatch of the task with
  \<^verbatim>\<open>Accepted = true\<close>, without effect.
\<close>

theorem replaced_worker_gets_task:
  "\<exists>s W w t. cluster_reachable exec (SchedIdle, s :: (clock_and_order, unit, string) ControlPlane, W :: string \<Rightarrow> string WorkerService, None, no_reports)
     \<and> e_queue (cp_engine s) = [] \<and> wstatus (cp_registry s) ''w'' = Some WorkerAlive
     \<and> (\<forall>a. n_ID (s_node (W a)) \<noteq> ''w'' \<and> in_flight (W a, []) = {#})
     \<and> map_of (e_workflows (cp_engine s)) ''uuuu'' = Some w \<and> w_status w = WorkflowRunning
     \<and> map_of (w_Tasks w) ''u'' = Some t \<and> t_status t = TaskDispatched \<and> t_AssignedTo t = ''w'' \<and> ts_Type (t_Spec t) = ''shell''
     \<and> n_Capabilities (s_node (W ''host:1'')) = [''http'']
     \<and> (\<forall>req. GRPCServer_Dispatch (req\<lparr>dr_TaskId := ''u''\<rparr>) (W ''host:1'') = (\<lparr>dres_Accepted = True, dres_Reason = ''''\<rparr>, W ''host:1''))"
proof -
  let ?W = "(fleet exec)(''host:1'' := replaced exec)"
  let ?P = "\<lambda>(req :: DispatchRequest) v. n_ID (s_node v) = ''n'' \<and> in_flight (v, []) = {#} \<and> n_Capabilities (s_node v) = [''http'']
    \<and> (\<forall>req'. GRPCServer_Dispatch (req'\<lparr>dr_TaskId := dr_TaskId req\<rparr>) v = (\<lparr>dres_Accepted = True, dres_Reason = ''''\<rparr>, v))"
  have "\<forall>req. dr_Type req = ''shell'' \<longrightarrow>
      (\<exists>v. GRPCServer_Dispatch req (?W ''host:1'') = (\<lparr>dres_Accepted = False, dres_Reason = ''''\<rparr>, v) \<and> ?P req v)"
    using replaced_state(7) [of exec]
    by (simp add: GRPCServer_Dispatch_def DispatchTask_def dispatch_accept_def replaced_state(2-6) unique_Add_def ExecutorRegistry_Get_def)
  from refused_reached [OF replaced_reachable, where P = ?P, OF this] obtain s w t req v where
    r: "cluster_reachable exec (SchedIdle, s :: (clock_and_order, unit, string) ControlPlane, ?W(''host:1'' := v), None, no_reports)" "dr_TaskId req = ''u''" "?P req v"
    and e: "e_queue (cp_engine s) = []" "wstatus (cp_registry s) ''w'' = Some WorkerAlive"
      "map_of (e_workflows (cp_engine s)) ''uuuu'' = Some w" "w_status w = WorkflowRunning"
      "map_of (w_Tasks w) ''u'' = Some t" "t_status t = TaskDispatched" "t_AssignedTo t = ''w''" "ts_Type (t_Spec t) = ''shell''"
    by blast
  let ?V = "?W(''host:1'' := v)"
  have "n_ID (s_node (?V a)) \<noteq> ''w'' \<and> in_flight (?V a, []) = {#}" for a
    using r(3) by (auto simp: fleet_state fleet_id_def)
  moreover have "GRPCServer_Dispatch (req'\<lparr>dr_TaskId := ''u''\<rparr>) (?V ''host:1'') = (\<lparr>dres_Accepted = True, dres_Reason = ''''\<rparr>, ?V ''host:1'')" for req'
    using r(2,3) by simp
  moreover have "n_Capabilities (s_node (?V ''host:1'')) = [''http'']" using r(3) by simp
  ultimately show ?thesis using r(1) e by blast
qed

section \<open>A task that succeeds\<close>

definition accepted_rpc :: "string dispatcher" where
  "accepted_rpc n conn req = Inr \<lparr>dres_Accepted = True, dres_Reason = ''''\<rparr>"

definition success_report :: ResultRequest where
  "success_report = status_request \<lparr>ti_ID = ''u'', ti_WorkflowID = ''uuuu'', ti_Spec = \<lparr>ts_Type = '''', ts_Payload = ''''\<rparr>, ti_TimeoutInSeconds = 0\<rparr>
     TASK_REPORT_SUCCEEDED (Some zero_result)"

definition reported :: "sched_phase \<times> (clock_and_order, unit, string) ControlPlane \<Rightarrow> sched_phase \<times> (clock_and_order, unit, string) ControlPlane" where
  "reported x = (case x of (ph, s) \<Rightarrow> (ph, s\<lparr>cp_engine := snd (Server_ReportResult offset_order 9 success_report (cp_engine s))\<rparr>))"

definition success_state :: "sched_phase \<times> (clock_and_order, unit, string) ControlPlane" where
  "success_state = reported (tick_with lost_rpc (tick_with accepted_rpc ((tick_with lost_rpc ^^ 2) (SchedIdle, registered_cp))))"

lemma success_view: "snd (snd (snd (orphan_view success_state))) = Some (WorkflowRunning, Some (TaskSucceeded, ''w''))"
  by code_simp

text \<open>The fresh worker takes the task and starts it.\<close>

lemma fleet_executes:
  assumes "dr_Type req = ''shell''" and "rp_ended R = (\<lambda>_. None)"
  shows "\<exists>v1 v2 v3. GRPCServer_Dispatch req (fleet exec a) = (\<lparr>dres_Accepted = True, dres_Reason = ''''\<rparr>, v1)
     \<and> service_act (SvPool (ActWorker 0 False False 0 0)) (v1, []) = Some (v2, [])
     \<and> service_act (SvPool (ActWorker 0 False False 0 0)) (v2, []) = Some (v3, [])
     \<and> returns a (SvPool (ActWorker 0 False False 0 0)) v1 R = Some R \<and> returns a (SvPool (ActWorker 0 False False 0 0)) v2 R = Some R
     \<and> executing v3 0 (tt_inner (request_task req (exec ShellExecutor)))"
  using assms
  by (simp add: GRPCServer_Dispatch_def DispatchTask_def dispatch_accept_def fleet_state unique_Add_def ExecutorRegistry_Get_def
      dispatch_submit_def WorkerPool_TrySubmit_def chan_send_def request_task_def service_act_def pool_act_def set_worker_def
      pool_callback_def returns_def executing_def)

lemma success_reached:
  "\<exists>ph s W call R. cluster_reachable exec (ph, s :: (clock_and_order, unit, string) ControlPlane, W :: string \<Rightarrow> string WorkerService, call, R)
     \<and> (ph, s) = success_state"
proof -
  obtain ws job s1 where p1: "(tick_with lost_rpc ^^ 2) (SchedIdle, registered_cp) = (SchedLoop ws [job], s1)"
    "selectWorker insertion_sort ws (dr_Type (j_Request job)) = Inr ''w''" "fst (connection ''w'' s1) = Inr ''host:1''"
    "dr_Type (j_Request job) = ''shell''" "dr_TaskId (j_Request job) = ''u''" "dr_WorkflowId (j_Request job) = ''uuuu''"
    by (rule single_call)
  let ?act = "SvPool (ActWorker 0 False False 0 0) :: string service_action"
  let ?t = "tt_inner (request_task (j_Request job) (exec ShellExecutor))" and ?run = "\<lambda>spec timeout. (zero_result, None)"
  obtain v1 v2 v3 where v: "GRPCServer_Dispatch (j_Request job) (fleet exec ''host:1'') = (\<lparr>dres_Accepted = True, dres_Reason = ''''\<rparr>, v1)"
    "service_act ?act (v1, []) = Some (v2, [])" "service_act ?act (v2, []) = Some (v3, [])"
    "returns ''host:1'' ?act v1 no_reports = Some no_reports" "returns ''host:1'' ?act v2 no_reports = Some no_reports" "executing v3 0 ?t"
    using fleet_executes [OF p1(4), of no_reports exec "''host:1''"] by (auto simp: no_reports_def)
  obtain ph2 s2 ph3 s3 where p2: "tick_with accepted_rpc (SchedLoop ws [job], s1) = (ph2, s2)" "tick_with lost_rpc (ph2, s2) = (ph3, s3)"
    by (metis surj_pair)
  have "cluster_reachable exec (SchedLoop ws [job], s1, fleet exec, None, no_reports)"
    by (rule ticks_reachable [OF two_workers_reachable(1) p1(1)])
  then have "cluster_reachable exec (ph2, s2, (fleet exec)(''host:1'' := v1), None, no_reports)"
    by (rule delivery_reachable(2) [where W = "fleet exec" and a = "''host:1''", OF _ p1(2,3) v(1) _ p2(1)]) (simp add: answered_def accepted_rpc_def)
  then have "cluster_reachable exec (ph3, s3, (fleet exec)(''host:1'' := v1), None, no_reports)"
    using ticks_reachable [of exec ph2 s2 "(fleet exec)(''host:1'' := v1)" no_reports 1] p2(2) by simp
  then have "cluster_reachable exec (ph3, s3, (fleet exec)(''host:1'' := v1, ''host:1'' := v2), None, no_reports)"
    by (rule cluster_next) (rule step_worker [of ?act], simp_all add: v(2,4))
  then have "cluster_reachable exec (ph3, s3, (fleet exec)(''host:1'' := v1, ''host:1'' := v2, ''host:1'' := v3), None, no_reports)"
    by (rule cluster_next) (rule step_worker [of ?act], simp_all add: v(3,5))
  then have r3: "cluster_reachable exec (ph3, s3, (fleet exec)(''host:1'' := v3), None, no_reports)" by simp
  have att: "attempt ?run ?t = (None, [status_request (et_task ?t) TASK_REPORT_RUNNING None, success_report])"
    using p1(5,6) by (simp add: attempt_reports outcome_status_def zero_result_def success_report_def status_request_def
        request_task_def NewExecutableTask_def Let_def)
  obtain R where R: "cluster_reachable exec (ph3, s3, (fleet exec)(''host:1'' := v3), None, R)" "success_report \<in> set (rp_wire R)"
    using cluster_next [OF r3 step_ended [of "(fleet exec)(''host:1'' := v3)" "''host:1''" 0 ?t no_reports ?run, OF _ _ att]] v(6)
    by (fastforce simp: no_reports_def)
  from cluster_next [OF R(1) step_report [OF offset.go_range_axioms R(2), of exec ph3 s3 _ None 9]]
  show ?thesis by (auto simp: success_state_def reported_def p1(1) p2)
qed

theorem finals_were_executed_witness:
  "\<exists>(s :: (clock_and_order, unit, string) ControlPlane) (R :: reports) w tk i r. map_of (e_workflows (cp_engine s)) ''uuuu'' = Some w
     \<and> map_of (w_Tasks w) ''u'' = Some tk \<and> t_status tk = TaskSucceeded
     \<and> (i, (r, None)) \<in> set (rp_log R) \<and> ti_ID i = ''u'' \<and> tr_ExitCode r = 0"
proof -
  obtain ph s W call R where x: "cluster_reachable demo_exec (ph, s :: (clock_and_order, unit, string) ControlPlane, W :: string \<Rightarrow> string WorkerService, call, R)"
    "(ph, s) = success_state" using success_reached by blast
  obtain w tk where t: "map_of (e_workflows (cp_engine s)) ''uuuu'' = Some w" "map_of (w_Tasks w) ''u'' = Some tk" "t_status tk = TaskSucceeded"
    using success_view by (auto simp: x(2) [symmetric] map_option_eq_Some)
  obtain i r where "(i, (r, None)) \<in> set (rp_log R)" "ti_ID i = ''u''" "tr_ExitCode r = 0"
    using finals_were_executed [OF x(1) t(1,2)] t(3) by auto
  then show ?thesis using t by blast
qed

end
