(* ===== verification/Lock_Order.thy ===== *)
theory Lock_Order
  imports Prelude
begin

text \<open>
  The mutexes of the control plane and the order in which its operations take them. An
  operation is the sequence of its lock and unlock calls; threads interleave, and a lock call
  waits while any thread holds the mutex. The read lock of a \<^verbatim>\<open>RWMutex\<close> is treated as a
  lock: this only makes more threads wait, and where all holders are done a reader and a writer
  can both go on in the code as well.
\<close>

section \<open>Locks and threads\<close>

datatype lock = RegistryMu | ClientMu | EngineMu | QueueMu | BusMu | TriggersMu

datatype lock_op = Lock lock | Unlock lock

text \<open>A thread: the locks it holds and the calls it still has to make.\<close>

type_synonym thread = "lock list \<times> lock_op list"

fun thread_step :: "thread \<Rightarrow> thread" where
  "thread_step (held, []) = (held, [])"
| "thread_step (held, Lock l # ops) = (l # held, ops)"
| "thread_step (held, Unlock l # ops) = (remove1 l held, ops)"

fun runs :: "thread list \<Rightarrow> thread \<Rightarrow> bool" where
  "runs ts (held, []) = False"
| "runs ts (held, Unlock l # ops) = True"
| "runs ts (held, Lock l # ops) = list_all (\<lambda>t. l \<notin> set (fst t)) ts"

definition lock_step :: "nat \<Rightarrow> thread list \<Rightarrow> thread list option" where
  "lock_step i ts = (if i < length ts \<and> runs ts (ts ! i) then Some (ts[i := thread_step (ts ! i)]) else None)"

fun lock_run :: "nat list \<Rightarrow> thread list \<Rightarrow> thread list option" where
  "lock_run [] ts = Some ts"
| "lock_run (i # is) ts = (case lock_step i ts of None \<Rightarrow> None | Some ts' \<Rightarrow> lock_run is ts')"

definition all_finished :: "thread list \<Rightarrow> bool" where
  "all_finished ts = list_all (\<lambda>t. snd t = []) ts"

section \<open>The operations of the control plane\<close>

definition critical :: "lock \<Rightarrow> lock_op list" where
  "critical l = [Lock l, Unlock l]"

text \<open>What the engine does to other components while it holds its lock.\<close>

datatype inner_call = PushesJob | PublishesEvent

fun inner_locks :: "inner_call \<Rightarrow> lock_op list" where
  "inner_locks PushesJob = critical QueueMu"
| "inner_locks PublishesEvent = critical BusMu"

definition engine_locks :: "inner_call list \<Rightarrow> lock_op list" where
  "engine_locks calls = Lock EngineMu # concat (map inner_locks calls) @ [Unlock EngineMu]"

text \<open>
  \<^verbatim>\<open>updateWorkerStatus\<close> runs the dead hooks under the registry's lock: \<^verbatim>\<open>CloseConn\<close>, then
  \<^verbatim>\<open>ReassignDeadWorkerTasks\<close> (\<open>Some calls\<close>); for the other statuses it only locks.
\<close>

definition updateWorkerStatus_locks :: "inner_call list option \<Rightarrow> lock_op list" where
  "updateWorkerStatus_locks dead =
     Lock RegistryMu # (case dead of None \<Rightarrow> [] | Some calls \<Rightarrow> critical ClientMu @ engine_locks calls) @ [Unlock RegistryMu]"

definition checkHeartbeat_locks :: "inner_call list option option \<Rightarrow> lock_op list" where
  "checkHeartbeat_locks verdict =
     critical RegistryMu @ (case verdict of None \<Rightarrow> [] | Some dead \<Rightarrow> updateWorkerStatus_locks dead)"

definition getOrDial_locks :: "bool \<Rightarrow> lock_op list" where
  "getOrDial_locks cached = Lock ClientMu # (if cached then [] else critical RegistryMu) @ [Unlock ClientMu]"

text \<open>The fate of a job in a tick: no worker; a failed call; dispatched (with the engine's callback).\<close>

datatype job_fate = NoWorker | CallFailed bool | JobDispatched bool "inner_call list"

fun fate_locks :: "job_fate \<Rightarrow> lock_op list" where
  "fate_locks NoWorker = critical QueueMu"
| "fate_locks (CallFailed cached) = getOrDial_locks cached @ critical QueueMu"
| "fate_locks (JobDispatched cached calls) = getOrDial_locks cached @ engine_locks calls @ critical RegistryMu"

datatype operation =
    RegistryMethod
  | RegisterMethod
  | HeartbeatCheck "inner_call list option option"
  | EngineMethod "inner_call list"
  | CancelOnWorker bool
  | Tick "job_fate list"
  | BusMethod

fun operation_locks :: "operation \<Rightarrow> lock_op list" where
  "operation_locks RegistryMethod = critical RegistryMu"
| "operation_locks RegisterMethod = critical RegistryMu @ critical TriggersMu"
| "operation_locks (HeartbeatCheck verdict) = critical TriggersMu @ checkHeartbeat_locks verdict @ critical TriggersMu"
| "operation_locks (EngineMethod calls) = engine_locks calls"
| "operation_locks (CancelOnWorker cached) = getOrDial_locks cached"
| "operation_locks (Tick fates) = critical QueueMu @ critical RegistryMu @ concat (map fate_locks fates)"
| "operation_locks BusMethod = critical BusMu"

fun fate_dials :: "job_fate \<Rightarrow> bool" where
  "fate_dials NoWorker = False"
| "fate_dials (CallFailed cached) = (\<not> cached)"
| "fate_dials (JobDispatched cached calls) = (\<not> cached)"

fun dials :: "operation \<Rightarrow> bool" where
  "dials (CancelOnWorker cached) = (\<not> cached)"
| "dials (Tick fates) = list_ex fate_dials fates"
| "dials _ = False"

definition start_threads :: "operation list \<Rightarrow> thread list" where
  "start_threads ops = map (\<lambda>op. ([], operation_locks op)) ops"

section \<open>Locks taken in order\<close>

fun rank :: "lock \<Rightarrow> nat" where
  "rank RegistryMu = 0"
| "rank ClientMu = 1"
| "rank EngineMu = 2"
| "rank QueueMu = 3"
| "rank BusMu = 4"
| "rank TriggersMu = 5"

fun in_order :: "lock list \<Rightarrow> lock_op list \<Rightarrow> bool" where
  "in_order held [] = (held = [])"
| "in_order held (Lock l # ops) = ((\<forall>h \<in> set held. rank h < rank l) \<and> in_order (l # held) ops)"
| "in_order held (Unlock l # ops) = (l \<in> set held \<and> in_order (remove1 l held) ops)"

lemma in_order_critical:
  "\<forall>h \<in> set held. rank h < rank l \<Longrightarrow> in_order held (critical l @ ops) = in_order held ops"
  by (simp add: critical_def)

lemma in_order_inner:
  "\<forall>h \<in> set held. rank h \<le> rank EngineMu \<Longrightarrow> in_order held (concat (map inner_locks calls) @ ops) = in_order held ops"
proof (induction calls)
  case (Cons c calls)
  have "\<forall>h \<in> set held. rank h < rank QueueMu" "\<forall>h \<in> set held. rank h < rank BusMu"
    using Cons.prems by fastforce+
  with Cons show ?case by (cases c) (simp_all add: in_order_critical)
qed simp

lemma in_order_engine:
  "\<forall>h \<in> set held. rank h < rank EngineMu \<Longrightarrow> in_order held (engine_locks calls @ ops) = in_order held ops"
  using in_order_inner [of "EngineMu # held" calls "Unlock EngineMu # ops"]
  by (simp add: engine_locks_def) (metis less_imp_le)

lemma in_order_dial: "in_order [] (getOrDial_locks True @ ops) = in_order [] ops"
  by (simp add: getOrDial_locks_def)

lemma in_order_fates:
  "\<not> list_ex fate_dials fates \<Longrightarrow> in_order [] (concat (map fate_locks fates) @ ops) = in_order [] ops"
proof (induction fates)
  case (Cons f fates)
  then show ?case by (cases f) (auto simp: in_order_critical in_order_engine in_order_dial)
qed simp

lemma in_order_update:
  "in_order [] (updateWorkerStatus_locks dead @ ops) = in_order [] ops"
  by (cases dead) (simp_all add: updateWorkerStatus_locks_def in_order_critical in_order_engine)

lemma operation_in_order:
  assumes "\<not> dials op"
  shows "in_order [] (operation_locks op)"
proof (cases op)
  case (HeartbeatCheck verdict)
  then show ?thesis
    using in_order_update [of _ "critical TriggersMu"]
    by (cases verdict) (simp_all add: checkHeartbeat_locks_def in_order_critical critical_def)
next
  case (EngineMethod calls)
  then show ?thesis using in_order_engine [of "[]" calls "[]"] by simp
next
  case (CancelOnWorker cached)
  then show ?thesis using assms in_order_dial [of "[]"] by simp
next
  case (Tick fates)
  then show ?thesis using assms in_order_fates [of fates "[]"] by (simp add: in_order_critical)
qed (simp_all add: critical_def)

text \<open>The locks of every thread are those its remaining calls release, taken in order.\<close>

definition ordered_threads :: "thread list \<Rightarrow> bool" where
  "ordered_threads ts \<longleftrightarrow> (\<forall>t \<in> set ts. in_order (fst t) (snd t))"

lemma thread_step_ordered: "runs ts t \<Longrightarrow> in_order (fst t) (snd t) \<Longrightarrow> in_order (fst (thread_step t)) (snd (thread_step t))"
  by (cases "(ts, t)" rule: runs.cases) auto

lemma lock_step_ordered: "ordered_threads ts \<Longrightarrow> lock_step i ts = Some ts' \<Longrightarrow> ordered_threads ts'"
  using thread_step_ordered [of ts "ts ! i"]
  by (auto simp: lock_step_def ordered_threads_def split: if_splits dest!: set_update_subset_insert [THEN subsetD])

lemma lock_run_ordered: "ordered_threads ts \<Longrightarrow> lock_run is ts = Some ts' \<Longrightarrow> ordered_threads ts'"
  by (induction "is" arbitrary: ts) (auto split: option.splits dest: lock_step_ordered)

text \<open>Of the threads that wait, the one that waits for the highest lock waits for nobody.\<close>

lemma ordered_progress:
  assumes ord: "ordered_threads ts" and unfin: "\<not> all_finished ts"
  shows "\<exists>i ts'. lock_step i ts = Some ts'"
proof (rule ccontr)
  assume none: "\<not> ?thesis"
  have stuck: "\<not> runs ts t" if mem: "t \<in> set ts" for t
  proof
    assume "runs ts t"
    moreover obtain i where "i < length ts" "t = ts ! i" using mem by (auto simp: in_set_conv_nth)
    ultimately have "lock_step i ts = Some (ts[i := thread_step t])" by (simp add: lock_step_def)
    then show False using none by blast
  qed
  have waits: "\<exists>l. hd (snd t) = Lock l" if "t \<in> set ts" "snd t \<noteq> []" for t
    using stuck [OF that(1)] that(2) by (cases "(ts, t)" rule: runs.cases) auto
  let ?U = "{t \<in> set ts. snd t \<noteq> []}"
  let ?r = "\<lambda>t. case hd (snd t) of Lock l \<Rightarrow> rank l | Unlock l \<Rightarrow> 0"
  have U: "finite ?U" "?U \<noteq> {}" using unfin by (fastforce simp: all_finished_def list_all_iff)+
  obtain t where t: "t \<in> ?U" and top: "Max (?r ` ?U) = ?r t" using obtains_MAX [OF U] by blast
  have max: "?r u \<le> ?r t" if "u \<in> ?U" for u
    unfolding top [symmetric] by (rule Max_ge [OF finite_imageI [OF U(1)] imageI [OF that]])
  from t obtain held l ops where tt: "t = (held, Lock l # ops)" using waits [of t] by (cases t; cases "snd t") auto
  then obtain u where u: "u \<in> set ts" "l \<in> set (fst u)" using stuck [of t] t by (auto simp: list_all_iff)
  have ou: "in_order (fst u) (snd u)" using ord u(1) by (simp add: ordered_threads_def)
  then have "snd u \<noteq> []" using u(2) by (cases "snd u") auto
  moreover from this obtain l' where l': "hd (snd u) = Lock l'" using waits u(1) by blast
  ultimately have "rank l < rank l'" using ou u(2) by (cases "snd u") auto
  moreover have "rank l' \<le> rank l" using max [of u] u(1) \<open>snd u \<noteq> []\<close> l' tt by simp
  ultimately show False by simp
qed

definition remaining :: "thread list \<Rightarrow> nat" where
  "remaining ts = sum_list (map (\<lambda>t. length (snd t)) ts)"

lemma thread_step_shorter: "runs ts t \<Longrightarrow> Suc (length (snd (thread_step t))) = length (snd t)"
  by (cases "(ts, t)" rule: runs.cases) auto

lemma lock_step_remaining:
  assumes "lock_step i ts = Some ts'"
  shows "Suc (remaining ts') = remaining ts"
proof -
  have i: "i < length ts" "runs ts (ts ! i)" "ts' = ts[i := thread_step (ts ! i)]"
    using assms by (auto simp: lock_step_def split: if_splits)
  have "sum_list (map f (ts[i := x])) + f (ts ! i) = sum_list (map f ts) + (f x :: nat)" for f x
    using i(1)
  proof (induction ts arbitrary: i)
    case (Cons t ts)
    then show ?case by (cases i) auto
  qed simp
  from this [of "\<lambda>t. length (snd t)" "thread_step (ts ! i)"] show ?thesis
    using thread_step_shorter [OF i(2)] by (simp add: remaining_def i(3))
qed

lemma ordered_complete: "ordered_threads ts \<Longrightarrow> \<exists>is ts'. lock_run is ts = Some ts' \<and> all_finished ts'"
proof (induction "remaining ts" arbitrary: ts rule: less_induct)
  case less
  show ?case
  proof (cases "all_finished ts")
    case True
    then show ?thesis by (metis lock_run.simps(1))
  next
    case False
    then obtain i ts1 where s: "lock_step i ts = Some ts1" using ordered_progress [OF less.prems] by blast
    from less.hyps [of ts1] lock_step_remaining [OF s] lock_step_ordered [OF less.prems s]
    obtain "is" ts' where "lock_run is ts1 = Some ts'" "all_finished ts'" by auto
    then show ?thesis using s by (intro exI [of _ "i # is"] exI [of _ ts']) simp
  qed
qed

lemma lock_run_remaining: "lock_run is ts = Some ts' \<Longrightarrow> length is + remaining ts' = remaining ts"
  by (induction "is" arbitrary: ts) (auto split: option.splits dest!: lock_step_remaining)

lemma start_ordered: "list_all (\<lambda>op. \<not> dials op) ops \<Longrightarrow> ordered_threads (start_threads ops)"
  by (auto simp: ordered_threads_def start_threads_def list_all_iff operation_in_order)

section \<open>Properties\<close>

text \<open>
  C22. The control plane cannot deadlock while no call has to dial a worker: however many
  operations of the registry, the engine, the scheduler, the bus and the worker client run at
  once, and however they have been interleaved so far, no execution is longer than the number of
  their lock calls, and every one of them can be continued until all operations are done.
\<close>

theorem cached_operations_complete:
  assumes "list_all (\<lambda>op. \<not> dials op) ops" and "lock_run is (start_threads ops) = Some ts"
  shows "length is \<le> remaining (start_threads ops)
     \<and> (all_finished ts \<or> (\<exists>i ts'. lock_step i ts = Some ts')) \<and> (\<exists>is' ts'. lock_run is' ts = Some ts' \<and> all_finished ts')"
proof -
  have ord: "ordered_threads ts" by (rule lock_run_ordered [OF start_ordered [OF assms(1)] assms(2)])
  then show ?thesis
    using lock_run_remaining [OF assms(2)] ordered_progress [OF ord] ordered_complete [OF ord] by auto
qed

theorem cached_operations_complete_witness:
  "\<exists>ts is' ts'. lock_run [0, 0, 0, 0, 0, 1, 1] (start_threads [HeartbeatCheck (Some (Some [PushesJob])), Tick [JobDispatched True []]]) = Some ts
     \<and> lock_run is' ts = Some ts' \<and> all_finished ts'"
proof -
  let ?ops = "[HeartbeatCheck (Some (Some [PushesJob])), Tick [JobDispatched True []]]"
  have "\<not> Option.is_none (lock_run [0, 0, 0, 0, 0, 1, 1] (start_threads ?ops))" by code_simp
  then obtain ts where "lock_run [0, 0, 0, 0, 0, 1, 1] (start_threads ?ops) = Some ts" by (auto simp: Option.is_none_def)
  note run = this
  have "list_all (\<lambda>op. \<not> dials op) ?ops" by simp
  from cached_operations_complete [OF this run] run show ?thesis by blast
qed

text \<open>
  C23. A dial can deadlock the control plane: \<open>getOrDial\<close> asks the registry for the address
  while it holds the client's lock, and a death is processed under the registry's lock and takes
  the client's lock in \<open>CloseConn\<close>. There is an interleaving of one death, one dispatch to a
  worker not yet connected and any further heartbeats after which no thread can ever step again.
\<close>

theorem dial_can_deadlock:
  "\<exists>is ts. lock_run is (start_threads (HeartbeatCheck (Some (Some [])) # Tick [JobDispatched False []] # replicate n RegistryMethod)) = Some ts
     \<and> \<not> all_finished ts \<and> (\<forall>i. lock_step i ts = None)"
proof -
  let ?a = "([RegistryMu], critical ClientMu @ engine_locks [] @ Unlock RegistryMu # critical TriggersMu)"
  let ?b = "([ClientMu], critical RegistryMu @ Unlock ClientMu # engine_locks [] @ critical RegistryMu)"
  let ?ts = "?a # ?b # replicate n ([], critical RegistryMu)"
  have "lock_run [1, 1, 1, 1, 0, 0, 0, 0, 0, 1] (start_threads (HeartbeatCheck (Some (Some [])) # Tick [JobDispatched False []] # replicate n RegistryMethod)) = Some ?ts"
    by (simp add: start_threads_def lock_step_def critical_def checkHeartbeat_locks_def updateWorkerStatus_locks_def
        getOrDial_locks_def engine_locks_def list_all_iff)
  moreover have "lock_step i ?ts = None" for i
    by (auto simp: lock_step_def critical_def nth_Cons split: nat.splits)
  moreover have "\<not> all_finished ?ts" by (simp add: all_finished_def critical_def)
  ultimately show ?thesis by blast
qed

end
