(* ===== verification/Spec2Isabelle.thy ===== *)
theory Spec2Isabelle
  imports Engine_Progress Grpc_Server Cluster_Scenarios Lock_Order
begin

text \<open>
  A distributed workflow orchestrator. The control plane accepts workflows (acyclic graphs of
  tasks), keeps their state, hands ready tasks to workers over gRPC and watches the workers'
  heartbeats; a worker runs tasks in a pool and reports their results.

  \<^bold>\<open>Parts and theories\<close> (paths under \<^verbatim>\<open>src\<close>):

  \<^item> \<open>Prelude\<close>: Go maps as association lists, the order of a range loop (locale
    \<open>go_range\<close>), results, time. \<open>Go_Num\<close>: machine integers, durations, float64.
  \<^item> \<open>Domain_Status\<close>, \<open>Domain_Workflow\<close>, \<open>Domain_Graph\<close>:
    \<^verbatim>\<open>common/domain\<close>, the status automata, tasks and workflows, \<^verbatim>\<open>NewWorkflow\<close> with its
    cycle search.
  \<^item> \<open>Cp_Events\<close>, \<open>Event_Bus\<close>: \<^verbatim>\<open>control-plane/events\<close> and \<^verbatim>\<open>pkg/event_bus\<close>.
  \<^item> \<open>Queue_Spec\<close> (the FIFO contract, a locale), \<open>Scheduler_Queue\<close>
    (\<^verbatim>\<open>scheduler/queue.go\<close>), \<open>Linked_Queue\<close>, \<open>Heap_Order\<close> (the sift loops of
    \<^verbatim>\<open>container/heap\<close>), \<open>Priority_Queue\<close>, \<open>Worker_Pool\<close>:
    \<^verbatim>\<open>pkg/worker_pool\<close>. \<open>Retry_Queue\<close>: \<^verbatim>\<open>pkg/retry_queue\<close>.
  \<^item> \<open>Engine\<close> (definitions), \<open>Engine_Inv\<close>, \<open>Engine_Correct\<close>,
    \<open>Engine_Theorems\<close>, \<open>Engine_Progress\<close>: \<^verbatim>\<open>control-plane/engine/engine.go\<close>,
    every method a function on the engine's state (workflows, ready queue, event bus,
    notifications sent).
  \<^item> \<open>Worker_Registry\<close>: \<^verbatim>\<open>control-plane/orchestration/registry.go\<close> and
    \<^verbatim>\<open>common/domain/wokrer.go\<close>, with the dead man's switch as interleaved steps.
  \<^item> \<open>Worker_Client\<close>, \<open>Scheduler\<close>: \<^verbatim>\<open>control-plane/client\<close>,
    \<^verbatim>\<open>control-plane/scheduler\<close> (locale \<open>go_sort\<close> for \<^verbatim>\<open>sort.Slice\<close>).
  \<^item> \<open>Control_Plane\<close>: what \<^verbatim>\<open>cmd/control-plane/main.go\<close> composes: engine, scheduler,
    registry, client and the dead-worker hook, interleaved (\<open>cp_step\<close>).
  \<^item> \<open>Executors\<close>, \<open>Worker_Task\<close>, \<open>Worker_Service\<close>: the worker
    (\<^verbatim>\<open>pkg/executror_registry\<close>, \<^verbatim>\<open>worker/executor\<close>, \<^verbatim>\<open>worker/client\<close>,
    \<^verbatim>\<open>worker/models\<close>, \<^verbatim>\<open>worker/service\<close>, \<^verbatim>\<open>worker/server\<close>).
  \<^item> \<open>Grpc_Server\<close>: \<^verbatim>\<open>control-plane/server\<close>, the services for clients and
    workers and the event streams, and the properties that span both sides of the network.
  \<^item> \<open>Logging\<close>: \<^verbatim>\<open>common/logger\<close>. \<open>Programs\<close>: the two main functions
    (\<open>worker_main\<close>, \<open>cp_main\<close>), their configuration and command line, and the loops
    driven by tickers (\<open>Scheduler_Run\<close>, \<open>heartbeatLoop\<close>).
  \<^item> \<open>Cluster\<close>: the control plane and all its workers as one transition system
    (\<open>cluster_step\<close>). Worker processes are found by address: the scheduler chooses an ID, the
    client keeps a connection per ID, dialed to the address the registry has for it, and whatever
    process listens there gets the call; a process may be replaced at its address by one with a
    new ID and another configuration. The call reaches a worker in one step and returns in
    another, a goroutine's attempt sends its reports, which travel on a wire, replies and reports
    can get lost, workers act on their own in between. \<open>Cluster_Outcomes\<close>: every final
    status goes back to an execution. \<open>Cluster_Scenarios\<close>: concrete runs.
  \<^item> \<open>Lock_Order\<close>: the mutexes of the control plane as threads of lock and unlock calls.

  \<^bold>\<open>How the code is modelled.\<close> A struct is a record, an enum a datatype, a Go map with string
  keys an association list, a pointer to a shared object the key it is stored under (tasks by
  workflow and task ID) or an index into an explicit store (bus subscribers, queue nodes). A
  method that runs under one lock is one function on the state. Where the code releases a lock
  or uses atomics and channels, the goroutines are program counters with one step per access,
  and the theorems speak about all interleavings (\<open>bus_step\<close>, \<open>pool_act\<close>,
  \<open>loop_step\<close>, \<open>reg_act\<close>, \<open>sched_step\<close>, \<open>cp_step\<close>,
  \<open>service_act\<close>, \<open>stream_act\<close>, \<open>cluster_step\<close>,
  \<open>lock_step\<close>). Clocks, UUIDs, dialing, remote calls, JSON decoding, processes and HTTP
  requests are parameters. The integers that can overflow
  (durations, the busy counter, exit codes in messages) are reduced to their width.

  \<^bold>\<open>What the lemmas show.\<close> The engine: an invariant over all reachable
  states, refinement of an abstract map of statuses, the exact effect of every operation,
  progress, and an end of every run of a workflow within three dispatches and reports per task.
  Construction of workflows: acceptance exactly of valid submissions, termination of the search.
  Queues, pool, retry queue, bus: no element is lost, duplicated or reordered. Registry: death
  only after two overdue checks, hooks once. Scheduler: choice of the least loaded worker,
  conservation of jobs. Control plane: every READY task has its job. Worker: a task never runs
  twice at once, every outcome of an execution without Go error is reported. Services: submission, status,
  reports, timeouts and streams end to end. Cluster: a worker only runs tasks of the engine's
  workflows, with their data and an executor of their type, and its reports find them; a worker
  that the scheduler picks has the executor, as long as the process at its address is still that
  worker; a task is called SUCCEEDED or FAILED only
  after an execution with that outcome. Locks: in order, hence without deadlock, as long as no
  call dials. A group of theorems shows, on the faithful model, behaviours the code does not
  intend (lost reports, recorded refusals, tasks at dead workers, at two workers or sent to the
  successor of their worker, executor errors without a report, a deadlock, streams ended by other
  workflows, and others).

  \<^bold>\<open>Bounds.\<close> The only fuel is that of the cycle search: one unit per task is enough
  (\<open>hasCycle_fuel\<close>, \<open>hasCycle_returns\<close>); all other recursions terminate by a
  measure. The busy counter is exact below $2^{31}$ workers.

  \<^bold>\<open>Not modelled.\<close> Serving and signal handling of the main programs, how log handlers print,
  the generated protobuf code beyond the messages used, the passing of time between ticks
  (theorems quantify over when and how often), data races of unlocked reads such as the status
  query's walk over tasks. In \<open>Cluster\<close> a worker handles a dispatch in one step (its two
  halves interleave in \<open>Worker_Service\<close>), every process draws an ID of its own (a UUID), and
  it listens from its start on. Some accesses that the code makes one after the other are one
  step: the receive from the bus channel and the offers to the subscribers under the read lock
  (\<open>Bus_dispatch_event\<close>), the flag and the close in \<open>Bus_Shutdown\<close>, the reads at the
  beginning of \<^verbatim>\<open>checkHeartbeat\<close> (\<open>check_decide\<close>); a second, concurrent
  \<^verbatim>\<open>StopLoop\<close> of the retry queue is left out, and so is the critical section of the retry
  queue that follows a check in \<open>checkHeartbeat_locks\<close>.
\<close>

end
